(* ===== verification/LA_Prelude.thy ===== *)
theory LA_Prelude
  imports Main
begin

text \<open>
  Shared vocabulary of the development: faults as values, the bind that
  threads them, page arithmetic, and the abstraction of sibling links to lists.

  Addresses are natural numbers; the library only handles user addresses,
  far below \<open>2 ^ 64\<close>, so rounding up never wraps around.  Where the
  width of an integer matters the component theories write it out.
\<close>

section \<open>Faults\<close>

text \<open>
  \<open>Abort\<close> is a call of \<open>abort()\<close>, \<open>Null_Deref\<close> a dereference
  of a null pointer, \<open>Out_Of_Bounds\<close> an access outside an array,
  \<open>Div_By_Zero\<close> a division by zero, \<open>Uninit_Read\<close> a use of an uninitialised local
  variable, and \<open>Out_Of_Fuel\<close> a pointer walk longer than the
  table it walks, which the code would follow for ever.
\<close>

datatype fault = Abort | Null_Deref | Out_Of_Bounds | Div_By_Zero | Uninit_Read | Out_Of_Fuel

type_synonym 'a res = "fault + 'a"

fun rbind :: "'a res \<Rightarrow> ('a \<Rightarrow> 'b res) \<Rightarrow> 'b res" where
  "rbind (Inl e) f = Inl e"
| "rbind (Inr x) f = f x"

lemma rbind_eq_Inr:
  "rbind m f = Inr y \<longleftrightarrow> (\<exists>x. m = Inr x \<and> f x = Inr y)"
  by (cases m) auto

lemma rbind_InrE [elim!]:
  assumes "rbind m f = Inr y"
  obtains x where "m = Inr x" and "f x = Inr y"
  using assms by (auto simp: rbind_eq_Inr)

lemma rbind_assoc: "rbind (rbind m f) g = rbind m (\<lambda>x. rbind (f x) g)"
  by (cases m) simp_all

section \<open>Pages\<close>

type_synonym addr = nat

definition PAGE_SIZE :: nat where
  "PAGE_SIZE = 4096"

text \<open>
  \<open>ROUND_DOWN\<close> and \<open>ROUND_UP\<close> are macros of librunt, the multiple of the second argument at or
  below and at or above the first one, computed the way \<open>round_addr_down_to\<close> and
  \<open>round_addr_up_to\<close> of \<open>include/metavec.h\<close> compute it; a page number is the address shifted right by
  \<open>LOG_PAGE_SIZE\<close>.
\<close>

definition ROUND_DOWN :: "addr \<Rightarrow> nat \<Rightarrow> addr" where
  "ROUND_DOWN x m = m * (x div m)"

definition ROUND_UP :: "addr \<Rightarrow> nat \<Rightarrow> addr" where
  "ROUND_UP x m = m * ((x + m - 1) div m)"

definition PAGENUM :: "addr \<Rightarrow> nat" where
  "PAGENUM x = x div 2 ^ 12"

definition page_up :: "addr \<Rightarrow> nat" where
  "page_up x = PAGENUM (ROUND_UP x PAGE_SIZE)"

definition page_down :: "addr \<Rightarrow> nat" where
  "page_down x = PAGENUM (ROUND_DOWN x PAGE_SIZE)"

lemma PAGENUM_div: "PAGENUM x = x div 4096"
  by (simp add: PAGENUM_def)

lemma page_up_div: "page_up x = (x + 4095) div 4096"
  by (simp add: page_up_def PAGENUM_def ROUND_UP_def PAGE_SIZE_def)

lemma page_down_div: "page_down x = x div 4096"
  by (simp add: page_down_def PAGENUM_def ROUND_DOWN_def PAGE_SIZE_def)

lemma page_up_le: "page_up x \<le> p \<longleftrightarrow> x \<le> p * 4096"
proof -
  have "page_up x \<le> p \<longleftrightarrow> (x + 4095) div 4096 < p + 1"
    by (simp add: page_up_div less_Suc_eq_le)
  also have "\<dots> \<longleftrightarrow> x + 4095 < (p + 1) * 4096"
    by (rule div_less_iff_less_mult) simp
  finally show ?thesis by (simp add: less_Suc_eq_le)
qed

lemma less_page_down: "p < page_down x \<longleftrightarrow> (p + 1) * 4096 \<le> x"
  using less_eq_div_iff_mult_less_eq [of 4096 "p + 1" x] by (simp add: page_down_div Suc_le_eq)

lemma page_down_le_up: "page_down x \<le> page_up x"
  by (simp add: page_down_div page_up_div div_le_mono)

lemma less_page_up: "p < page_up x \<longleftrightarrow> p * 4096 < x"
  by (metis page_up_le not_less)

lemma page_down_le: "page_down x \<le> p \<longleftrightarrow> x < (p + 1) * 4096"
  by (metis less_page_down not_less)

lemma ROUND_UP_aligned: "4096 dvd x \<Longrightarrow> ROUND_UP x PAGE_SIZE = x"
  by (auto elim!: dvdE simp: ROUND_UP_def PAGE_SIZE_def)

text \<open>\<open>PAGE_DIST\<close>: the number of pages from one address up to another, zero if none.\<close>

definition PAGE_DIST :: "addr \<Rightarrow> addr \<Rightarrow> nat" where
  "PAGE_DIST first second =
     (if PAGENUM second > PAGENUM first then PAGENUM second - PAGENUM first else 0)"

lemma PAGE_DIST_diff: "PAGE_DIST a b = PAGENUM b - PAGENUM a"
  by (simp add: PAGE_DIST_def)

section \<open>Lists\<close>

text \<open>The head of a list of indices, with 0 (the null index) for the empty list.\<close>

fun hd0 :: "nat list \<Rightarrow> nat" where
  "hd0 [] = 0"
| "hd0 (x # xs) = x"

lemma hd0_eq_0: "0 \<notin> set xs \<Longrightarrow> hd0 xs = 0 \<longleftrightarrow> xs = []"
  by (cases xs) auto

lemma hd0_in: "hd0 xs \<noteq> 0 \<Longrightarrow> hd0 xs \<in> set xs"
  by (cases xs) auto

lemma hd0_mem: "xs \<noteq> [] \<Longrightarrow> hd0 xs \<in> set xs"
  by (cases xs) auto

text \<open>The last element of a list of indices, again with 0 for none.\<close>

fun last0 :: "nat \<Rightarrow> nat list \<Rightarrow> nat" where
  "last0 d [] = d"
| "last0 d (x # xs) = last0 x xs"

lemma last0_append [simp]: "last0 d (xs @ ys) = last0 (last0 d xs) ys"
  by (induction xs arbitrary: d) auto

lemma last0_in: "xs \<noteq> [] \<Longrightarrow> last0 d xs \<in> set xs"
  by (induction xs arbitrary: d) (auto, metis last0.simps(1))

text \<open>
  A doubly linked list in a store: \<open>dll nxt prv p xs\<close> says that the nodes
  \<open>xs\<close> are linked in this order, that the first one points back to
  \<open>p\<close>, and that the last one has no successor.
\<close>

fun dll :: "(nat \<Rightarrow> nat) \<Rightarrow> (nat \<Rightarrow> nat) \<Rightarrow> nat \<Rightarrow> nat list \<Rightarrow> bool" where
  "dll nxt prv p [] = True"
| "dll nxt prv p (x # xs) = (prv x = p \<and> nxt x = hd0 xs \<and> dll nxt prv x xs)"

lemma dll_cong:
  assumes "\<And>x. x \<in> set xs \<Longrightarrow> nxt x = nxt' x" "\<And>x. x \<in> set xs \<Longrightarrow> prv x = prv' x"
  shows "dll nxt prv p xs = dll nxt' prv' p xs"
  using assms by (induction xs arbitrary: p) auto

end
