(* ===== verification/Pageindex.thy ===== *)
theory Pageindex
  imports LA_Prelude
begin

text \<open>
  The big allocations and the page index: \<open>include/pageindex.h\<close> and
  \<open>src/pageindex.c\<close>.

  The table \<open>big_allocations\<close> is a function from slot numbers to
  records; a pointer to a big allocation is its slot number, 0 being the null
  pointer (slot 0 is never used, as in the code), so \<open>BIDX\<close> and
  \<open>IDXB\<close> are the identity.  The page index is a function from page
  numbers to slot numbers.  The model is that of a build with
  \<open>NDEBUG\<close>: \<open>assert\<close> and the bodies of the sanity checks are
  compiled out of the operations; the sanity checks are definitions of their
  own.  The global lock is not modelled: every operation runs under it.
\<close>

section \<open>Data\<close>

text \<open>The allocators that \<open>allocmeta.h\<close> declares; \<open>A_malloc n\<close> is any further one.\<close>

datatype allocator =
    A_stack | A_stackframe | A_mmap | A_brk
  | A_static_file | A_static_segment | A_static_section | A_static_symbol
  | A_auxv | A_alloca | A_packed_seq
  | A_default_lib_malloc | A_global_malloc | A_ld_so_malloc
  | A_generic_small | A_generic_uniform
  | A_private_nommap_malloc
  | A_malloc nat

text \<open>The \<open>min_alignment\<close> fields; the allocators that do not set it have 0.\<close>

fun min_alignment :: "allocator \<Rightarrow> nat" where
  "min_alignment A_stack = PAGE_SIZE"
| "min_alignment A_mmap = PAGE_SIZE"
| "min_alignment A_brk = 1"
| "min_alignment A_ld_so_malloc = 1"
| "min_alignment _ = 0"

record big_allocation =
  ba_begin :: addr
  ba_end :: addr
  first_child :: nat
  next_sib :: nat
  parent :: nat
  prev_sib :: nat
  allocated_by :: "allocator option"
  suballocator :: "allocator option"
  allocator_private :: nat
  allocator_private_free :: nat
  suballocator_private :: nat
  suballocator_private_free :: nat

definition empty_bigalloc :: big_allocation where
  "empty_bigalloc = \<lparr>ba_begin = 0, ba_end = 0, first_child = 0, next_sib = 0,
     parent = 0, prev_sib = 0, allocated_by = None, suballocator = None,
     allocator_private = 0, allocator_private_free = 0,
     suballocator_private = 0, suballocator_private_free = 0\<rparr>"

definition NBIGALLOCS :: nat where
  "NBIGALLOCS = 32768"

text \<open>
  The globals of \<open>pageindex.c\<close>.  \<open>freed\<close> logs the calls of the
  private-data destructors (function, argument), and
  \<open>biggest_sane\<close> is the platform constant
  \<open>BIGGEST_SANE_USER_ALLOC\<close>, which no operation changes.
\<close>

record pi_state =
  big_allocations :: "nat \<Rightarrow> big_allocation"
  pageindex :: "nat \<Rightarrow> nat"
  nommap_bigalloc :: nat
  systrap_is_initialized :: bool
  freed :: "(nat \<times> nat) list"
  biggest_sane :: nat

definition upd :: "nat \<Rightarrow> (big_allocation \<Rightarrow> big_allocation) \<Rightarrow>
    'a pi_state_scheme \<Rightarrow> 'a pi_state_scheme" where
  "upd i f s = s\<lparr>big_allocations := (big_allocations s)(i := f (big_allocations s i))\<rparr>"

definition BIGALLOC_IN_USE :: "'a pi_state_scheme \<Rightarrow> nat \<Rightarrow> bool" where
  "BIGALLOC_IN_USE s b \<longleftrightarrow>
     ba_begin (big_allocations s b) \<noteq> 0 \<and> ba_end (big_allocations s b) \<noteq> 0"

text \<open>The test that a big allocation contains an address, written out at every descent.\<close>

definition contains_addr :: "'a pi_state_scheme \<Rightarrow> nat \<Rightarrow> addr \<Rightarrow> bool" where
  "contains_addr s b a \<longleftrightarrow>
     ba_begin (big_allocations s b) \<le> a \<and> ba_end (big_allocations s b) > a"

section \<open>Filling the page index\<close>

text \<open>
  \<open>wmemset\<close> on the page index: entry pairs are written as one 32-bit
  wide character, low half first.
\<close>

fun wmemset :: "nat \<Rightarrow> nat \<Rightarrow> nat \<Rightarrow> (nat \<Rightarrow> nat) \<Rightarrow> (nat \<Rightarrow> nat)" where
  "wmemset begin wc 0 ix = ix"
| "wmemset begin wc (Suc n) ix =
     wmemset (begin + 2) wc n
       (ix(begin := wc mod 2 ^ 16, begin + 1 := wc div 2 ^ 16 mod 2 ^ 16))"

text \<open>
  \<open>begin\<close> is the position in the index; the index starts on a
  wide-character boundary, so a position is misaligned when it is odd.
\<close>

definition memset_entries :: "nat \<Rightarrow> nat \<Rightarrow> nat \<Rightarrow> (nat \<Rightarrow> nat) \<Rightarrow> (nat \<Rightarrow> nat)" where
  "memset_entries begin num n ix =
     (let (begin, n, ix) =
            (if n > 0 \<and> begin mod 2 \<noteq> 0 then (begin + 1, n - 1, ix(begin := num))
             else (begin, n, ix));
          wchar_val = num * 2 ^ 16 + num;
          ix = (if n \<noteq> 0 then wmemset begin wchar_val (n div 2) ix else ix)
      in if n mod 2 = 1 then ix(begin + (n - 1) := num) else ix)"

definition memset_bigalloc :: "nat \<Rightarrow> nat \<Rightarrow> nat \<Rightarrow>
    'a pi_state_scheme \<Rightarrow> 'a pi_state_scheme res" where
  "memset_bigalloc begin num n s =
     (if n > biggest_sane s div 2 ^ 12 then Inl Abort
      else Inr (s\<lparr>pageindex := memset_entries begin num n (pageindex s)\<rparr>))"

section \<open>Child and sibling links\<close>

fun find_free_from :: "nat \<Rightarrow> 'a pi_state_scheme \<Rightarrow> nat \<Rightarrow> nat res" where
  "find_free_from 0 s p = Inl Abort"
| "find_free_from (Suc n) s p =
     (if \<not> BIGALLOC_IN_USE s p then Inr p else find_free_from n s (p + 1))"

definition find_free_bigalloc :: "'a pi_state_scheme \<Rightarrow> nat res" where
  "find_free_bigalloc s = find_free_from (NBIGALLOCS - 1) s 1"

fun is_unindexed_from :: "nat \<Rightarrow> (nat \<Rightarrow> nat) \<Rightarrow> nat \<Rightarrow> bool" where
  "is_unindexed_from 0 ix pos = True"
| "is_unindexed_from (Suc n) ix pos = (ix pos = 0 \<and> is_unindexed_from n ix (pos + 1))"

definition is_unindexed :: "'a pi_state_scheme \<Rightarrow> addr \<Rightarrow> addr \<Rightarrow> bool" where
  "is_unindexed s begin end =
     (PAGENUM begin \<le> PAGENUM end \<and>
      is_unindexed_from (PAGENUM end - PAGENUM begin) (pageindex s) (PAGENUM begin))"

definition clear_bigalloc_nomemset :: "nat \<Rightarrow> 'a pi_state_scheme \<Rightarrow> 'a pi_state_scheme" where
  "clear_bigalloc_nomemset b = upd b (\<lambda>r. r\<lparr>ba_begin := 0, ba_end := 0\<rparr>)"

definition clear_bigalloc :: "nat \<Rightarrow> 'a pi_state_scheme \<Rightarrow> 'a pi_state_scheme" where
  "clear_bigalloc b s =
     upd b (\<lambda>r. r\<lparr>allocator_private := 0, allocator_private_free := 0\<rparr>)
       (clear_bigalloc_nomemset b s)"

definition add_child :: "nat \<Rightarrow> nat \<Rightarrow> 'a pi_state_scheme \<Rightarrow> 'a pi_state_scheme" where
  "add_child child p s =
     (let s = upd child (\<lambda>r. r\<lparr>parent := p\<rparr>) s;
          previous_first_child = first_child (big_allocations s p);
          s = upd p (\<lambda>r. r\<lparr>first_child := child\<rparr>) s;
          s = upd child (\<lambda>r. r\<lparr>next_sib := previous_first_child\<rparr>) s
      in if previous_first_child \<noteq> 0
         then upd previous_first_child (\<lambda>r. r\<lparr>prev_sib := child\<rparr>) s else s)"

definition unlink_child :: "nat \<Rightarrow> 'a pi_state_scheme \<Rightarrow> 'a pi_state_scheme res" where
  "unlink_child child s =
     (let p = parent (big_allocations s child);
          nx = next_sib (big_allocations s child);
          pv = prev_sib (big_allocations s child)
      in if p = 0 then Inl Abort
         else
           let s = (if child = first_child (big_allocations s p)
                    then upd p (\<lambda>r. r\<lparr>first_child := nx\<rparr>) s else s);
               s = (if pv \<noteq> 0 then upd pv (\<lambda>r. r\<lparr>next_sib := nx\<rparr>) s else s);
               s = (if nx \<noteq> 0 then upd nx (\<lambda>r. r\<lparr>prev_sib := pv\<rparr>) s else s)
           in Inr (upd child (\<lambda>r. r\<lparr>prev_sib := 0, next_sib := 0, parent := 0\<rparr>) s))"

section \<open>The list of top-level allocations\<close>

text \<open>
  \<open>search_xwards_until_p\<close>: walk from a start along \<open>dir\<close> until
  the condition holds or the list ends; the result is the pair of
  \<open>cur\<close> and \<open>prev\<close>.
\<close>

fun search_until :: "nat \<Rightarrow> (nat \<Rightarrow> nat) \<Rightarrow> (nat \<Rightarrow> bool) \<Rightarrow> nat \<Rightarrow> nat \<Rightarrow> (nat \<times> nat) res" where
  "search_until fuel dir p prev cur =
     (if cur = 0 \<or> p cur then Inr (cur, prev)
      else if fuel = 0 then Inl Out_Of_Fuel
      else search_until (fuel - 1) dir p cur (dir cur))"

declare search_until.simps [simp del]

definition search_next :: "'a pi_state_scheme \<Rightarrow> (nat \<Rightarrow> bool) \<Rightarrow> (nat \<times> nat) res" where
  "search_next s p =
     search_until NBIGALLOCS (\<lambda>b. next_sib (big_allocations s b)) p 0 (nommap_bigalloc s)"

definition search_prev :: "'a pi_state_scheme \<Rightarrow> (nat \<Rightarrow> bool) \<Rightarrow> (nat \<times> nat) res" where
  "search_prev s p =
     search_until NBIGALLOCS (\<lambda>b. prev_sib (big_allocations s b)) p 0 (nommap_bigalloc s)"

text \<open>The subtraction \<open>end-1\<close> is on an unsigned 64-bit value.\<close>

definition ends_at_or_above :: "'a pi_state_scheme \<Rightarrow> addr \<Rightarrow> nat \<Rightarrow> bool" where
  "ends_at_or_above s a b \<longleftrightarrow>
     (ba_end (big_allocations s b) + (2 ^ 64 - 1)) mod 2 ^ 64 \<ge> a"

definition find_toplevel_lowest_ge :: "addr \<Rightarrow> 'a pi_state_scheme \<Rightarrow> nat res" where
  "find_toplevel_lowest_ge a s =
     rbind (search_next s (ends_at_or_above s a)) (\<lambda>(cur, prev).
       if cur \<noteq> 0 \<and> cur \<noteq> nommap_bigalloc s then Inr cur
       else if cur = 0 then Inr 0
       else rbind (search_prev s (\<lambda>b. \<not> ends_at_or_above s a b)) (\<lambda>(cur, prev). Inr prev))"

definition begins_below :: "'a pi_state_scheme \<Rightarrow> addr \<Rightarrow> nat \<Rightarrow> bool" where
  "begins_below s a b \<longleftrightarrow> ba_begin (big_allocations s b) < a"

definition find_toplevel_highest_lt :: "addr \<Rightarrow> 'a pi_state_scheme \<Rightarrow> nat res" where
  "find_toplevel_highest_lt a s =
     rbind (search_prev s (begins_below s a)) (\<lambda>(cur, prev).
       if cur \<noteq> 0 \<and> cur \<noteq> nommap_bigalloc s then Inr cur
       else if cur = 0 then Inr 0
       else rbind (search_next s (\<lambda>b. \<not> begins_below s a b)) (\<lambda>(cur, prev). Inr prev))"

definition add_toplevel :: "nat \<Rightarrow> 'a pi_state_scheme \<Rightarrow> 'a pi_state_scheme res" where
  "add_toplevel b s =
     rbind (find_toplevel_lowest_ge (ba_end (big_allocations s b)) s) (\<lambda>nx.
       let s = upd b (\<lambda>r. r\<lparr>next_sib := nx\<rparr>) s in
       rbind (if nx \<noteq> 0 then Inr (prev_sib (big_allocations s nx))
              else find_toplevel_highest_lt (ba_begin (big_allocations s b)) s) (\<lambda>pv.
         let s = upd b (\<lambda>r. r\<lparr>prev_sib := pv\<rparr>) s;
             s = (if pv \<noteq> 0 then upd pv (\<lambda>r. r\<lparr>next_sib := b\<rparr>) s else s);
             s = (if nx \<noteq> 0 then upd nx (\<lambda>r. r\<lparr>prev_sib := b\<rparr>) s else s)
         in Inr s))"

definition unlink_toplevel :: "nat \<Rightarrow> 'a pi_state_scheme \<Rightarrow> 'a pi_state_scheme" where
  "unlink_toplevel b s =
     (let nx = next_sib (big_allocations s b);
          pv = prev_sib (big_allocations s b);
          s = (if pv \<noteq> 0 then upd pv (\<lambda>r. r\<lparr>next_sib := nx\<rparr>) s else s)
      in if nx \<noteq> 0 then upd nx (\<lambda>r. r\<lparr>prev_sib := pv\<rparr>) s else s)"

definition find_mapping_at_or_above :: "addr \<Rightarrow> 'a pi_state_scheme \<Rightarrow> nat res" where
  "find_mapping_at_or_above a s =
     rbind (find_toplevel_highest_lt a s) (\<lambda>found.
       if found = 0 then Inr 0
       else if ba_end (big_allocations s found) \<le> a then find_toplevel_lowest_ge a s
       else Inr found)"

definition find_mapping_below :: "addr \<Rightarrow> 'a pi_state_scheme \<Rightarrow> nat res" where
  "find_mapping_below a s =
     rbind (find_toplevel_highest_lt a s) (\<lambda>found.
       if found = 0 then Inr 0
       else if ba_end (big_allocations s found) > a
         then find_toplevel_highest_lt (ba_begin (big_allocations s found)) s
       else Inr found)"

section \<open>Deletion\<close>

text \<open>
  \<open>bigalloc_del\<close> after its loop over the children: free the private data,
  unlink, give the pages back to the parent, mark the slot free.
\<close>

definition free_private :: "nat \<Rightarrow> 'a pi_state_scheme \<Rightarrow> 'a pi_state_scheme" where
  "free_private b s =
     (let r = big_allocations s b;
          s = (if allocator_private r \<noteq> 0 \<and> allocator_private_free r \<noteq> 0
               then s\<lparr>freed := freed s @ [(allocator_private_free r, allocator_private r)]\<rparr>
               else s)
      in if suballocator_private_free r \<noteq> 0
         then s\<lparr>freed := freed s @ [(suballocator_private_free r, suballocator_private r)]\<rparr>
         else s)"

definition del_one :: "nat \<Rightarrow> 'a pi_state_scheme \<Rightarrow> 'a pi_state_scheme res" where
  "del_one b s =
     (let s = free_private b s;
          p = parent (big_allocations s b)
      in rbind (if p \<noteq> 0 then unlink_child b s else Inr (unlink_toplevel b s)) (\<lambda>s.
         let begin_to_clear = ba_begin (big_allocations s b);
             end_to_clear = ba_end (big_allocations s b)
         in rbind (memset_bigalloc (PAGENUM (ROUND_UP begin_to_clear PAGE_SIZE)) p
                    (PAGE_DIST (ROUND_UP begin_to_clear PAGE_SIZE)
                               (ROUND_DOWN end_to_clear PAGE_SIZE)) s)
              (\<lambda>s. Inr (clear_bigalloc_nomemset b s))))"

text \<open>The loop over the children; each child's own children go first.\<close>

fun del_children :: "nat \<Rightarrow> 'a pi_state_scheme \<Rightarrow> nat \<Rightarrow> 'a pi_state_scheme res" where
  "del_children fuel s child =
     (if child = 0 then Inr s
      else if fuel = 0 then Inl Out_Of_Fuel
      else
        let next_child = next_sib (big_allocations s child) in
        rbind (del_children (fuel - 1) s (first_child (big_allocations s child))) (\<lambda>s.
        rbind (del_one child s) (\<lambda>s.
        del_children (fuel - 1) s next_child)))"

declare del_children.simps [simp del]

definition bigalloc_del :: "nat \<Rightarrow> 'a pi_state_scheme \<Rightarrow> 'a pi_state_scheme res" where
  "bigalloc_del b s =
     rbind (del_children NBIGALLOCS s (first_child (big_allocations s b))) (del_one b)"

section \<open>Descending the tree\<close>

fun root_of :: "nat \<Rightarrow> 'a pi_state_scheme \<Rightarrow> nat \<Rightarrow> nat res" where
  "root_of fuel s b =
     (if parent (big_allocations s b) = 0 then Inr b
      else if fuel = 0 then Inl Out_Of_Fuel
      else root_of (fuel - 1) s (parent (big_allocations s b)))"

declare root_of.simps [simp del]

definition allocator_matches :: "'a pi_state_scheme \<Rightarrow> allocator \<Rightarrow> bool \<Rightarrow> nat \<Rightarrow> bool" where
  "allocator_matches s a match_suballocator b \<longleftrightarrow>
     (if match_suballocator then suballocator (big_allocations s b)
      else allocated_by (big_allocations s b)) = Some a"

text \<open>
  The loop over the children and the tail call of
  \<open>find_bigalloc_recursive\<close>: at the first child that contains the address,
  either it matches or the search continues among its children.
\<close>

fun find_in_children :: "nat \<Rightarrow> 'a pi_state_scheme \<Rightarrow> nat \<Rightarrow> addr \<Rightarrow> allocator \<Rightarrow> bool \<Rightarrow> nat res" where
  "find_in_children fuel s child a al m =
     (if child = 0 then Inr 0
      else if fuel = 0 then Inl Out_Of_Fuel
      else if contains_addr s child a then
        (if allocator_matches s al m child then Inr child
         else find_in_children (fuel - 1) s (first_child (big_allocations s child)) a al m)
      else find_in_children (fuel - 1) s (next_sib (big_allocations s child)) a al m)"

declare find_in_children.simps [simp del]

definition find_bigalloc_at :: "'a pi_state_scheme \<Rightarrow> nat \<Rightarrow> addr \<Rightarrow> allocator \<Rightarrow> bool \<Rightarrow> nat res" where
  "find_bigalloc_at s start a al m =
     (if allocator_matches s al m start then Inr start
      else find_in_children NBIGALLOCS s (first_child (big_allocations s start)) a al m)"

text \<open>
  Before the system-call traps are in place, a failed lookup first looks for
  the program break just below the address.  The page numbers are unsigned
  64-bit values, and the guard subtracts the larger from the smaller.
\<close>

definition unsigned_sub :: "nat \<Rightarrow> nat \<Rightarrow> nat" where
  "unsigned_sub x y = (x + 2 ^ 64 - y) mod 2 ^ 64"

definition MAX_BRK_PAGES_TO_SEARCH :: nat where
  "MAX_BRK_PAGES_TO_SEARCH = 128"

fun brk_page_search :: "(nat \<Rightarrow> nat) \<Rightarrow> nat \<Rightarrow> nat \<Rightarrow> nat" where
  "brk_page_search ix p 0 = 0"
| "brk_page_search ix p (Suc n) =
     (if ix (Suc n) \<noteq> 0 then Suc n
      else if unsigned_sub (Suc n) p > MAX_BRK_PAGES_TO_SEARCH then Suc n
      else brk_page_search ix p n)"

text \<open>
  The handlers the page index calls in other components, which in turn call
  the page index: the unindexed-address handlers of the stack and mmap
  allocators, the break notification with the current break, and the
  initialiser of the mmap allocator.
\<close>

record 's hooks =
  h_stack_notify_unindexed :: "addr \<Rightarrow> 's \<Rightarrow> (bool \<times> 's) res"
  h_mmap_notify_unindexed :: "addr \<Rightarrow> 's \<Rightarrow> (bool \<times> 's) res"
  h_brk_notify :: "'s \<Rightarrow> 's res"
  h_mmap_init :: "'s \<Rightarrow> 's res"

definition notify_unindexed_address ::
    "'s hooks \<Rightarrow> addr \<Rightarrow> 's \<Rightarrow> (bool \<times> 's) res" where
  "notify_unindexed_address hk a s =
     rbind (h_stack_notify_unindexed hk a s) (\<lambda>(r, s).
       if r then Inr (True, s)
       else rbind (h_mmap_notify_unindexed hk a s) (\<lambda>(r, s). Inr (r, s)))"

definition early_brk_probe :: "'a pi_state_scheme hooks \<Rightarrow> addr \<Rightarrow>
    'a pi_state_scheme \<Rightarrow> 'a pi_state_scheme res" where
  "early_brk_probe hk a s =
     (if ba_begin (big_allocations s 2) \<noteq> 0 then
        let pg = brk_page_search (pageindex s) (PAGENUM a) (PAGENUM a) in
        if pageindex s pg \<noteq> 0 then
          rbind (root_of NBIGALLOCS s (pageindex s pg)) (\<lambda>start.
          rbind (find_bigalloc_at s start (pg * 2 ^ 12 + (2 ^ 12 - 1)) A_brk False) (\<lambda>b.
            if b \<noteq> 0 then h_brk_notify hk s else Inr s))
        else Inr s
      else h_mmap_init hk s)"

definition find_bigalloc_recursive :: "'a pi_state_scheme hooks \<Rightarrow> nat \<Rightarrow> addr \<Rightarrow>
    allocator \<Rightarrow> bool \<Rightarrow> 'a pi_state_scheme \<Rightarrow> (nat \<times> 'a pi_state_scheme) res" where
  "find_bigalloc_recursive hk start a al m s =
     (if start \<noteq> 0 then rbind (find_bigalloc_at s start a al m) (\<lambda>b. Inr (b, s))
      else
        let early = pageindex s (PAGENUM a) = 0 \<and> \<not> systrap_is_initialized s in
        rbind (if early then early_brk_probe hk a s else Inr s) (\<lambda>s.
          let startnum = pageindex s (PAGENUM a) in
          if early \<and> startnum = 0 then Inr (0, s)
          else rbind (root_of NBIGALLOCS s startnum) (\<lambda>start.
               rbind (find_bigalloc_at s start a al m) (\<lambda>b. Inr (b, s)))))"

definition find_bigalloc_under_pageindex :: "addr \<Rightarrow> allocator \<Rightarrow> 'a pi_state_scheme \<Rightarrow> nat res" where
  "find_bigalloc_under_pageindex a al s =
     (let start_idx = pageindex s (PAGENUM a)
      in if start_idx = 0 then Inr 0 else find_bigalloc_at s start_idx a al False)"

definition find_bigalloc_under_pageindex_nofail ::
    "addr \<Rightarrow> allocator \<Rightarrow> 'a pi_state_scheme \<Rightarrow> nat res" where
  "find_bigalloc_under_pageindex_nofail a al s =
     (let start_idx = pageindex s (PAGENUM a)
      in if start_idx = 0 then Inl Abort else find_bigalloc_at s start_idx a al False)"

definition find_bigalloc_from_root :: "'a pi_state_scheme hooks \<Rightarrow> addr \<Rightarrow> allocator \<Rightarrow>
    'a pi_state_scheme \<Rightarrow> (nat \<times> 'a pi_state_scheme) res" where
  "find_bigalloc_from_root hk a al s = find_bigalloc_recursive hk 0 a al False s"

text \<open>
  \<open>find_deepest_bigalloc_recursive\<close>: the loop over the children of
  \<open>start\<close>, standing at \<open>child\<close>, with the recursive call at a child
  that contains the address.
\<close>

fun deepest_from :: "nat \<Rightarrow> 'a pi_state_scheme \<Rightarrow> nat \<Rightarrow> nat \<Rightarrow> addr \<Rightarrow> nat res" where
  "deepest_from fuel s start child a =
     (if child = 0 then Inr start
      else if fuel = 0 then Inl Out_Of_Fuel
      else if contains_addr s child a then
        rbind (deepest_from (fuel - 1) s child (first_child (big_allocations s child)) a)
          (\<lambda>maybe_deeper.
             if maybe_deeper \<noteq> 0 then Inr maybe_deeper
             else deepest_from (fuel - 1) s start (next_sib (big_allocations s child)) a)
      else deepest_from (fuel - 1) s start (next_sib (big_allocations s child)) a)"

declare deepest_from.simps [simp del]

definition find_deepest_bigalloc_recursive ::
    "'a pi_state_scheme \<Rightarrow> nat \<Rightarrow> addr \<Rightarrow> nat res" where
  "find_deepest_bigalloc_recursive s start a =
     deepest_from NBIGALLOCS s start (first_child (big_allocations s start)) a"

definition find_deepest_bigalloc :: "'a pi_state_scheme hooks \<Rightarrow> addr \<Rightarrow>
    'a pi_state_scheme \<Rightarrow> (nat \<times> 'a pi_state_scheme) res" where
  "find_deepest_bigalloc hk a s =
     rbind (if pageindex s (PAGENUM a) = 0
            then rbind (notify_unindexed_address hk a s) (\<lambda>(r, s). Inr s) else Inr s) (\<lambda>s.
       let start_idx = pageindex s (PAGENUM a) in
       if start_idx = 0 then Inr (0, s)
       else rbind (find_deepest_bigalloc_recursive s start_idx a) (\<lambda>b. Inr (b, s)))"

section \<open>Creation\<close>

definition bigalloc_init_nomemset :: "nat \<Rightarrow> addr \<Rightarrow> nat \<Rightarrow> nat \<Rightarrow> nat \<Rightarrow> nat \<Rightarrow>
    allocator option \<Rightarrow> allocator option \<Rightarrow> nat \<Rightarrow> nat \<Rightarrow>
    'a pi_state_scheme \<Rightarrow> 'a pi_state_scheme res" where
  "bigalloc_init_nomemset b ptr sz p priv priv_free al suballoc sub_priv sub_priv_free s =
     (let s = upd b (\<lambda>r. r\<lparr>ba_begin := ptr, ba_end := ptr + sz,
                allocator_private := priv, allocator_private_free := priv_free,
                allocated_by := al, suballocator := suballoc,
                suballocator_private := sub_priv, suballocator_private_free := sub_priv_free,
                first_child := 0, next_sib := 0, prev_sib := 0\<rparr>) s
      in if p \<noteq> 0 then Inr (add_child b p s) else add_toplevel b s)"

definition bigalloc_init :: "nat \<Rightarrow> addr \<Rightarrow> nat \<Rightarrow> nat \<Rightarrow> nat \<Rightarrow> nat \<Rightarrow>
    allocator option \<Rightarrow> allocator option \<Rightarrow> nat \<Rightarrow> nat \<Rightarrow>
    'a pi_state_scheme \<Rightarrow> 'a pi_state_scheme res" where
  "bigalloc_init b ptr sz p priv priv_free al suballoc sub_priv sub_priv_free s =
     rbind (bigalloc_init_nomemset b ptr sz p priv priv_free al suballoc sub_priv sub_priv_free s)
       (\<lambda>s. memset_bigalloc (PAGENUM (ROUND_UP (ba_begin (big_allocations s b)) PAGE_SIZE)) b
              (PAGE_DIST (ROUND_UP (ba_begin (big_allocations s b)) PAGE_SIZE)
                         (ROUND_DOWN (ba_end (big_allocations s b)) PAGE_SIZE)) s)"

definition bigalloc_new :: "addr \<Rightarrow> nat \<Rightarrow> nat \<Rightarrow> nat \<Rightarrow> nat \<Rightarrow> allocator option \<Rightarrow>
    'a pi_state_scheme \<Rightarrow> (nat \<times> 'a pi_state_scheme) res" where
  "bigalloc_new ptr sz p priv priv_free al s =
     rbind (find_free_bigalloc s) (\<lambda>b.
     rbind (bigalloc_init b ptr sz p priv priv_free al None 0 0 s) (\<lambda>s. Inr (b, s)))"

text \<open>The parent of a new big allocation when the caller names none.\<close>

definition find_parent_for :: "'a pi_state_scheme hooks \<Rightarrow> addr \<Rightarrow> nat \<Rightarrow>
    'a pi_state_scheme \<Rightarrow> (nat \<times> 'a pi_state_scheme) res" where
  "find_parent_for hk ptr sz s =
     (let chunk_lastbyte = ptr + sz - 1 in
      rbind (find_deepest_bigalloc hk ptr s) (\<lambda>(deepest_at_start, s).
      rbind (find_deepest_bigalloc hk chunk_lastbyte s) (\<lambda>(deepest_at_end, s).
        if deepest_at_start \<noteq> deepest_at_end then Inl Abort
        else if deepest_at_start = 0 \<and>
            (ROUND_UP ptr PAGE_SIZE \<noteq> ptr \<or>
             ROUND_UP (chunk_lastbyte + 1) PAGE_SIZE \<noteq> chunk_lastbyte + 1) then Inl Abort
        else Inr (deepest_at_start, s))))"

definition new_bigalloc :: "'a pi_state_scheme hooks \<Rightarrow> addr \<Rightarrow> nat \<Rightarrow> nat \<Rightarrow> nat \<Rightarrow> nat \<Rightarrow>
    allocator option \<Rightarrow> 'a pi_state_scheme \<Rightarrow> (nat \<times> 'a pi_state_scheme) res" where
  "new_bigalloc hk ptr sz priv priv_free maybe_parent al s =
     (if sz > biggest_sane s then Inl Abort
      else rbind (if maybe_parent \<noteq> 0 then Inr (maybe_parent, s) else find_parent_for hk ptr sz s)
             (\<lambda>(p, s). bigalloc_new ptr sz p priv priv_free al s))"

section \<open>Changing bounds\<close>

definition extend_bigalloc :: "nat \<Rightarrow> addr \<Rightarrow> 'a pi_state_scheme \<Rightarrow> 'a pi_state_scheme res" where
  "extend_bigalloc b new_end s =
     (let old_end = ba_end (big_allocations s b);
          s = upd b (\<lambda>r. r\<lparr>ba_end := new_end\<rparr>) s
      in memset_bigalloc (PAGENUM (ROUND_DOWN old_end PAGE_SIZE)) b
           (PAGE_DIST (ROUND_DOWN old_end PAGE_SIZE) (ROUND_DOWN new_end PAGE_SIZE)) s)"

text \<open>
  \<open>is_one_or_more_levels_under\<close>: the breadth-first loop over one list of
  children, and the loop that recurses into each of them.
\<close>

fun child_is :: "nat \<Rightarrow> 'a pi_state_scheme \<Rightarrow> nat \<Rightarrow> nat \<Rightarrow> bool res" where
  "child_is fuel s n child =
     (if child = 0 then Inr False
      else if fuel = 0 then Inl Out_Of_Fuel
      else if child = n then Inr True
      else child_is (fuel - 1) s n (next_sib (big_allocations s child)))"

fun levels_under :: "nat \<Rightarrow> 'a pi_state_scheme \<Rightarrow> nat \<Rightarrow> nat \<Rightarrow> bool res" where
  "levels_under fuel s n child =
     (if child = 0 then Inr False
      else if fuel = 0 then Inl Out_Of_Fuel
      else
        rbind (if n = child then Inr False
               else rbind (child_is NBIGALLOCS s n (first_child (big_allocations s child))) (\<lambda>r.
                 if r then Inr True
                 else levels_under (fuel - 1) s n (first_child (big_allocations s child)))) (\<lambda>r.
          if r then Inr True
          else levels_under (fuel - 1) s n (next_sib (big_allocations s child))))"

declare child_is.simps [simp del] levels_under.simps [simp del]

definition is_one_or_more_levels_under :: "'a pi_state_scheme \<Rightarrow> nat \<Rightarrow> nat \<Rightarrow> bool res" where
  "is_one_or_more_levels_under s n b =
     (if n = b then Inr False
      else rbind (child_is NBIGALLOCS s n (first_child (big_allocations s b))) (\<lambda>r.
        if r then Inr True
        else levels_under NBIGALLOCS s n (first_child (big_allocations s b))))"

definition pre_extend_bigalloc :: "nat \<Rightarrow> addr \<Rightarrow> 'a pi_state_scheme \<Rightarrow> 'a pi_state_scheme res" where
  "pre_extend_bigalloc b new_begin s =
     (let old_begin = ba_begin (big_allocations s b) in
      if new_begin < old_begin then
        let s = upd b (\<lambda>r. r\<lparr>ba_begin := new_begin\<rparr>) s in
        rbind (if PAGENUM (ba_end (big_allocations s b)) > PAGENUM old_begin
               then rbind (is_one_or_more_levels_under s (pageindex s (PAGENUM old_begin)) b)
                      (\<lambda>r. Inr (\<not> r))
               else Inr False) (\<lambda>whole.
          memset_bigalloc (PAGENUM (ROUND_UP new_begin PAGE_SIZE)) b
            (PAGE_DIST (ROUND_UP new_begin PAGE_SIZE)
               (if whole then ROUND_UP old_begin PAGE_SIZE else ROUND_DOWN old_begin PAGE_SIZE)) s)
      else Inr s)"

fun pre_extend_bigalloc_recursive :: "nat \<Rightarrow> nat \<Rightarrow> addr \<Rightarrow>
    'a pi_state_scheme \<Rightarrow> 'a pi_state_scheme res" where
  "pre_extend_bigalloc_recursive fuel b new_begin s =
     (let p = parent (big_allocations s b) in
      rbind (if p = 0 then Inr s
             else if fuel = 0 then Inl Out_Of_Fuel
             else case allocated_by (big_allocations s p) of
                 None \<Rightarrow> Inl Null_Deref
               | Some al \<Rightarrow> pre_extend_bigalloc_recursive (fuel - 1) p
                   (if min_alignment al \<noteq> 0 then ROUND_DOWN new_begin (min_alignment al)
                    else new_begin) s)
        (pre_extend_bigalloc b new_begin))"

declare pre_extend_bigalloc_recursive.simps [simp del]

definition truncate_bigalloc_at_end :: "nat \<Rightarrow> addr \<Rightarrow> 'a pi_state_scheme \<Rightarrow> 'a pi_state_scheme res" where
  "truncate_bigalloc_at_end b new_end s =
     (let old_end = ba_end (big_allocations s b);
          s = upd b (\<lambda>r. r\<lparr>ba_end := new_end\<rparr>) s;
          parent_num = parent (big_allocations s b)
      in memset_bigalloc (PAGENUM (ROUND_DOWN new_end PAGE_SIZE)) parent_num
           (PAGE_DIST (ROUND_DOWN new_end PAGE_SIZE) (ROUND_DOWN old_end PAGE_SIZE)) s)"

definition truncate_bigalloc_at_beginning ::
    "nat \<Rightarrow> addr \<Rightarrow> 'a pi_state_scheme \<Rightarrow> 'a pi_state_scheme res" where
  "truncate_bigalloc_at_beginning b new_begin s =
     (let old_begin = ba_begin (big_allocations s b);
          s = upd b (\<lambda>r. r\<lparr>ba_begin := new_begin\<rparr>) s;
          parent_num = parent (big_allocations s b)
      in memset_bigalloc (PAGENUM (ROUND_UP old_begin PAGE_SIZE)) parent_num
           (PAGE_DIST (ROUND_UP old_begin PAGE_SIZE) (ROUND_UP new_begin PAGE_SIZE)) s)"

definition adjust_bigalloc_end :: "nat \<Rightarrow> addr \<Rightarrow> 'a pi_state_scheme \<Rightarrow> 'a pi_state_scheme res" where
  "adjust_bigalloc_end b new_end s =
     (let old_end = ba_end (big_allocations s b) in
      if new_end < old_end then truncate_bigalloc_at_end b new_end s
      else if new_end > old_end then extend_bigalloc b new_end s
      else Inr s)"

section \<open>Splitting\<close>

fun split_children :: "nat \<Rightarrow> nat \<Rightarrow> nat \<Rightarrow> addr \<Rightarrow> nat \<Rightarrow>
    'a pi_state_scheme \<Rightarrow> 'a pi_state_scheme res" where
  "split_children fuel b new split_addr child s =
     (if child = 0 then Inr s
      else if fuel = 0 then Inl Out_Of_Fuel
      else
        let cb = ba_begin (big_allocations s child);
            ce = ba_end (big_allocations s child);
            within_first_half = (cb \<ge> ba_begin (big_allocations s b) \<and> ce \<le> split_addr);
            within_second_half = (cb \<ge> split_addr \<and> ce \<le> ba_end (big_allocations s b));
            next_in_original_list = next_sib (big_allocations s child)
        in if within_first_half \<and> within_second_half then Inl Abort
           else
             rbind (if within_second_half
                    then rbind (unlink_child child s) (\<lambda>s. Inr (add_child child new s))
                    else Inr s)
               (split_children (fuel - 1) b new split_addr next_in_original_list))"

declare split_children.simps [simp del]

fun replace_entries :: "nat \<Rightarrow> nat \<Rightarrow> nat \<Rightarrow> nat \<Rightarrow> (nat \<Rightarrow> nat) \<Rightarrow> (nat \<Rightarrow> nat)" where
  "replace_entries old new pos 0 ix = ix"
| "replace_entries old new pos (Suc n) ix =
     replace_entries old new (pos + 1) n (if ix pos = old then ix(pos := new) else ix)"

definition split_bigalloc_at_page_boundary :: "nat \<Rightarrow> addr \<Rightarrow>
    'a pi_state_scheme \<Rightarrow> (nat \<times> 'a pi_state_scheme) res" where
  "split_bigalloc_at_page_boundary b split_addr s =
     (let tmp = big_allocations s b in
      rbind (find_free_bigalloc s) (\<lambda>new.
      rbind (bigalloc_init_nomemset new split_addr (ba_end tmp - split_addr) (parent tmp)
               (allocator_private tmp) (allocator_private_free tmp) (allocated_by tmp)
               (suballocator tmp) (suballocator_private tmp) (suballocator_private_free tmp) s)
        (\<lambda>s.
      rbind (split_children NBIGALLOCS b new split_addr (first_child (big_allocations s b)) s)
        (\<lambda>s.
          let s = upd b (\<lambda>r. r\<lparr>ba_end := split_addr\<rparr>) s;
              from = PAGENUM (ROUND_UP (ba_begin (big_allocations s new)) PAGE_SIZE);
              to = PAGENUM (ROUND_UP (ba_end (big_allocations s new)) PAGE_SIZE)
          in Inr (new, s\<lparr>pageindex := replace_entries b new from (to - from) (pageindex s)\<rparr>)))))"

section \<open>Deletion by address\<close>

definition delete_bigalloc_at :: "'a pi_state_scheme hooks \<Rightarrow> addr \<Rightarrow> allocator \<Rightarrow>
    'a pi_state_scheme \<Rightarrow> (bool \<times> 'a pi_state_scheme) res" where
  "delete_bigalloc_at hk begin al s =
     rbind (find_bigalloc_from_root hk begin al s) (\<lambda>(b, s).
       if b = 0 then Inr (False, s)
       else rbind (bigalloc_del b s) (\<lambda>s. Inr (True, s)))"

fun zero_run :: "(nat \<Rightarrow> nat) \<Rightarrow> nat \<Rightarrow> nat \<Rightarrow> nat" where
  "zero_run ix pos 0 = 0"
| "zero_run ix pos (Suc n) = (if ix pos = 0 then Suc (zero_run ix (pos + 1) n) else 0)"

fun delete_overlapping :: "nat \<Rightarrow> addr \<Rightarrow> addr \<Rightarrow>
    'a pi_state_scheme \<Rightarrow> 'a pi_state_scheme res" where
  "delete_overlapping fuel deleted_up_to end s =
     (if \<not> deleted_up_to < end then Inr s
      else if fuel = 0 then Inl Out_Of_Fuel
      else
        let max_len = PAGENUM (ROUND_UP end PAGE_SIZE) - PAGENUM deleted_up_to;
            actual_len_zero = zero_run (pageindex s) (PAGENUM deleted_up_to) max_len;
            deleted_up_to = deleted_up_to + PAGE_SIZE * actual_len_zero
        in if deleted_up_to \<ge> end then Inr s
           else
             let n = pageindex s (PAGENUM deleted_up_to) in
             if n = 0 then Inl Abort
             else if ba_begin (big_allocations s n) = 0 \<or> ba_end (big_allocations s n) = 0
               then Inl Abort
             else rbind (root_of NBIGALLOCS s n) (\<lambda>b.
               let b_end = ba_end (big_allocations s b) in
               if \<not> b_end > deleted_up_to then Inl Abort
               else rbind (bigalloc_del b s) (delete_overlapping (fuel - 1) b_end end)))"

declare delete_overlapping.simps [simp del]

definition delete_all_bigallocs_overlapping_range :: "addr \<Rightarrow> addr \<Rightarrow>
    'a pi_state_scheme \<Rightarrow> 'a pi_state_scheme res" where
  "delete_all_bigallocs_overlapping_range begin end s = delete_overlapping NBIGALLOCS begin end s"

section \<open>Lookups\<close>

definition lookup_bigalloc_from_root :: "'a pi_state_scheme hooks \<Rightarrow> addr \<Rightarrow> allocator \<Rightarrow>
    'a pi_state_scheme \<Rightarrow> (nat \<times> 'a pi_state_scheme) res" where
  "lookup_bigalloc_from_root hk mem al s = find_bigalloc_from_root hk mem al s"

definition lookup_bigalloc_from_root_by_suballocator :: "'a pi_state_scheme hooks \<Rightarrow> addr \<Rightarrow>
    allocator \<Rightarrow> 'a pi_state_scheme \<Rightarrow> (nat \<times> 'a pi_state_scheme) res" where
  "lookup_bigalloc_from_root_by_suballocator hk mem al s =
     find_bigalloc_recursive hk 0 mem al True s"

definition lookup_bigalloc_under :: "'a pi_state_scheme hooks \<Rightarrow> addr \<Rightarrow> allocator \<Rightarrow> nat \<Rightarrow>
    'a pi_state_scheme \<Rightarrow> (nat \<times> 'a pi_state_scheme) res" where
  "lookup_bigalloc_under hk mem al start s = find_bigalloc_recursive hk start mem al False s"

definition lookup_bigalloc_under_by_suballocator :: "'a pi_state_scheme hooks \<Rightarrow> addr \<Rightarrow>
    allocator \<Rightarrow> nat \<Rightarrow> 'a pi_state_scheme \<Rightarrow> (nat \<times> 'a pi_state_scheme) res" where
  "lookup_bigalloc_under_by_suballocator hk mem al start s =
     find_bigalloc_recursive hk start mem al True s"

definition lookup_bigalloc_top_level :: "addr \<Rightarrow> 'a pi_state_scheme \<Rightarrow> nat res" where
  "lookup_bigalloc_top_level mem s =
     (let n = pageindex s (PAGENUM mem)
      in if n \<noteq> 0 then root_of NBIGALLOCS s n else Inr 0)"

definition get_bigalloc_containing :: "addr \<Rightarrow> 'a pi_state_scheme \<Rightarrow> nat" where
  "get_bigalloc_containing obj s = pageindex s (PAGENUM obj)"

definition get_allocator_upper_bound :: "addr \<Rightarrow> 'a pi_state_scheme \<Rightarrow> allocator option" where
  "get_allocator_upper_bound obj s =
     (let b = get_bigalloc_containing obj s
      in if b \<noteq> 0 then allocated_by (big_allocations s b) else None)"

definition infer_allocator :: "nat \<Rightarrow> nat \<Rightarrow> 'a pi_state_scheme \<Rightarrow> allocator option" where
  "infer_allocator maybe_the_allocation containing_bigalloc s =
     (if maybe_the_allocation \<noteq> 0 then allocated_by (big_allocations s maybe_the_allocation)
      else suballocator (big_allocations s containing_bigalloc))"

text \<open>
  The inner loop of \<open>__liballocs_leaf_allocator_for\<close> does not stop at the
  first child that contains the address: the last one wins.
\<close>

fun leaf_scan :: "nat \<Rightarrow> 'a pi_state_scheme \<Rightarrow> addr \<Rightarrow> nat \<Rightarrow> nat \<Rightarrow> nat res" where
  "leaf_scan fuel s obj child cur =
     (if child = 0 then Inr cur
      else if fuel = 0 then Inl Out_Of_Fuel
      else leaf_scan (fuel - 1) s obj (next_sib (big_allocations s child))
             (if contains_addr s child obj then child else cur))"

fun leaf_loop :: "nat \<Rightarrow> 'a pi_state_scheme \<Rightarrow> addr \<Rightarrow> nat \<Rightarrow> nat \<Rightarrow> nat res" where
  "leaf_loop fuel s obj cur deepest =
     (if cur = 0 then Inr deepest
      else if fuel = 0 then Inl Out_Of_Fuel
      else rbind (leaf_scan NBIGALLOCS s obj (first_child (big_allocations s cur)) cur) (\<lambda>c.
             leaf_loop (fuel - 1) s obj (if c = cur then 0 else c) cur))"

declare leaf_scan.simps [simp del] leaf_loop.simps [simp del]

definition leaf_allocator_for :: "addr \<Rightarrow> 'a pi_state_scheme \<Rightarrow> (allocator option \<times> nat) res" where
  "leaf_allocator_for obj s =
     rbind (leaf_loop NBIGALLOCS s obj (get_bigalloc_containing obj s) 0) (\<lambda>deepest.
       if deepest = 0 then Inr (None, 0)
       else if suballocator (big_allocations s deepest) \<noteq> None
         then Inr (suballocator (big_allocations s deepest), deepest)
       else Inr (allocated_by (big_allocations s deepest), deepest))"

section \<open>Depth and common parents\<close>

fun bigalloc_depth :: "nat \<Rightarrow> 'a pi_state_scheme \<Rightarrow> nat \<Rightarrow> nat res" where
  "bigalloc_depth fuel s b =
     (if b = 0 then Inr 0
      else if fuel = 0 then Inl Out_Of_Fuel
      else rbind (bigalloc_depth (fuel - 1) s (parent (big_allocations s b))) (\<lambda>d. Inr (d + 1)))"

declare bigalloc_depth.simps [simp del]

function get_common_parent_bigalloc_recursive ::
    "'a pi_state_scheme \<Rightarrow> nat \<Rightarrow> nat \<Rightarrow> nat \<Rightarrow> nat \<Rightarrow> nat" where
  "get_common_parent_bigalloc_recursive s b1 depth1 b2 depth2 =
     (if b1 = b2 then b1
      else if depth1 = 0 \<or> depth2 = 0 then 0
      else if depth1 > depth2 then
        get_common_parent_bigalloc_recursive s
          (parent (big_allocations s b1)) (depth1 - 1) b2 (depth2 - 1)
      else
        get_common_parent_bigalloc_recursive s
          b1 depth1 (parent (big_allocations s b2)) (depth2 - 1))"
  by pat_completeness auto
termination by (relation "measure (\<lambda>(s, b1, d1, b2, d2). d1 + d2)") auto

declare get_common_parent_bigalloc_recursive.simps [simp del]

definition get_common_parent_bigalloc :: "'a pi_state_scheme hooks \<Rightarrow> addr \<Rightarrow> addr \<Rightarrow>
    'a pi_state_scheme \<Rightarrow> (nat \<times> 'a pi_state_scheme) res" where
  "get_common_parent_bigalloc hk ptr end s =
     rbind (find_deepest_bigalloc hk ptr s) (\<lambda>(b1, s).
     rbind (find_deepest_bigalloc hk end s) (\<lambda>(b2, s).
     rbind (bigalloc_depth NBIGALLOCS s b1) (\<lambda>depth1.
     rbind (bigalloc_depth NBIGALLOCS s b2) (\<lambda>depth2.
       Inr (get_common_parent_bigalloc_recursive s b1 depth1 b2 depth2, s)))))"

end
