(* ===== verification/Pageindex_Inv.thy ===== *)
theory Pageindex_Inv
  imports Pageindex
begin

text \<open>
  The invariant of the big allocations and the page index, and the facts about
  it that the operations' proofs share: the allocations form a forest of nested
  address ranges, the sibling links are the lists of children, and each page is
  mapped to the deepest allocation that spans it.
\<close>

section \<open>Field access after updates\<close>

named_theorems pi_simps "access to a state after an update"

lemma upd_big_allocations [simp]:
  "big_allocations (upd i f s) = (big_allocations s)(i := f (big_allocations s i))"
  by (simp add: upd_def)

lemma upd_other [simp]:
  "pageindex (upd i f s) = pageindex s"
  "nommap_bigalloc (upd i f s) = nommap_bigalloc s"
  "systrap_is_initialized (upd i f s) = systrap_is_initialized s"
  "freed (upd i f s) = freed s"
  "biggest_sane (upd i f s) = biggest_sane s"
  by (simp_all add: upd_def)

text \<open>Short names for the fields of a slot.\<close>

abbreviation "bgn s i \<equiv> ba_begin (big_allocations s i)"
abbreviation "en s i \<equiv> ba_end (big_allocations s i)"
abbreviation "par s i \<equiv> parent (big_allocations s i)"
abbreviation "fch s i \<equiv> first_child (big_allocations s i)"
abbreviation "nxt s i \<equiv> next_sib (big_allocations s i)"
abbreviation "prv s i \<equiv> prev_sib (big_allocations s i)"

section \<open>The fill of the page index is a plain range fill\<close>

definition fill :: "nat \<Rightarrow> nat \<Rightarrow> nat \<Rightarrow> (nat \<Rightarrow> nat) \<Rightarrow> (nat \<Rightarrow> nat)" where
  "fill lo num n ix = (\<lambda>p. if lo \<le> p \<and> p < lo + n then num else ix p)"

lemma wmemset_fill:
  assumes "num < 2 ^ 16"
  shows "wmemset lo (num * 2 ^ 16 + num) n ix = fill lo num (2 * n) ix"
proof (induction n arbitrary: lo ix)
  case 0
  show ?case by (auto simp: fill_def)
next
  case (Suc n)
  have "(num * 2 ^ 16 + num) mod 2 ^ 16 = num"
    using assms by (simp only: mod_mult_self3 mod_less)
  moreover have "(num * 2 ^ 16 + num) div 2 ^ 16 mod 2 ^ 16 = num"
    using assms by (subst div_mult_self3) simp_all
  ultimately show ?case
    by (simp only: wmemset.simps Suc.IH) (auto simp: fill_def fun_eq_iff)
qed

lemma memset_entries_fill:
  assumes "num < 2 ^ 16"
  shows "memset_entries lo num n ix = fill lo num n ix"
proof -
  have body: "(if m mod 2 = 1 then (if m \<noteq> 0 then wmemset b (num * 2 ^ 16 + num) (m div 2) jx else jx)
                (b + (m - 1) := num)
              else (if m \<noteq> 0 then wmemset b (num * 2 ^ 16 + num) (m div 2) jx else jx))
            = fill b num m jx" for b m jx
  proof (cases "m mod 2 = 1")
    case True
    then have "m = 2 * (m div 2) + 1" by presburger
    then obtain k where "m = 2 * k + 1" ..
    then show ?thesis
      by (simp add: wmemset_fill [OF assms, simplified]) (auto simp: fill_def fun_eq_iff)
  next
    case False
    then have "m = 2 * (m div 2)" by presburger
    then obtain k where "m = 2 * k" ..
    then show ?thesis
      by (simp add: wmemset_fill [OF assms, simplified]) (auto simp: fill_def fun_eq_iff)
  qed
  show ?thesis
  proof (cases "n > 0 \<and> lo mod 2 \<noteq> 0")
    case True
    then have "memset_entries lo num n ix = fill (lo + 1) num (n - 1) (ix(lo := num))"
      unfolding memset_entries_def Let_def by (simp only: if_True simp_thms prod.case body)
    with True show ?thesis by (auto simp: fill_def fun_eq_iff)
  next
    case False
    then show ?thesis
      unfolding memset_entries_def Let_def by (simp only: if_False prod.case body)
  qed
qed

lemma memset_bigalloc_ok:
  assumes "num < 2 ^ 16" "n \<le> biggest_sane s div 2 ^ 12"
  shows "memset_bigalloc lo num n s = Inr (s\<lparr>pageindex := fill lo num n (pageindex s)\<rparr>)"
  using assms by (simp add: memset_bigalloc_def memset_entries_fill)

section \<open>The invariant\<close>

abbreviation "used s i \<equiv> BIGALLOC_IN_USE s i"

text \<open>The allocation \<open>i\<close> spans the whole page \<open>pg\<close>.\<close>

definition spans :: "'a pi_state_scheme \<Rightarrow> nat \<Rightarrow> nat \<Rightarrow> bool" where
  "spans s i pg \<longleftrightarrow> used s i \<and> bgn s i \<le> pg * 4096 \<and> (pg + 1) * 4096 \<le> en s i"

text \<open>What holds of each slot: its bounds, its nesting, and page alignment at top level.\<close>

definition slot_ok :: "'a pi_state_scheme \<Rightarrow> nat \<Rightarrow> bool" where
  "slot_ok s i \<longleftrightarrow>
     0 < i \<and> i < NBIGALLOCS \<and> bgn s i < en s i \<and> en s i < 2 ^ 64 \<and>
     en s i - bgn s i \<le> biggest_sane s \<and>
     (par s i \<noteq> 0 \<longrightarrow> used s (par s i) \<and> bgn s (par s i) \<le> bgn s i \<and> en s i \<le> en s (par s i)) \<and>
     (par s i = 0 \<longrightarrow> 4096 dvd bgn s i \<and> 4096 dvd en s i)"

definition tree_ok :: "'a pi_state_scheme \<Rightarrow> bool" where
  "tree_ok s \<longleftrightarrow>
     (\<forall>i. if used s i then slot_ok s i else par s i = 0) \<and>
     (\<forall>i j. used s i \<and> used s j \<and> par s i = par s j \<and> i \<noteq> j \<longrightarrow>
        en s i \<le> bgn s j \<or> en s j \<le> bgn s i) \<and>
     (\<exists>d :: nat \<Rightarrow> nat. \<forall>i. used s i \<and> par s i \<noteq> 0 \<longrightarrow> d (par s i) < d i)"

text \<open>
  The links, given the list \<open>ch p\<close> of the children of each slot
  (\<open>ch 0\<close> are the top-level allocations, in address order).
\<close>

definition links_ok :: "'a pi_state_scheme \<Rightarrow> (nat \<Rightarrow> nat list) \<Rightarrow> bool" where
  "links_ok s ch \<longleftrightarrow>
     (\<forall>p. p = 0 \<or> used s p \<longrightarrow>
        dll (nxt s) (prv s) 0 (ch p) \<and> distinct (ch p) \<and>
        set (ch p) = {c. used s c \<and> par s c = p}) \<and>
     (\<forall>p. used s p \<longrightarrow> fch s p = hd0 (ch p)) \<and>
     sorted_wrt (\<lambda>x y. en s x \<le> bgn s y) (ch 0) \<and>
     nommap_bigalloc s \<in> set (ch 0)"

text \<open>
  The page index maps every page to an allocation that spans it and none of
  whose children does; a page without an entry is spanned by no top-level
  allocation.
\<close>

definition index_ok :: "'a pi_state_scheme \<Rightarrow> bool" where
  "index_ok s \<longleftrightarrow>
     (\<forall>pg. (pageindex s pg \<noteq> 0 \<longrightarrow> spans s (pageindex s pg) pg) \<and>
           (\<forall>c. used s c \<and> par s c = pageindex s pg \<longrightarrow> \<not> spans s c pg))"

definition pi_inv :: "'a pi_state_scheme \<Rightarrow> bool" where
  "pi_inv s \<longleftrightarrow> tree_ok s \<and> (\<exists>ch. links_ok s ch) \<and> index_ok s"

lemma tree_slot: "tree_ok s \<Longrightarrow> used s i \<Longrightarrow> slot_ok s i"
  by (auto simp: tree_ok_def split: if_splits)

lemma tree_unused: "tree_ok s \<Longrightarrow> \<not> used s i \<Longrightarrow> par s i = 0"
  by (auto simp: tree_ok_def split: if_splits)

lemma tree_siblings:
  assumes "tree_ok s" "used s i" "used s j" "par s i = par s j" "i \<noteq> j"
  shows "en s i \<le> bgn s j \<or> en s j \<le> bgn s i"
  using assms unfolding tree_ok_def by blast

lemma tree_okI:
  assumes "\<And>i. used s i \<Longrightarrow> slot_ok s i" "\<And>i. \<not> used s i \<Longrightarrow> par s i = 0"
    "\<And>i j. used s i \<Longrightarrow> used s j \<Longrightarrow> par s i = par s j \<Longrightarrow> i \<noteq> j \<Longrightarrow>
      en s i \<le> bgn s j \<or> en s j \<le> bgn s i"
    "\<And>i. used s i \<Longrightarrow> par s i \<noteq> 0 \<Longrightarrow> d (par s i) < (d i :: nat)"
  shows "tree_ok s"
  unfolding tree_ok_def
  by (intro conjI exI [of _ d]) (use assms in auto)

lemma tree_disjoint:
  assumes "tree_ok s" "used s i" "used s j" "par s i = par s j" "x \<in> {bgn s i..<en s i}"
    "x \<in> {bgn s j..<en s j}"
  shows "i = j"
proof (rule ccontr)
  assume "i \<noteq> j"
  with assms(1-4) have "en s i \<le> bgn s j \<or> en s j \<le> bgn s i"
    unfolding tree_ok_def by blast
  with assms(5,6) show False by auto
qed

lemma tree_rank:
  assumes "tree_ok s"
  obtains d :: "nat \<Rightarrow> nat" where "\<And>i. used s i \<Longrightarrow> par s i \<noteq> 0 \<Longrightarrow> d (par s i) < d i"
  using assms unfolding tree_ok_def by blast

lemma used_bounds:
  assumes "tree_ok s" "used s i"
  shows "0 < i" "i < NBIGALLOCS" "bgn s i < en s i" "en s i < 2 ^ 64"
    "en s i - bgn s i \<le> biggest_sane s"
  using tree_slot [OF assms] by (auto simp: slot_ok_def)

lemma used_parent:
  assumes "tree_ok s" "used s i" "par s i \<noteq> 0"
  shows "used s (par s i)" "bgn s (par s i) \<le> bgn s i" "en s i \<le> en s (par s i)"
  using tree_slot [OF assms(1,2)] assms(3) by (auto simp: slot_ok_def)

lemma used_top_aligned:
  assumes "tree_ok s" "used s i" "par s i = 0"
  shows "4096 dvd bgn s i" "4096 dvd en s i"
  using tree_slot [OF assms(1,2)] assms(3) by (auto simp: slot_ok_def)

lemma unused_0: "tree_ok s \<Longrightarrow> \<not> used s 0"
  using used_bounds(1) by blast

lemma par_0: "tree_ok s \<Longrightarrow> par s 0 = 0"
  by (rule tree_unused) (auto dest: unused_0)

subsection \<open>Ancestors\<close>

text \<open>\<open>anc s i j\<close>: \<open>i\<close> is \<open>j\<close> or an ancestor of it.\<close>

inductive anc :: "'a pi_state_scheme \<Rightarrow> nat \<Rightarrow> nat \<Rightarrow> bool" for s where
  anc_refl: "anc s i i"
| anc_step: "anc s i (par s j) \<Longrightarrow> used s j \<Longrightarrow> par s j \<noteq> 0 \<Longrightarrow> anc s i j"

lemma anc_trans: "anc s j k \<Longrightarrow> anc s i j \<Longrightarrow> anc s i k"
  by (induction rule: anc.induct) (auto intro: anc.intros)

lemma anc_child: "used s j \<Longrightarrow> par s j \<noteq> 0 \<Longrightarrow> anc s (par s j) j"
  by (rule anc_step [OF anc_refl])

lemma anc_bounds:
  assumes "tree_ok s" "anc s i j" "used s j"
  shows "used s i \<and> bgn s i \<le> bgn s j \<and> en s j \<le> en s i"
  using assms(2,3) by (induction) (use used_parent [OF assms(1)] in force)+

lemma anc_first_step:
  assumes "tree_ok s" "anc s i j" "i \<noteq> j"
  shows "\<exists>c. used s c \<and> par s c = i \<and> i \<noteq> 0 \<and> anc s c j"
  using assms(2,3)
proof induction
  case (anc_step i j)
  then show ?case
    by (cases "i = par s j") (auto intro: anc.intros)
qed simp

lemma anc_rank:
  assumes "tree_ok s" "\<And>i. used s i \<Longrightarrow> par s i \<noteq> 0 \<Longrightarrow> d (par s i) < (d i :: nat)" "anc s i j"
  shows "d i \<le> d j \<and> (d i = d j \<longrightarrow> i = j)"
  using assms(3)
proof induction
  case (anc_step i j)
  then show ?case using assms(2) [of j] by auto
qed simp

lemma anc_antisym:
  assumes "tree_ok s" "anc s i j" "anc s j i"
  shows "i = j"
proof -
  obtain d :: "nat \<Rightarrow> nat" where d: "\<And>i. used s i \<Longrightarrow> par s i \<noteq> 0 \<Longrightarrow> d (par s i) < d i"
    using tree_rank [OF assms(1)] by blast
  have "d i \<le> d j \<and> (d i = d j \<longrightarrow> i = j)" using anc_rank [where d = d] assms(1,2) d by blast
  moreover have "d j \<le> d i" using anc_rank [where d = d] assms(1,3) d by blast
  ultimately show ?thesis by auto
qed

text \<open>Two allocations that share an address are on one path of the tree.\<close>

lemma overlap_anc:
  assumes t: "tree_ok s"
    and "used s i" "used s j" "x \<in> {bgn s i..<en s i}" "x \<in> {bgn s j..<en s j}"
  shows "anc s i j \<or> anc s j i"
proof -
  obtain d :: "nat \<Rightarrow> nat" where d: "\<And>i. used s i \<Longrightarrow> par s i \<noteq> 0 \<Longrightarrow> d (par s i) < d i"
    using tree_rank [OF t] by blast
  have step: "anc s i j \<or> anc s j i"
    if "used s i" "used s j" "x \<in> {bgn s i..<en s i}" "x \<in> {bgn s j..<en s j}" "par s i \<noteq> 0"
      "anc s (par s i) j \<or> anc s j (par s i)" for i j
    using that(6)
  proof
    assume a: "anc s (par s i) j"
    show ?thesis
    proof (cases "par s i = j")
      case True
      then show ?thesis using anc_child that by blast
    next
      case False
      then obtain c where c: "used s c" "par s c = par s i" "anc s c j"
        using anc_first_step [OF t a] by blast
      then have "x \<in> {bgn s c..<en s c}" using anc_bounds [OF t c(3)] that by auto
      then have "c = i" using tree_disjoint [OF t c(1) that(1) c(2)] that by blast
      then show ?thesis using c by blast
    qed
  next
    assume "anc s j (par s i)"
    then show ?thesis using that by (blast intro: anc_step)
  qed
  show ?thesis using assms(2-)
  proof (induction "d i + d j" arbitrary: i j rule: less_induct)
    case less
    show ?case
    proof (cases "par s i = 0")
      case True
      show ?thesis
      proof (cases "par s j = 0")
        case T: True
        then have "i = j" using tree_disjoint [OF t less.prems(1,2)] True less.prems by auto
        then show ?thesis by (simp add: anc_refl)
      next
        case False
        have "anc s (par s j) i \<or> anc s i (par s j)"
          using less.hyps [of "par s j" i] d [OF less.prems(2) False] less.prems
            used_parent [OF t less.prems(2) False] by auto
        then show ?thesis using step [of j i] less.prems False by blast
      qed
    next
      case False
      have "anc s (par s i) j \<or> anc s j (par s i)"
        using less.hyps [of "par s i" j] d [OF less.prems(1) False] less.prems
          used_parent [OF t less.prems(1) False] by auto
      then show ?thesis using step [of i j] less.prems False by blast
    qed
  qed
qed

text \<open>Hence a page's entry lies under every allocation that spans the page.\<close>

lemma index_deepest:
  assumes "tree_ok s" "index_ok s" "spans s i pg"
  shows "pageindex s pg \<noteq> 0 \<and> anc s i (pageindex s pg)"
proof -
  let ?n = "pageindex s pg"
  have no_child: "\<not> spans s c pg" if "used s c" "par s c = ?n" for c
    using assms(2) that by (simp add: index_ok_def)
  have above: "spans s k pg" if "anc s k i" for k
    using anc_bounds [OF assms(1) that] assms(3) by (auto simp: spans_def)
  have "?n \<noteq> 0"
  proof
    assume z: "?n = 0"
    have "\<not> spans s j pg" if "anc s j i" for j
      using assms(3) z
    proof -
      obtain d :: "nat \<Rightarrow> nat" where d: "\<And>i. used s i \<Longrightarrow> par s i \<noteq> 0 \<Longrightarrow> d (par s i) < d i"
        using tree_rank [OF assms(1)] by blast
      show ?thesis using that
      proof (induction "d j" arbitrary: j rule: less_induct)
        case less
        have u: "used s j" using above [OF less.prems] by (simp add: spans_def)
        show ?case
        proof (cases "par s j = 0")
          case True then show ?thesis using no_child [OF u] z by simp
        next
          case False
          have "anc s (par s j) i" using anc_trans [OF less.prems anc_child [OF u False]] .
          then show ?thesis using less.hyps [OF d [OF u False]] above by blast
        qed
      qed
    qed
    then show False using above anc_refl by blast
  qed
  then have n: "spans s ?n pg" using assms(2) by (simp add: index_ok_def)
  have "anc s i ?n \<or> anc s ?n i"
    by (rule overlap_anc [OF assms(1), where x = "pg * 4096"])
      (use n assms(3) in \<open>auto simp: spans_def\<close>)
  moreover have "anc s i ?n" if up: "anc s ?n i"
  proof (cases "?n = i")
    case False
    then obtain c where "used s c" "par s c = ?n" "anc s c i"
      using anc_first_step [OF assms(1) up] by blast
    then show ?thesis using no_child above by blast
  qed (simp add: anc_refl)
  ultimately show ?thesis using \<open>?n \<noteq> 0\<close> by blast
qed

subsection \<open>Descendants, which bound the walks\<close>

definition desc :: "'a pi_state_scheme \<Rightarrow> nat \<Rightarrow> nat set" where
  "desc s i = {j. anc s i j \<and> used s j}"

definition under :: "'a pi_state_scheme \<Rightarrow> nat list \<Rightarrow> nat set" where
  "under s xs = (\<Union>x\<in>set xs. desc s x)"

lemma NBIGALLOCS_pos: "0 < NBIGALLOCS"
  by (simp add: NBIGALLOCS_def)

lemma under_simps [simp]:
  "under s [] = {}" "under s (x # xs) = desc s x \<union> under s xs"
  by (simp_all add: under_def)

lemma desc_subset: "tree_ok s \<Longrightarrow> desc s i \<subseteq> {1..<NBIGALLOCS}"
  using used_bounds(1,2) by (fastforce simp: desc_def)

lemma under_subset: "tree_ok s \<Longrightarrow> under s xs \<subseteq> {1..<NBIGALLOCS}"
  using desc_subset by (fastforce simp: under_def)

lemma finite_desc: "tree_ok s \<Longrightarrow> finite (desc s i)"
  by (rule finite_subset [OF desc_subset]) auto

lemma finite_under: "tree_ok s \<Longrightarrow> finite (under s xs)"
  by (rule finite_subset [OF under_subset]) auto

lemma card_under_le: "tree_ok s \<Longrightarrow> card (under s xs) < NBIGALLOCS"
  using card_mono [OF _ under_subset, of s xs] NBIGALLOCS_pos by simp

lemma desc_self: "used s i \<Longrightarrow> i \<in> desc s i"
  by (simp add: desc_def anc_refl)

lemma siblings_desc_disjoint:
  assumes "tree_ok s" "used s x" "used s y" "par s x = par s y" "x \<noteq> y"
  shows "desc s x \<inter> desc s y = {}"
proof (rule ccontr)
  assume "desc s x \<inter> desc s y \<noteq> {}"
  then obtain k where k: "anc s x k" "anc s y k" "used s k" by (auto simp: desc_def)
  then have "bgn s k \<in> {bgn s x..<en s x}" "bgn s k \<in> {bgn s y..<en s y}"
    using anc_bounds [OF assms(1) k(1,3)] anc_bounds [OF assms(1) k(2,3)]
      used_bounds(3) [OF assms(1) k(3)] by auto
  then show False using tree_disjoint [OF assms(1-4)] assms(5) by blast
qed

lemma card_under_Cons:
  assumes "tree_ok s" "\<forall>y\<in>set (x # xs). used s y \<and> par s y = p" "distinct (x # xs)"
  shows "card (under s (x # xs)) = card (desc s x) + card (under s xs)"
proof -
  have "desc s x \<inter> under s xs = {}"
    using siblings_desc_disjoint [OF assms(1)] assms(2,3) by (fastforce simp: under_def)
  then show ?thesis
    by (simp add: card_Un_disjoint finite_desc finite_under assms(1))
qed

lemma card_desc_pos: "tree_ok s \<Longrightarrow> used s x \<Longrightarrow> 0 < card (desc s x)"
  using desc_self [of s x] finite_desc [of s x] card_gt_0_iff by blast

lemma under_children:
  assumes "tree_ok s" "used s b" "set cs = {c. used s c \<and> par s c = b}"
  shows "under s cs = desc s b - {b}"
proof (intro equalityI subsetI)
  fix k assume "k \<in> under s cs"
  then obtain c where c: "used s c" "par s c = b" "anc s c k" "used s k"
    using assms(3) by (auto simp: under_def desc_def)
  have b0: "b \<noteq> 0" using used_bounds(1) assms(1,2) by blast
  have "anc s b k" using anc_trans [OF c(3)] anc_child [OF c(1)] c(2) b0 by blast
  moreover have "k \<noteq> b"
  proof
    assume "k = b"
    then have "b = c" using anc_antisym [OF assms(1)] c anc_child [OF c(1)] b0 by blast
    moreover obtain d :: "nat \<Rightarrow> nat" where "\<And>i. used s i \<Longrightarrow> par s i \<noteq> 0 \<Longrightarrow> d (par s i) < d i"
      using tree_rank [OF assms(1)] by blast
    ultimately show False using c b0 by fastforce
  qed
  ultimately show "k \<in> desc s b - {b}" using c by (simp add: desc_def)
next
  fix k assume "k \<in> desc s b - {b}"
  then show "k \<in> under s cs"
    using anc_first_step [OF assms(1), of b k] assms(3) by (auto simp: under_def desc_def)
qed

lemma card_under_children:
  assumes "tree_ok s" "used s b" "set cs = {c. used s c \<and> par s c = b}"
  shows "card (under s cs) = card (desc s b) - 1"
  using under_children [OF assms] desc_self [OF assms(2)] finite_desc [OF assms(1)] by simp

lemma links_child:
  assumes "links_ok s ch" "p = 0 \<or> used s p"
  shows "dll (nxt s) (prv s) 0 (ch p)" "distinct (ch p)" "set (ch p) = {c. used s c \<and> par s c = p}"
  using conjunct1 [OF assms(1) [unfolded links_ok_def], THEN spec, THEN mp, OF assms(2)]
  by simp_all

lemma links_fch: "links_ok s ch \<Longrightarrow> used s p \<Longrightarrow> fch s p = hd0 (ch p)"
  unfolding links_ok_def by (elim conjE allE [of _ p]) simp

lemma links_okI:
  assumes "\<And>p. p = 0 \<or> used s p \<Longrightarrow> dll (nxt s) (prv s) 0 (ch p)"
    "\<And>p. p = 0 \<or> used s p \<Longrightarrow> distinct (ch p)"
    "\<And>p. p = 0 \<or> used s p \<Longrightarrow> set (ch p) = {c. used s c \<and> par s c = p}"
    "\<And>p. used s p \<Longrightarrow> fch s p = hd0 (ch p)"
    "sorted_wrt (\<lambda>x y. en s x \<le> bgn s y) (ch 0)" "nommap_bigalloc s \<in> set (ch 0)"
  shows "links_ok s ch"
  unfolding links_ok_def
  by (intro conjI allI impI assms; assumption)

text \<open>
  What a loop over a list of children knows at a position: the rest of the
  list, its links, and that the fuel covers everything below it.
\<close>

definition at_children :: "'a pi_state_scheme \<Rightarrow> nat \<Rightarrow> nat list \<Rightarrow> nat \<Rightarrow> bool" where
  "at_children s p cs fuel \<longleftrightarrow>
     (\<exists>q. dll (nxt s) (prv s) q cs) \<and> distinct cs \<and>
     (\<forall>c\<in>set cs. used s c \<and> par s c = p) \<and> card (under s cs) \<le> fuel"

lemma at_childrenD:
  assumes "tree_ok s" "at_children s p (x # xs) fuel"
  shows "used s x" "par s x = p" "x \<noteq> 0" "nxt s x = hd0 xs" "fuel \<noteq> 0"
    "at_children s p xs (fuel - 1)" "card (desc s x) \<le> fuel" "x \<notin> set xs"
proof -
  have sib: "\<forall>y\<in>set (x # xs). used s y \<and> par s y = p" "distinct (x # xs)"
    and c: "card (under s (x # xs)) \<le> fuel"
    using assms(2) by (auto simp: at_children_def)
  show u: "used s x" and "par s x = p" and "nxt s x = hd0 xs" and "x \<notin> set xs"
    using assms(2) by (auto simp: at_children_def)
  show "x \<noteq> 0" using used_bounds(1) [OF assms(1) u] by simp
  have k: "card (desc s x) + card (under s xs) \<le> fuel" "0 < card (desc s x)"
    using card_under_Cons [OF assms(1) sib] c card_desc_pos [OF assms(1) u] by auto
  then show "fuel \<noteq> 0" "card (desc s x) \<le> fuel" by auto
  show "at_children s p xs (fuel - 1)"
    using assms(2) k by (auto simp: at_children_def)
qed

lemma at_children_below:
  assumes "tree_ok s" "links_ok s ch" "used s x" "card (desc s x) \<le> fuel"
  shows "at_children s x (ch x) (fuel - 1)"
  using links_child [OF assms(2), of x] card_under_children [OF assms(1,3), of "ch x"] assms(3,4)
  by (auto simp: at_children_def)

lemma at_children_all:
  assumes "tree_ok s" "links_ok s ch" "used s x"
  shows "at_children s x (ch x) NBIGALLOCS"
  using links_child [OF assms(2), of x] card_under_le [OF assms(1), of "ch x"] assms(3)
  by (auto simp: at_children_def)

section \<open>Lookups find the deepest allocation\<close>

text \<open>\<open>deepest_at s a b\<close>: \<open>b\<close> contains the address, and everything else that does is above it.\<close>

definition deepest_at :: "'a pi_state_scheme \<Rightarrow> addr \<Rightarrow> nat \<Rightarrow> bool" where
  "deepest_at s a b \<longleftrightarrow>
     used s b \<and> contains_addr s b a \<and> (\<forall>i. used s i \<and> contains_addr s i a \<longrightarrow> anc s i b)"

lemma contains_range: "contains_addr s i a \<longleftrightarrow> a \<in> {bgn s i..<en s i}"
  by (auto simp: contains_addr_def)

lemma deepestI:
  assumes "tree_ok s" "used s b" "contains_addr s b a"
    "\<And>c. used s c \<Longrightarrow> par s c = b \<Longrightarrow> \<not> contains_addr s c a"
  shows "deepest_at s a b"
  unfolding deepest_at_def
proof (intro conjI allI impI; (elim conjE)?)
  fix i assume i: "used s i" "contains_addr s i a"
  then have "anc s i b \<or> anc s b i"
    using overlap_anc [OF assms(1) i(1) assms(2)] assms(3) by (auto simp: contains_range)
  moreover have "i = b" if up: "anc s b i"
  proof (rule ccontr)
    assume "i \<noteq> b"
    then obtain c where c: "used s c" "par s c = b" "anc s c i"
      using anc_first_step [OF assms(1) up] by blast
    then have "contains_addr s c a"
      using anc_bounds [OF assms(1) c(3) i(1)] i(2) by (auto simp: contains_range)
    then show False using assms(4) c by blast
  qed
  ultimately show "anc s i b" using anc_refl by blast
qed (use assms in auto)

lemma deepest_unique:
  assumes "tree_ok s" "deepest_at s a b" "deepest_at s a c"
  shows "b = c"
proof -
  have "anc s b c" "anc s c b" using assms(2,3) by (auto simp: deepest_at_def)
  then show ?thesis by (rule anc_antisym [OF assms(1)])
qed

lemma contains_up:
  assumes "tree_ok s" "anc s i j" "used s j" "contains_addr s j a"
  shows "contains_addr s i a"
  using anc_bounds [OF assms(1-3)] assms(4) by (auto simp: contains_range)

lemma deepest_from_ok:
  assumes t: "tree_ok s" and l: "links_ok s ch"
  shows "used s start \<Longrightarrow> contains_addr s start a \<Longrightarrow> at_children s start cs fuel \<Longrightarrow>
    (\<forall>c. used s c \<and> par s c = start \<and> contains_addr s c a \<longrightarrow> c \<in> set cs) \<Longrightarrow>
    \<exists>b. deepest_from fuel s start (hd0 cs) a = Inr b \<and> deepest_at s a b"
proof (induction fuel arbitrary: start cs)
  case (0 start cs)
  then have "cs = []"
    using at_childrenD(5) [OF t] by (cases cs) blast+
  with 0 show ?case
    using deepestI [OF t 0(1,2)] by (subst deepest_from.simps) auto
next
  case (Suc n)
  show ?case
  proof (cases cs)
    case Nil
    with Suc.prems show ?thesis
      using deepestI [OF t Suc.prems(1,2)] by (subst deepest_from.simps) auto
  next
    case (Cons x xs)
    note x = at_childrenD [OF t Suc.prems(3) [unfolded Cons], simplified]
    show ?thesis
    proof (cases "contains_addr s x a")
      case True
      have "at_children s x (ch x) n"
        using at_children_below [OF t l x(1), of "Suc n"] x(7) by simp
      then have "\<exists>b. deepest_from n s x (hd0 (ch x)) a = Inr b \<and> deepest_at s a b"
        using Suc.IH [OF x(1) True] links_child(3) [OF l] x(1) by simp
      then obtain b where b: "deepest_from n s x (hd0 (ch x)) a = Inr b" "deepest_at s a b" by blast
      then have "b \<noteq> 0" using used_bounds(1) [OF t, of b] by (simp add: deepest_at_def)
      then show ?thesis
        using b Cons True x links_fch [OF l x(1)] by (subst deepest_from.simps) simp
    next
      case False
      have "\<exists>b. deepest_from n s start (hd0 xs) a = Inr b \<and> deepest_at s a b"
        using Suc.IH [OF Suc.prems(1,2) x(6)] Suc.prems(4) False Cons by auto
      then show ?thesis
        using Cons False x by (subst deepest_from.simps) simp
    qed
  qed
qed

lemma find_deepest_rec_ok:
  assumes "tree_ok s" "links_ok s ch" "used s start" "contains_addr s start a"
  shows "\<exists>b. find_deepest_bigalloc_recursive s start a = Inr b \<and> deepest_at s a b"
  unfolding find_deepest_bigalloc_recursive_def links_fch [OF assms(2,3)]
  by (rule deepest_from_ok [OF assms at_children_all [OF assms(1-3)]])
    (simp add: links_child(3) [OF assms(2)] assms(3))

end
