(* ===== verification/Pageindex_Lookup.thy ===== *)
theory Pageindex_Lookup
  imports Pageindex_Inv
begin

text \<open>
  Lookups by address: the page index leads to an allocation containing the
  address, and the descents from it find the deepest one, the leaf allocator,
  the top-level allocation, and the outermost allocation made by a given
  allocator.
\<close>

section \<open>From an address to its page's entry\<close>

lemma root_exists:
  assumes "tree_ok s" "used s i"
  shows "\<exists>r. anc s r i \<and> used s r \<and> par s r = 0"
proof -
  obtain d :: "nat \<Rightarrow> nat" where d: "\<And>i. used s i \<Longrightarrow> par s i \<noteq> 0 \<Longrightarrow> d (par s i) < d i"
    using tree_rank [OF assms(1)] by blast
  show ?thesis using assms(2)
  proof (induction "d i" arbitrary: i rule: less_induct)
    case less
    show ?case
    proof (cases "par s i = 0")
      case True
      then show ?thesis using less.prems anc_refl by blast
    next
      case False
      then obtain r where "anc s r (par s i)" "used s r" "par s r = 0"
        using less.hyps [OF d] less.prems used_parent(1) [OF assms(1)] by blast
      then show ?thesis using anc_step [OF _ less.prems False] by blast
    qed
  qed
qed

lemma aligned_spans:
  assumes "4096 dvd bgn s r" "4096 dvd en s r" "used s r" "contains_addr s r a"
  shows "spans s r (PAGENUM a)"
proof -
  obtain x y where "bgn s r = 4096 * x" "en s r = 4096 * y" using assms(1,2) by (auto elim!: dvdE)
  moreover from calculation assms(4) have "x \<le> a div 4096" "a div 4096 < y"
    using less_eq_div_iff_mult_less_eq [of 4096 x a] div_less_iff_less_mult [of 4096 a y]
    by (auto simp: contains_addr_def mult.commute)
  ultimately show ?thesis using assms(3) by (simp add: spans_def PAGENUM_div)
qed

lemma spans_contains: "spans s i (PAGENUM a) \<Longrightarrow> contains_addr s i a"
  using div_times_less_eq_dividend [of a 4096] dividend_less_div_times [of 4096 a]
  by (auto simp: spans_def contains_addr_def PAGENUM_div)

lemma index_entry:
  assumes "index_ok s" "pageindex s (PAGENUM a) \<noteq> 0"
  shows "used s (pageindex s (PAGENUM a))" "contains_addr s (pageindex s (PAGENUM a)) a"
proof -
  have "spans s (pageindex s (PAGENUM a)) (PAGENUM a)" using assms by (simp add: index_ok_def)
  then show "used s (pageindex s (PAGENUM a))" "contains_addr s (pageindex s (PAGENUM a)) a"
    using spans_contains by (auto simp: spans_def)
qed

lemma index_contains:
  assumes "tree_ok s" "index_ok s" "used s i" "contains_addr s i a"
  shows "used s (pageindex s (PAGENUM a))" "contains_addr s (pageindex s (PAGENUM a)) a"
    "pageindex s (PAGENUM a) \<noteq> 0"
proof -
  obtain r where r: "anc s r i" "used s r" "par s r = 0"
    using root_exists [OF assms(1,3)] by blast
  have "spans s r (PAGENUM a)"
    using aligned_spans used_top_aligned [OF assms(1) r(2,3)] r(2)
      contains_up [OF assms(1) r(1) assms(3,4)] by blast
  then show z: "pageindex s (PAGENUM a) \<noteq> 0"
    using index_deepest [OF assms(1,2)] by blast
  then show "used s (pageindex s (PAGENUM a))" "contains_addr s (pageindex s (PAGENUM a)) a"
    using index_entry [OF assms(2)] by auto
qed

section \<open>The deepest allocation\<close>

lemma pi_invE:
  assumes "pi_inv s"
  obtains ch where "tree_ok s" "links_ok s ch" "index_ok s"
  using assms by (auto simp: pi_inv_def)

lemma find_deepest_ok:
  assumes "pi_inv s" "used s i" "contains_addr s i a"
  shows "\<exists>b. find_deepest_bigalloc hk a s = Inr (b, s) \<and> deepest_at s a b"
proof -
  obtain ch where w: "tree_ok s" "links_ok s ch" "index_ok s" using pi_invE [OF assms(1)] .
  note n = index_contains [OF w(1,3) assms(2,3)]
  obtain b where "find_deepest_bigalloc_recursive s (pageindex s (PAGENUM a)) a = Inr b"
    "deepest_at s a b"
    using find_deepest_rec_ok [OF w(1,2) n(1,2)] by blast
  then show ?thesis using n(3) by (simp add: find_deepest_bigalloc_def)
qed

text \<open>
  C1. In a consistent state, if any big allocation contains an address then
  \<open>find_deepest_bigalloc\<close> returns, without changing the state and without
  running out of fuel, the allocation that contains it and lies below every
  other one that does.
\<close>

theorem find_deepest_correct:
  assumes "pi_inv s" "used s i" "contains_addr s i a"
  shows "\<exists>b. find_deepest_bigalloc hk a s = Inr (b, s) \<and> deepest_at s a b"
  by (rule find_deepest_ok [OF assms])

section \<open>The leaf allocator\<close>

text \<open>The inner loop keeps the last child that contains the address.\<close>

lemma leaf_scan_ok:
  assumes t: "tree_ok s"
  shows "at_children s p cs fuel \<Longrightarrow>
    leaf_scan fuel s a (hd0 cs) cur = Inr (last0 cur (filter (\<lambda>c. contains_addr s c a) cs))"
proof (induction cs arbitrary: fuel cur)
  case Nil
  show ?case by (subst leaf_scan.simps) simp
next
  case (Cons x xs)
  note x = at_childrenD [OF t Cons.prems]
  show ?case
    using Cons.IH [OF x(6)] x(3,4,5) by (subst leaf_scan.simps) simp
qed

lemma leaf_loop_ok:
  assumes t: "tree_ok s" and l: "links_ok s ch"
  shows "used s cur \<Longrightarrow> contains_addr s cur a \<Longrightarrow> card (desc s cur) \<le> fuel \<Longrightarrow>
    \<exists>b. leaf_loop fuel s a cur d = Inr b \<and> deepest_at s a b"
proof (induction fuel arbitrary: cur d)
  case 0
  then show ?case using card_desc_pos [OF t 0(1)] by simp
next
  case (Suc n)
  let ?cs = "filter (\<lambda>c. contains_addr s c a) (ch cur)"
  have scan: "leaf_scan NBIGALLOCS s a (fch s cur) cur = Inr (last0 cur ?cs)"
    using leaf_scan_ok [OF t at_children_all [OF t l Suc.prems(1)]] links_fch [OF l Suc.prems(1)]
    by simp
  have cur0: "cur \<noteq> 0" using used_bounds(1) [OF t Suc.prems(1)] by simp
  show ?case
  proof (cases "?cs = []")
    case True
    then have "deepest_at s a cur"
      using links_child(3) [OF l] Suc.prems(1,2)
      by (intro deepestI [OF t]) (auto simp: filter_empty_conv)
    then show ?thesis
      using scan True cur0
      by (subst leaf_loop.simps) (simp add: leaf_loop.simps [where cur = 0])
  next
    case False
    define c where "c = last0 cur ?cs"
    have c: "used s c" "par s c = cur" "contains_addr s c a"
      using last0_in [OF False, of cur] links_child(3) [OF l, of cur] Suc.prems(1)
      by (auto simp: c_def)
    have sub: "desc s c \<subseteq> desc s cur - {cur}"
      using under_children [OF t Suc.prems(1) links_child(3) [OF l]] Suc.prems(1)
        c links_child(3) [OF l, of cur] by (auto simp: under_def)
    then have "card (desc s c) \<le> n"
      using card_mono [OF _ sub] finite_desc [OF t, of cur] desc_self [OF Suc.prems(1)] Suc.prems(3)
      by simp
    then obtain b where "leaf_loop n s a c cur = Inr b" "deepest_at s a b"
      using Suc.IH [OF c(1,3)] by blast
    moreover have "c \<noteq> cur" "c \<noteq> 0"
      using sub desc_self [OF c(1)] used_bounds(1) [OF t c(1)] by auto
    ultimately show ?thesis
      using scan cur0 by (subst leaf_loop.simps) (simp add: c_def)
  qed
qed

lemma leaf_allocator_ok:
  assumes "pi_inv s" "deepest_at s a b"
  shows "leaf_allocator_for a s =
    Inr (if suballocator (big_allocations s b) \<noteq> None then suballocator (big_allocations s b)
         else allocated_by (big_allocations s b), b)"
proof -
  obtain ch where w: "tree_ok s" "links_ok s ch" "index_ok s" using pi_invE [OF assms(1)] .
  have b: "used s b" "contains_addr s b a" using assms(2) by (auto simp: deepest_at_def)
  note n = index_contains [OF w(1,3) b]
  have "card (desc s (pageindex s (PAGENUM a))) \<le> NBIGALLOCS"
    using card_under_le [OF w(1), of "[pageindex s (PAGENUM a)]"] by simp
  then obtain b' where b': "leaf_loop NBIGALLOCS s a (pageindex s (PAGENUM a)) 0 = Inr b'"
    "deepest_at s a b'"
    using leaf_loop_ok [OF w(1,2) n(1,2)] by blast
  have "b' = b" by (rule deepest_unique [OF w(1) b'(2) assms(2)])
  moreover have "b \<noteq> 0" using used_bounds(1) [OF w(1) b(1)] by simp
  ultimately show ?thesis
    using b'(1) by (simp add: leaf_allocator_for_def get_bigalloc_containing_def)
qed

text \<open>
  C2. The leaf allocator of an address is the suballocator of the deepest big
  allocation containing it if that one is suballocated, and the allocator that
  made it otherwise; the two descents, one stopping at the first matching child
  and one at the last, agree.
\<close>

theorem leaf_allocator_correct:
  assumes "pi_inv s" "deepest_at s a b"
  shows "leaf_allocator_for a s =
    Inr (if suballocator (big_allocations s b) \<noteq> None then suballocator (big_allocations s b)
         else allocated_by (big_allocations s b), b)"
  by (rule leaf_allocator_ok [OF assms])

section \<open>The top-level allocation\<close>

definition ups :: "'a pi_state_scheme \<Rightarrow> nat \<Rightarrow> nat set" where
  "ups s b = {k. anc s k b \<and> used s k}"

lemma ups_parent:
  assumes "tree_ok s" "used s b" "par s b \<noteq> 0"
  shows "ups s b = insert b (ups s (par s b))" "b \<notin> ups s (par s b)"
proof -
  show "ups s b = insert b (ups s (par s b))"
    using assms by (auto simp: ups_def intro: anc.intros elim: anc.cases)
  obtain d :: "nat \<Rightarrow> nat" where d: "\<And>i. used s i \<Longrightarrow> par s i \<noteq> 0 \<Longrightarrow> d (par s i) < d i"
    using tree_rank [OF assms(1)] by blast
  show "b \<notin> ups s (par s b)"
    using anc_rank [where d = d, OF assms(1)] d [OF assms(2,3)] d by (fastforce simp: ups_def)
qed

lemma ups_subset: "tree_ok s \<Longrightarrow> ups s b \<subseteq> {1..<NBIGALLOCS}"
  using used_bounds(1,2) by (fastforce simp: ups_def)

lemma finite_ups: "tree_ok s \<Longrightarrow> finite (ups s b)"
  by (rule finite_subset [OF ups_subset]) auto

lemma card_ups_less: "tree_ok s \<Longrightarrow> card (ups s b) < NBIGALLOCS"
  using card_mono [OF _ ups_subset, of s b] NBIGALLOCS_pos by simp

lemma card_ups_parent:
  assumes "tree_ok s" "used s b" "par s b \<noteq> 0"
  shows "card (ups s b) = Suc (card (ups s (par s b)))"
  using ups_parent [OF assms] finite_ups [OF assms(1)] by simp

lemma root_of_ok:
  assumes t: "tree_ok s"
  shows "used s b \<Longrightarrow> card (ups s b) \<le> Suc fuel \<Longrightarrow>
    \<exists>r. root_of fuel s b = Inr r \<and> anc s r b \<and> used s r \<and> par s r = 0"
proof (induction fuel arbitrary: b)
  case 0
  have "par s b = 0"
  proof (rule ccontr)
    assume p: "par s b \<noteq> 0"
    have "par s b \<in> ups s (par s b)"
      using used_parent(1) [OF t 0(1) p] by (simp add: ups_def anc_refl)
    then have "card (ups s (par s b)) > 0"
      using finite_ups [OF t] card_gt_0_iff by blast
    then show False using card_ups_parent [OF t 0(1) p] 0(2) by simp
  qed
  then show ?case using 0 by (subst root_of.simps) (auto intro: anc_refl)
next
  case (Suc n)
  show ?case
  proof (cases "par s b = 0")
    case True
    then show ?thesis using Suc.prems by (subst root_of.simps) (auto intro: anc_refl)
  next
    case False
    then have "\<exists>r. root_of n s (par s b) = Inr r \<and> anc s r (par s b) \<and> used s r \<and> par s r = 0"
      using Suc.IH [OF used_parent(1)] Suc.prems card_ups_parent [OF t Suc.prems(1)] t by simp
    then show ?thesis
      using False Suc.prems(1) by (subst root_of.simps) (auto intro: anc_step)
  qed
qed

text \<open>
  The top-level lookup of an address contained in any big allocation
  returns the one with no parent that contains it.
\<close>

lemma lookup_top_level_correct:
  assumes "pi_inv s" "used s i" "contains_addr s i a"
  shows "\<exists>r. lookup_bigalloc_top_level a s = Inr r \<and> used s r \<and> par s r = 0 \<and>
    contains_addr s r a"
proof -
  obtain ch where w: "tree_ok s" "links_ok s ch" "index_ok s" using pi_invE [OF assms(1)] .
  note n = index_contains [OF w(1,3) assms(2,3)]
  have "card (ups s (pageindex s (PAGENUM a))) \<le> Suc NBIGALLOCS"
    using card_ups_less [OF w(1), of "pageindex s (PAGENUM a)"] by simp
  then obtain r where r: "root_of NBIGALLOCS s (pageindex s (PAGENUM a)) = Inr r"
    "anc s r (pageindex s (PAGENUM a))" "used s r" "par s r = 0"
    using root_of_ok [OF w(1) n(1)] by blast
  have "contains_addr s r a" using contains_up [OF w(1) r(2) n(1,2)] .
  then show ?thesis using n(3) r by (simp add: lookup_bigalloc_top_level_def)
qed

section \<open>The outermost allocation of an allocator\<close>

definition candidates :: "'a pi_state_scheme \<Rightarrow> nat \<Rightarrow> addr \<Rightarrow> allocator \<Rightarrow> bool \<Rightarrow> nat set" where
  "candidates s p a al m =
     {k. used s k \<and> anc s p k \<and> contains_addr s k a \<and> allocator_matches s al m k}"

text \<open>A null result for no candidate, else the candidate above all the others.\<close>

definition outermost :: "'a pi_state_scheme \<Rightarrow> nat set \<Rightarrow> nat \<Rightarrow> bool" where
  "outermost s K r \<longleftrightarrow> (if r = 0 then K = {} else r \<in> K \<and> (\<forall>k\<in>K. anc s r k))"

lemma candidates_below:
  assumes "tree_ok s" "used s x" "par s x = p" "contains_addr s x a" "p \<noteq> 0"
  shows "candidates s p a al m - {p} = candidates s x a al m"
proof (intro equalityI subsetI)
  fix k assume "k \<in> candidates s p a al m - {p}"
  then have k: "used s k" "anc s p k" "contains_addr s k a" "allocator_matches s al m k" "k \<noteq> p"
    by (auto simp: candidates_def)
  obtain c where c: "used s c" "par s c = p" "anc s c k"
    using anc_first_step [OF assms(1) k(2)] k(5) by blast
  then have "c = x"
    using tree_disjoint [OF assms(1) c(1) assms(2)] assms(3,4)
      contains_up [OF assms(1) c(3) k(1,3)] by (auto simp: contains_range)
  then show "k \<in> candidates s x a al m" using c k by (simp add: candidates_def)
next
  fix k assume "k \<in> candidates s x a al m"
  then have k: "used s k" "anc s x k" "contains_addr s k a" "allocator_matches s al m k"
    by (auto simp: candidates_def)
  have "anc s p x" using anc_child [OF assms(2)] assms(3,5) by simp
  moreover have "p \<noteq> k"
    using under_children [OF assms(1), of p "[c\<leftarrow>[0..<NBIGALLOCS]. used s c \<and> par s c = p]"] k
      used_bounds(2) [OF assms(1)] used_parent(1) [OF assms(1,2)] assms(2,3,5)
    by (auto simp: under_def desc_def set_eq_iff)
  ultimately show "k \<in> candidates s p a al m - {p}"
    using k anc_trans by (auto simp: candidates_def)
qed

lemma candidates_none:
  assumes "tree_ok s" "\<And>c. used s c \<Longrightarrow> par s c = p \<Longrightarrow> \<not> contains_addr s c a"
  shows "candidates s p a al m - {p} = {}"
proof (rule ccontr)
  assume "candidates s p a al m - {p} \<noteq> {}"
  then obtain k where k: "used s k" "anc s p k" "contains_addr s k a" "k \<noteq> p"
    by (auto simp: candidates_def)
  then obtain c where "used s c" "par s c = p" "anc s c k"
    using anc_first_step [OF assms(1) k(2)] by blast
  then show False using assms(2) contains_up [OF assms(1) _ k(1,3)] by blast
qed

lemma find_in_children_ok:
  assumes t: "tree_ok s" and l: "links_ok s ch"
  shows "used s p \<Longrightarrow> at_children s p cs fuel \<Longrightarrow>
    (\<forall>c. used s c \<and> par s c = p \<and> contains_addr s c a \<longrightarrow> c \<in> set cs) \<Longrightarrow>
    \<exists>r. find_in_children fuel s (hd0 cs) a al m = Inr r \<and>
        outermost s (candidates s p a al m - {p}) r"
proof (induction fuel arbitrary: p cs)
  case (0 p cs)
  then have "cs = []" using at_childrenD(5) [OF t] by (cases cs) blast+
  with 0 show ?case
    using candidates_none [OF t, of p a] by (subst find_in_children.simps) (auto simp: outermost_def)
next
  case (Suc n)
  show ?case
  proof (cases cs)
    case Nil
    with Suc.prems show ?thesis
      using candidates_none [OF t, of p a] by (subst find_in_children.simps) (auto simp: outermost_def)
  next
    case (Cons x xs)
    note x = at_childrenD [OF t Suc.prems(2) [unfolded Cons]]
    have p0: "p \<noteq> 0" using used_bounds(1) [OF t Suc.prems(1)] by simp
    show ?thesis
    proof (cases "contains_addr s x a")
      case True
      note K = candidates_below [OF t x(1,2) True p0]
      show ?thesis
      proof (cases "allocator_matches s al m x")
        case M: True
        then have "outermost s (candidates s x a al m) x"
          using x(1,3) True by (auto simp: outermost_def candidates_def anc_refl)
        then show ?thesis using Cons True M x K by (subst find_in_children.simps) simp
      next
        case M: False
        then have "candidates s x a al m = candidates s x a al m - {x}"
          by (auto simp: candidates_def)
        moreover have "at_children s x (ch x) n"
          using at_children_below [OF t l x(1,7)] by simp
        ultimately have "\<exists>r. find_in_children n s (hd0 (ch x)) a al m = Inr r \<and>
            outermost s (candidates s p a al m - {p}) r"
          using Suc.IH [OF x(1), of "ch x"] links_child(3) [OF l, of x] x(1) K by simp
        then show ?thesis
          using Cons True M x links_fch [OF l x(1)] by (subst find_in_children.simps) simp
      qed
    next
      case False
      have "\<exists>r. find_in_children n s (hd0 xs) a al m = Inr r \<and>
          outermost s (candidates s p a al m - {p}) r"
        using Suc.IH [OF Suc.prems(1), of xs] x(6) Suc.prems(3) False Cons by auto
      then show ?thesis using Cons False x by (subst find_in_children.simps) simp
    qed
  qed
qed

lemma find_bigalloc_at_ok:
  assumes "tree_ok s" "links_ok s ch" "used s start" "contains_addr s start a"
  shows "\<exists>r. find_bigalloc_at s start a al m = Inr r \<and> outermost s (candidates s start a al m) r"
proof (cases "allocator_matches s al m start")
  case True
  moreover have "start \<noteq> 0" using used_bounds(1) [OF assms(1,3)] by simp
  ultimately show ?thesis
    using assms by (auto simp: find_bigalloc_at_def outermost_def candidates_def anc_refl)
next
  case False
  then have "candidates s start a al m = candidates s start a al m - {start}"
    by (auto simp: candidates_def)
  then show ?thesis
    using find_in_children_ok [OF assms(1-3) at_children_all [OF assms(1-3)], of a al m] False
      links_child(3) [OF assms(2), of start] links_fch [OF assms(2,3)] assms(3)
    by (simp add: find_bigalloc_at_def)
qed

lemma find_from_root_ok:
  assumes "pi_inv s" "used s i" "contains_addr s i a"
  shows "\<exists>r. find_bigalloc_recursive hk 0 a al m s = Inr (r, s) \<and>
    outermost s {k. used s k \<and> contains_addr s k a \<and> allocator_matches s al m k} r"
proof -
  obtain ch where w: "tree_ok s" "links_ok s ch" "index_ok s" using pi_invE [OF assms(1)] .
  note n = index_contains [OF w(1,3) assms(2,3)]
  have "card (ups s (pageindex s (PAGENUM a))) \<le> Suc NBIGALLOCS"
    using card_ups_less [OF w(1), of "pageindex s (PAGENUM a)"] by simp
  then obtain r where r: "root_of NBIGALLOCS s (pageindex s (PAGENUM a)) = Inr r"
    "anc s r (pageindex s (PAGENUM a))" "used s r" "par s r = 0"
    using root_of_ok [OF w(1) n(1)] by blast
  have ra: "contains_addr s r a" using contains_up [OF w(1) r(2) n(1,2)] .
  have "anc s r k" if "used s k" "contains_addr s k a" for k
  proof -
    have "anc s r k \<or> anc s k r"
      using overlap_anc [OF w(1) r(3) that(1)] ra that(2) by (auto simp: contains_range)
    then show ?thesis using r(4) by (auto elim: anc.cases intro: anc_refl)
  qed
  then have "candidates s r a al m =
      {k. used s k \<and> contains_addr s k a \<and> allocator_matches s al m k}"
    by (auto simp: candidates_def)
  then show ?thesis
    using find_bigalloc_at_ok [OF w(1,2) r(3) ra, of al m] n(3) r(1)
    by (auto simp: find_bigalloc_recursive_def)
qed

text \<open>
  C3. For an address inside some big allocation of a consistent state, a lookup from the
  root by allocator (or by suballocator) returns the outermost of the big allocations
  that contain the address and belong to that allocator, and null exactly when none of those
  that contain it does; the state is unchanged.
\<close>

theorem find_from_root_correct:
  assumes "pi_inv s" "used s i" "contains_addr s i a"
  shows "\<exists>r. find_bigalloc_recursive hk 0 a al m s = Inr (r, s) \<and>
    outermost s {k. used s k \<and> contains_addr s k a \<and> allocator_matches s al m k} r"
  by (rule find_from_root_ok [OF assms])

section \<open>Framing\<close>

text \<open>The state of the page index is what its invariant is about.\<close>

definition same_shape :: "'a pi_state_scheme \<Rightarrow> 'b pi_state_scheme \<Rightarrow> bool" where
  "same_shape s s' \<longleftrightarrow>
     (\<forall>i. bgn s' i = bgn s i \<and> en s' i = en s i \<and> par s' i = par s i \<and> nxt s' i = nxt s i \<and>
        prv s' i = prv s i \<and> fch s' i = fch s i) \<and>
     pageindex s' = pageindex s \<and> nommap_bigalloc s' = nommap_bigalloc s \<and> biggest_sane s' = biggest_sane s"

lemma same_shape_used: "same_shape s s' \<Longrightarrow> used s' i = used s i"
  by (simp add: same_shape_def BIGALLOC_IN_USE_def)

lemma same_shape_inv:
  assumes "same_shape s s'" "pi_inv s"
  shows "pi_inv s'"
proof -
  note f = assms(1) [unfolded same_shape_def] and u = same_shape_used [OF assms(1)]
  have nx: "nxt s' = nxt s" "prv s' = prv s" using f by auto
  obtain ch where w: "tree_ok s" "links_ok s ch" "index_ok s" using pi_invE [OF assms(2)] .
  have "slot_ok s' i = slot_ok s i" for i using f u by (simp add: slot_ok_def)
  then have "tree_ok s'" using w(1) f u by (simp add: tree_ok_def)
  moreover have "bgn s' i = bgn s i" "en s' i = en s i" "par s' i = par s i" "fch s' i = fch s i"
    "nommap_bigalloc s' = nommap_bigalloc s" for i using f by auto
  then have "links_ok s' ch = links_ok s ch" by (simp only: links_ok_def u nx)
  then have "links_ok s' ch" using w(2) by simp
  moreover have "spans s' i pg = spans s i pg" for i pg using f u by (simp add: spans_def)
  then have "index_ok s'" using w(3) f u by (simp add: index_ok_def)
  ultimately show ?thesis by (auto simp: pi_inv_def)
qed

lemma same_shape_anc:
  assumes "same_shape s s'" "anc s i j"
  shows "anc s' i j"
  using assms(2)
proof (induction rule: anc.induct)
  case (anc_step i j)
  have p: "par s' j = par s j" using assms(1) by (simp add: same_shape_def)
  show ?case
    using anc.anc_step [of s' i j] anc_step same_shape_used [OF assms(1), of j] by (simp add: p)
qed (rule anc_refl)

lemma same_shape_deepest:
  assumes "same_shape s s'" "deepest_at s a b"
  shows "deepest_at s' a b"
proof -
  have "contains_addr s' i a = contains_addr s i a" for i
    using assms(1) by (simp add: same_shape_def contains_addr_def)
  then show ?thesis
    using assms(2) same_shape_used [OF assms(1)] same_shape_anc [OF assms(1)] by (simp add: deepest_at_def)
qed

lemma same_shape_payload:
  assumes "\<And>r. ba_begin (f r) = ba_begin r \<and> ba_end (f r) = ba_end r \<and> parent (f r) = parent r \<and>
    next_sib (f r) = next_sib r \<and> prev_sib (f r) = prev_sib r \<and> first_child (f r) = first_child r"
  shows "same_shape s (upd b f s)"
  using assms by (simp add: same_shape_def upd_def)

end
