(* ===== verification/Linked_Lists.thy ===== *)
theory Linked_Lists
  imports LA_Prelude
begin

text \<open>
  Segments of doubly linked lists in a store, shared by the sibling lists of the
  page index and the recency list of the range cache.
\<close>

section \<open>Segments of doubly linked lists\<close>

fun hd_or :: "nat \<Rightarrow> nat list \<Rightarrow> nat" where
  "hd_or e [] = e"
| "hd_or e (x # xs) = x"

lemma hd_or_0: "hd_or 0 xs = hd0 xs"
  by (cases xs) auto

text \<open>As \<open>dll\<close>, with the successor \<open>e\<close> of the last node.\<close>

fun seg :: "(nat \<Rightarrow> nat) \<Rightarrow> (nat \<Rightarrow> nat) \<Rightarrow> nat \<Rightarrow> nat \<Rightarrow> nat list \<Rightarrow> bool" where
  "seg nx pv p e [] = True"
| "seg nx pv p e (x # xs) = (pv x = p \<and> nx x = hd_or e xs \<and> seg nx pv x e xs)"

lemma dll_seg: "dll nx pv p xs = seg nx pv p 0 xs"
  by (induction xs arbitrary: p) (auto simp: hd_or_0)

lemma seg_append:
  "seg nx pv p e (xs @ ys) \<longleftrightarrow> seg nx pv p (hd_or e ys) xs \<and> seg nx pv (last0 p xs) e ys"
proof (induction xs arbitrary: p)
  case (Cons x xs)
  then show ?case by (cases xs) auto
qed simp

lemma seg_cong:
  assumes "\<And>x. x \<in> set xs \<Longrightarrow> nx x = nx' x" "\<And>x. x \<in> set xs \<Longrightarrow> pv x = pv' x"
  shows "seg nx pv p e xs = seg nx' pv' p e xs"
  using assms by (induction xs arbitrary: p) auto

text \<open>Redirecting the two ends of a segment.\<close>

lemma seg_set_end:
  assumes "seg nx pv p e xs" "distinct xs" "xs \<noteq> []"
  shows "seg (nx(last0 p xs := e')) pv p e' xs"
  using assms
proof (induction xs arbitrary: p)
  case (Cons x xs)
  show ?case
  proof (cases xs)
    case (Cons y ys)
    then have "last0 x xs \<noteq> x" using last0_in [of xs x] Cons.prems by auto
    then show ?thesis using Cons.IH [of x] Cons.prems Cons by simp
  qed (use Cons.prems in simp)
qed simp

lemma seg_set_start:
  assumes "seg nx pv p e (x # xs)" "x \<notin> set xs"
  shows "seg nx (pv(x := p')) p' e (x # xs)"
proof -
  have "seg nx (pv(x := p')) x e xs = seg nx pv x e xs"
    by (rule seg_cong) (use assms(2) in auto)
  then show ?thesis using assms(1) by simp
qed

text \<open>Reading a list backwards.\<close>

lemma seg_rev: "seg nx pv p e xs \<Longrightarrow> seg pv nx e p (rev xs)"
proof (induction xs arbitrary: p)
  case (Cons x xs)
  have "seg pv nx e x (rev xs)" using Cons by simp
  moreover have "last0 e (rev xs) = hd_or e xs" by (cases xs) auto
  ultimately show ?case using Cons.prems by (simp add: seg_append)
qed simp


text \<open>Joining the two parts of a list around a node that has been taken out.\<close>

lemma seg_join:
  assumes a: "seg nx pv p b A" and b: "seg nx pv b 0 B" and d: "distinct (A @ B)"
    and nx: "\<And>i. i \<in> set (A @ B) \<Longrightarrow> nx' i = (if A \<noteq> [] \<and> i = last0 p A then hd0 B else nx i)"
    and pv: "\<And>i. i \<in> set (A @ B) \<Longrightarrow> pv' i = (if B \<noteq> [] \<and> i = hd0 B then last0 p A else pv i)"
  shows "seg nx' pv' p 0 (A @ B)"
proof -
  have "seg nx' pv' p (hd_or 0 B) A"
  proof (cases "A = []")
    case False
    have "hd0 B \<notin> set A \<or> B = []" using d by (cases B) auto
    then have "seg nx' pv' p (hd_or 0 B) A = seg (nx(last0 p A := hd_or 0 B)) pv p (hd_or 0 B) A"
      by (intro seg_cong) (use False in \<open>auto simp: nx pv hd_or_0\<close>)
    then show ?thesis using seg_set_end [OF a _ False, of "hd_or 0 B"] d by simp
  qed simp
  moreover have "seg nx' pv' (last0 p A) 0 B"
  proof (cases B)
    case (Cons x xs)
    have "last0 p A \<notin> set B \<or> A = []" using d last0_in [of A p] by auto
    then have "seg nx' pv' (last0 p A) 0 B = seg nx (pv(x := last0 p A)) (last0 p A) 0 B"
      by (intro seg_cong) (use Cons in \<open>auto simp: nx pv\<close>)
    then show ?thesis using seg_set_start [of nx pv _ 0 x xs "last0 p A"] b d Cons by auto
  qed simp
  ultimately show ?thesis by (simp add: seg_append)
qed

lemma last0_eq_0: "0 \<notin> set xs \<Longrightarrow> last0 0 xs = 0 \<longleftrightarrow> xs = []"
  by (metis last0.simps(1) last0_in)

end
