(* ===== verification/Pageindex_Links.thy ===== *)
theory Pageindex_Links
  imports Pageindex_Lookup Linked_Lists
begin

text \<open>
  The sibling lists under the operations that link and unlink: the searches
  along the list of top-level allocations, and insertion and removal.
\<close>

section \<open>Searching along a list\<close>

lemma search_until_seg:
  assumes "seg nx pv q 0 ys" "0 \<notin> set ys" "length ys \<le> fuel"
  shows "search_until fuel nx P p (hd0 ys) =
    Inr (hd0 (dropWhile (\<lambda>x. \<not> P x) ys), last0 p (takeWhile (\<lambda>x. \<not> P x) ys))"
  using assms
proof (induction ys arbitrary: q p fuel)
  case Nil
  show ?case by (subst search_until.simps) simp
next
  case (Cons y ys)
  show ?case
  proof (cases "P y")
    case True
    then show ?thesis by (subst search_until.simps) simp
  next
    case False
    then show ?thesis
      using Cons.IH [of y "fuel - 1" y] Cons.prems
      by (subst search_until.simps) (auto simp: hd_or_0)
  qed
qed

text \<open>The list of top-level allocations as the searches need it.\<close>

definition top_list :: "'a pi_state_scheme \<Rightarrow> nat list \<Rightarrow> bool" where
  "top_list s xs \<longleftrightarrow>
     dll (nxt s) (prv s) 0 xs \<and> distinct xs \<and> sorted_wrt (\<lambda>x y. en s x \<le> bgn s y) xs \<and>
     nommap_bigalloc s \<in> set xs \<and>
     (\<forall>x\<in>set xs. 0 < x \<and> x < NBIGALLOCS \<and> bgn s x < en s x \<and> en s x < 2 ^ 64)"

lemma top_list_length: "top_list s xs \<Longrightarrow> length xs \<le> NBIGALLOCS"
proof -
  assume "top_list s xs"
  then have "set xs \<subseteq> {0..<NBIGALLOCS}" "distinct xs" by (auto simp: top_list_def)
  then show ?thesis
    using card_mono [of "{0..<NBIGALLOCS}" "set xs"] distinct_card [of xs] by simp
qed

lemma top_search:
  assumes "top_list s (us @ nommap_bigalloc s # vs)"
  shows "search_next s P = Inr (hd0 (dropWhile (\<lambda>x. \<not> P x) (nommap_bigalloc s # vs)),
      last0 0 (takeWhile (\<lambda>x. \<not> P x) (nommap_bigalloc s # vs)))"
    "search_prev s P = Inr (hd0 (dropWhile (\<lambda>x. \<not> P x) (nommap_bigalloc s # rev us)),
      last0 0 (takeWhile (\<lambda>x. \<not> P x) (nommap_bigalloc s # rev us)))"
proof -
  let ?st = "nommap_bigalloc s"
  have d: "seg (nxt s) (prv s) 0 0 (us @ ?st # vs)" and z: "0 \<notin> set (us @ ?st # vs)"
    using assms by (auto simp: top_list_def dll_seg)
  have len: "length (us @ ?st # vs) \<le> NBIGALLOCS" by (rule top_list_length [OF assms])
  show "search_next s P = Inr (hd0 (dropWhile (\<lambda>x. \<not> P x) (?st # vs)),
      last0 0 (takeWhile (\<lambda>x. \<not> P x) (?st # vs)))"
    using search_until_seg [of "nxt s" "prv s" "last0 0 us" "?st # vs" NBIGALLOCS P 0] d z len
    by (simp add: search_next_def seg_append)
  have "seg (prv s) (nxt s) 0 0 (rev vs @ ?st # rev us)"
    using seg_rev [OF d] by simp
  then show "search_prev s P = Inr (hd0 (dropWhile (\<lambda>x. \<not> P x) (?st # rev us)),
      last0 0 (takeWhile (\<lambda>x. \<not> P x) (?st # rev us)))"
    using search_until_seg [of "prv s" "nxt s" "last0 0 (rev vs)" "?st # rev us" NBIGALLOCS P 0] z len
    by (simp add: search_prev_def seg_append)
qed

text \<open>
  A search for the first element with an upward-closed property, started in
  the middle of the list.
\<close>

lemma search_up:
  assumes mono: "sorted_wrt (\<lambda>x y. P x \<longrightarrow> P y) (us @ st # vs)" and "0 \<notin> set (us @ st # vs)"
    "distinct (us @ st # vs)"
  shows "(let cur = hd0 (dropWhile (\<lambda>x. \<not> P x) (st # vs)) in
          if cur \<noteq> 0 \<and> cur \<noteq> st then cur
          else if cur = 0 then 0
          else last0 0 (takeWhile P (st # rev us)))
    = hd0 (dropWhile (\<lambda>x. \<not> P x) (us @ st # vs))"
proof (cases "P st")
  case True
  define A B where "A = takeWhile (\<lambda>x. \<not> P x) (us @ [st])" and "B = dropWhile (\<lambda>x. \<not> P x) (us @ [st])"
  have AB: "us @ [st] = A @ B" by (simp add: A_def B_def)
  have "B \<noteq> []" using True by (auto simp: B_def dropWhile_eq_Nil_conv)
  then obtain b B' where B: "B = b # B'" by (cases B) auto
  then have "P b" using hd_dropWhile [of "\<lambda>x. \<not> P x" "us @ [st]"] B_def by (metis list.discI list.sel(1))
  moreover have "sorted_wrt (\<lambda>x y. P x \<longrightarrow> P y) (A @ b # B' @ vs)"
    using mono AB B by (metis append.assoc append_Cons append_Nil)
  ultimately have Ball: "\<forall>x\<in>set B. P x" by (auto simp: B sorted_wrt_append)
  have Anone: "\<forall>x\<in>set A. \<not> P x" using set_takeWhileD by (fastforce simp: A_def)
  have "st # rev us = rev B @ rev A" using arg_cong [OF AB, of rev] by simp
  then have "takeWhile P (st # rev us) = rev B @ takeWhile P (rev A)"
    using Ball by (simp only:) (rule takeWhile_append2, simp)
  moreover have "takeWhile P (rev A) = []" using Anone by (cases "A = []") (auto simp: takeWhile_eq_Nil_iff hd_rev)
  ultimately have "last0 0 (takeWhile P (st # rev us)) = b" by (simp add: B)
  moreover have AB2: "us @ st # vs = A @ B @ vs" using AB by (metis append.assoc append_Cons append_Nil)
  have "hd0 (dropWhile (\<lambda>x. \<not> P x) (us @ st # vs)) = b"
    unfolding AB2 using Anone \<open>P b\<close> by (simp add: B)
  ultimately show ?thesis using True assms(2) by (simp add: Let_def)
next
  case False
  then have "\<forall>x\<in>set us. \<not> P x" using mono by (auto simp: sorted_wrt_append)
  then have "dropWhile (\<lambda>x. \<not> P x) (us @ st # vs) = dropWhile (\<lambda>x. \<not> P x) (st # vs)"
    by simp
  moreover have "hd0 (dropWhile (\<lambda>x. \<not> P x) vs) \<noteq> st"
    using hd0_in [of "dropWhile (\<lambda>x. \<not> P x) vs"] assms(2,3) set_dropWhileD by fastforce
  ultimately show ?thesis using False by (auto simp: Let_def)
qed

lemma ends_at_or_above_less:
  assumes "top_list s xs" "x \<in> set xs"
  shows "ends_at_or_above s a x \<longleftrightarrow> a < en s x"
proof -
  have "0 < en s x" "en s x < 2 ^ 64" using assms by (auto simp: top_list_def)
  then have "(en s x + (2 ^ 64 - 1)) mod 2 ^ 64 = en s x - 1"
    using mod_add_self2 [of "en s x - 1" "2 ^ 64"] by (simp add: add.commute)
  then show ?thesis using \<open>0 < en s x\<close> by (auto simp: ends_at_or_above_def)
qed

lemma dropWhile_cong_set:
  "(\<And>x. x \<in> set xs \<Longrightarrow> P x = Q x) \<Longrightarrow> dropWhile P xs = dropWhile Q xs"
  by (rule dropWhile_cong) auto

lemma lowest_ge_list:
  assumes "top_list s xs"
  shows "find_toplevel_lowest_ge a s = Inr (hd0 (dropWhile (\<lambda>x. en s x \<le> a) xs))"
proof -
  let ?st = "nommap_bigalloc s" and ?P = "ends_at_or_above s a"
  obtain us vs where xs: "xs = us @ ?st # vs"
    using assms by (auto simp: top_list_def dest: split_list)
  note w = assms [unfolded xs]
  have less: "?P x \<longleftrightarrow> a < en s x" if "x \<in> set xs" for x
    by (rule ends_at_or_above_less [OF assms that])
  have "sorted_wrt (\<lambda>x y. en s x \<le> bgn s y) xs" "\<forall>x\<in>set xs. bgn s x < en s x"
    using assms by (auto simp: top_list_def)
  then have "sorted_wrt (\<lambda>x y. ?P x \<longrightarrow> ?P y) xs"
    using less by (elim sorted_wrt_mono_rel [rotated]) fastforce
  moreover have "0 \<notin> set xs" "distinct xs" using assms by (auto simp: top_list_def)
  ultimately have "(let cur = hd0 (dropWhile (\<lambda>x. \<not> ?P x) (?st # vs)) in
          if cur \<noteq> 0 \<and> cur \<noteq> ?st then cur else if cur = 0 then 0
          else last0 0 (takeWhile ?P (?st # rev us)))
      = hd0 (dropWhile (\<lambda>x. \<not> ?P x) xs)"
    using search_up [of ?P us ?st vs] by (simp only: xs simp_thms)
  then have "find_toplevel_lowest_ge a s = Inr (hd0 (dropWhile (\<lambda>x. \<not> ?P x) xs))"
    unfolding find_toplevel_lowest_ge_def top_search [OF w]
    by (auto simp only: rbind.simps prod.case Let_def not_not split: if_splits)
  also have "dropWhile (\<lambda>x. \<not> ?P x) xs = dropWhile (\<lambda>x. en s x \<le> a) xs"
    by (rule dropWhile_cong_set) (simp add: less not_less)
  finally show ?thesis .
qed

lemma highest_lt_list:
  assumes "top_list s xs"
  shows "find_toplevel_highest_lt a s = Inr (hd0 (dropWhile (\<lambda>x. a \<le> bgn s x) (rev xs)))"
proof -
  let ?st = "nommap_bigalloc s" and ?P = "begins_below s a"
  obtain us vs where xs: "xs = us @ ?st # vs"
    using assms by (auto simp: top_list_def dest: split_list)
  note w = assms [unfolded xs]
  have "sorted_wrt (\<lambda>x y. en s x \<le> bgn s y) xs" "\<forall>x\<in>set xs. bgn s x < en s x"
    using assms by (auto simp: top_list_def)
  then have "sorted_wrt (\<lambda>x y. ?P y \<longrightarrow> ?P x) xs"
    by (elim sorted_wrt_mono_rel [rotated]) (fastforce simp: begins_below_def)
  then have "sorted_wrt (\<lambda>x y. ?P x \<longrightarrow> ?P y) (rev vs @ ?st # rev us)"
    using sorted_wrt_rev [of "\<lambda>x y. ?P x \<longrightarrow> ?P y" xs] by (simp add: xs)
  moreover have "0 \<notin> set (rev vs @ ?st # rev us)" "distinct (rev vs @ ?st # rev us)"
    using assms xs by (auto simp: top_list_def)
  ultimately have "(let cur = hd0 (dropWhile (\<lambda>x. \<not> ?P x) (?st # rev us)) in
          if cur \<noteq> 0 \<and> cur \<noteq> ?st then cur else if cur = 0 then 0
          else last0 0 (takeWhile ?P (?st # vs)))
      = hd0 (dropWhile (\<lambda>x. \<not> ?P x) (rev xs))"
    using search_up [of ?P "rev vs" ?st "rev us"] by (simp only: xs rev_append rev.simps rev_rev_ident
        append_Nil append_assoc append_Cons simp_thms)
  then have "find_toplevel_highest_lt a s = Inr (hd0 (dropWhile (\<lambda>x. \<not> ?P x) (rev xs)))"
    unfolding find_toplevel_highest_lt_def top_search [OF w]
    by (auto simp only: rbind.simps prod.case Let_def not_not split: if_splits)
  then show ?thesis by (simp add: begins_below_def not_less)
qed

lemma links_top:
  assumes "links_ok s ch"
  shows "sorted_wrt (\<lambda>x y. en s x \<le> bgn s y) (ch 0)" "nommap_bigalloc s \<in> set (ch 0)"
  using assms [unfolded links_ok_def, THEN conjunct2, THEN conjunct2] by simp_all

lemma top_list_links:
  assumes "tree_ok s" "links_ok s ch"
  shows "top_list s (ch 0)"
proof -
  have "\<forall>x\<in>set (ch 0). 0 < x \<and> x < NBIGALLOCS \<and> bgn s x < en s x \<and> en s x < 2 ^ 64"
    using used_bounds [OF assms(1)] links_child(3) [OF assms(2), of 0] by blast
  then show ?thesis
    using links_child(1,2) [OF assms(2), of 0] links_top [OF assms(2)] by (simp add: top_list_def)
qed

lemma hd0_dropWhile_sorted:
  assumes "sorted_wrt R xs" "0 \<notin> set xs"
  shows "let r = hd0 (dropWhile (\<lambda>x. \<not> P x) xs) in
    if r = 0 then \<forall>x\<in>set xs. \<not> P x
    else r \<in> set xs \<and> P r \<and> (\<forall>x\<in>set xs. P x \<longrightarrow> x = r \<or> R r x)"
proof (cases "dropWhile (\<lambda>x. \<not> P x) xs")
  case Nil
  then have "\<forall>x\<in>set xs. \<not> P x" by (simp add: dropWhile_eq_Nil_conv)
  then show ?thesis unfolding Let_def Nil by simp
next
  case (Cons r rs)
  define ts where "ts = takeWhile (\<lambda>x. \<not> P x) xs"
  have xs: "xs = ts @ r # rs"
    using takeWhile_dropWhile_id [of "\<lambda>x. \<not> P x" xs, symmetric] unfolding Cons ts_def .
  have ts: "\<forall>x\<in>set ts. \<not> P x" using set_takeWhileD by (fastforce simp: ts_def)
  have "P r" using Cons hd_dropWhile [of "\<lambda>x. \<not> P x" xs] by simp
  moreover have "r \<noteq> 0" "r \<in> set xs" using assms(2) by (auto simp: xs)
  moreover have "x = r \<or> R r x" if "x \<in> set xs" "P x" for x
    using assms(1) that ts by (auto simp: xs sorted_wrt_append)
  ultimately show ?thesis unfolding Let_def Cons by simp
qed

text \<open>
  \<open>find_toplevel_lowest_ge\<close> returns the lowest top-level allocation
  that ends above the address, and null exactly when there is none, whichever
  allocation of the list its walk starts from.
\<close>

lemma lowest_ge_correct:
  assumes "pi_inv s"
  shows "\<exists>r. find_toplevel_lowest_ge a s = Inr r \<and>
    (if r = 0 then \<forall>i. used s i \<and> par s i = 0 \<longrightarrow> en s i \<le> a
     else used s r \<and> par s r = 0 \<and> a < en s r \<and>
       (\<forall>i. used s i \<and> par s i = 0 \<and> a < en s i \<longrightarrow> bgn s r \<le> bgn s i))"
proof -
  obtain ch where w: "tree_ok s" "links_ok s ch" using pi_invE [OF assms] by blast
  have top: "top_list s (ch 0)" by (rule top_list_links [OF w])
  then have "sorted_wrt (\<lambda>x y. en s x \<le> bgn s y) (ch 0)" "0 \<notin> set (ch 0)"
    by (auto simp: top_list_def)
  note r = hd0_dropWhile_sorted [OF this, of "\<lambda>x. a < en s x", unfolded not_less Let_def]
  let ?r = "hd0 (dropWhile (\<lambda>x. en s x \<le> a) (ch 0))"
  have mem: "used s i \<and> par s i = 0 \<longleftrightarrow> i \<in> set (ch 0)" for i
    using links_child(3) [OF w(2), of 0] by simp
  have key: "bgn s x \<le> bgn s y" if "en s x \<le> bgn s y" "x \<in> set (ch 0)" for x y
    using used_bounds(3) [OF w(1), of x] mem [of x] that by simp
  show ?thesis
  proof (intro exI [of _ ?r] conjI)
    show "find_toplevel_lowest_ge a s = Inr ?r" by (rule lowest_ge_list [OF top])
    show "if ?r = 0 then \<forall>i. used s i \<and> par s i = 0 \<longrightarrow> en s i \<le> a
      else used s ?r \<and> par s ?r = 0 \<and> a < en s ?r \<and>
        (\<forall>i. used s i \<and> par s i = 0 \<and> a < en s i \<longrightarrow> bgn s ?r \<le> bgn s i)"
    proof (cases "?r = 0")
      case True
      show ?thesis
        using r mem unfolding if_P [OF True] set_rev by (blast intro: leI)
    next
      case False
      then have "?r \<in> set (ch 0)" "a < en s ?r"
        "\<And>x. x \<in> set (ch 0) \<Longrightarrow> a < en s x \<Longrightarrow> bgn s ?r \<le> bgn s x"
        using r key unfolding if_not_P [OF False] set_rev by (blast intro: order_refl)+
      then show ?thesis using mem unfolding if_not_P [OF False] by blast
    qed
  qed
qed

text \<open>
  \<open>find_toplevel_highest_lt\<close> returns the highest top-level allocation
  that begins below the address, and null exactly when there is none.
\<close>

lemma highest_lt_correct:
  assumes "pi_inv s"
  shows "\<exists>r. find_toplevel_highest_lt a s = Inr r \<and>
    (if r = 0 then \<forall>i. used s i \<and> par s i = 0 \<longrightarrow> a \<le> bgn s i
     else used s r \<and> par s r = 0 \<and> bgn s r < a \<and>
       (\<forall>i. used s i \<and> par s i = 0 \<and> bgn s i < a \<longrightarrow> bgn s i \<le> bgn s r))"
proof -
  obtain ch where w: "tree_ok s" "links_ok s ch" using pi_invE [OF assms] by blast
  have top: "top_list s (ch 0)" by (rule top_list_links [OF w])
  then have "sorted_wrt (\<lambda>x y. en s y \<le> bgn s x) (rev (ch 0))" "0 \<notin> set (rev (ch 0))"
    by (auto simp: top_list_def sorted_wrt_rev)
  note r = hd0_dropWhile_sorted [OF this, of "\<lambda>x. bgn s x < a", unfolded not_less Let_def]
  let ?r = "hd0 (dropWhile (\<lambda>x. a \<le> bgn s x) (rev (ch 0)))"
  have mem: "used s i \<and> par s i = 0 \<longleftrightarrow> i \<in> set (ch 0)" for i
    using links_child(3) [OF w(2), of 0] by simp
  have key: "bgn s x \<le> bgn s y" if "en s x \<le> bgn s y" "x \<in> set (ch 0)" for x y
    using used_bounds(3) [OF w(1), of x] mem [of x] that by simp
  show ?thesis
  proof (intro exI [of _ ?r] conjI)
    show "find_toplevel_highest_lt a s = Inr ?r" by (rule highest_lt_list [OF top])
    show "if ?r = 0 then \<forall>i. used s i \<and> par s i = 0 \<longrightarrow> a \<le> bgn s i
      else used s ?r \<and> par s ?r = 0 \<and> bgn s ?r < a \<and>
        (\<forall>i. used s i \<and> par s i = 0 \<and> bgn s i < a \<longrightarrow> bgn s i \<le> bgn s ?r)"
    proof (cases "?r = 0")
      case True
      show ?thesis
        using r mem unfolding if_P [OF True] set_rev by (blast intro: leI)
    next
      case False
      then have "?r \<in> set (ch 0)" "bgn s ?r < a"
        "\<And>x. x \<in> set (ch 0) \<Longrightarrow> bgn s x < a \<Longrightarrow> bgn s x \<le> bgn s ?r"
        using r key unfolding if_not_P [OF False] set_rev by (blast intro: order_refl)+
      then show ?thesis using mem unfolding if_not_P [OF False] by blast
    qed
  qed
qed

end
