(* ===== verification/Pageindex_New.thy ===== *)
theory Pageindex_New
  imports Pageindex_Links
begin

text \<open>
  Creation of a big allocation: the new slot joins the forest below its parent
  (or the top-level list in address order), takes over the pages it spans, and
  leaves every other slot and page as it was.
\<close>

section \<open>Joining the forest\<close>

text \<open>When \<open>[lo, hi)\<close> may become a big allocation in slot \<open>b\<close> under \<open>p\<close>.\<close>

definition room :: "'a pi_state_scheme \<Rightarrow> nat \<Rightarrow> nat \<Rightarrow> addr \<Rightarrow> addr \<Rightarrow> bool" where
  "room s b p lo hi \<longleftrightarrow>
     \<not> used s b \<and> 0 < b \<and> b < NBIGALLOCS \<and> 0 < lo \<and> lo < hi \<and> hi < 2 ^ 64 \<and>
     hi - lo \<le> biggest_sane s \<and>
     (p \<noteq> 0 \<longrightarrow> used s p \<and> bgn s p \<le> lo \<and> hi \<le> en s p) \<and>
     (p = 0 \<longrightarrow> 4096 dvd lo \<and> 4096 dvd hi) \<and>
     (\<forall>c. used s c \<and> par s c = p \<longrightarrow> en s c \<le> lo \<or> hi \<le> bgn s c)"

text \<open>\<open>s'\<close> is \<open>s\<close> with the slot \<open>b\<close> in place.\<close>

definition placed :: "'a pi_state_scheme \<Rightarrow> nat \<Rightarrow> nat \<Rightarrow> addr \<Rightarrow> addr \<Rightarrow> 'a pi_state_scheme \<Rightarrow> bool" where
  "placed s b p lo hi s' \<longleftrightarrow>
     (\<forall>i. bgn s' i = (if i = b then lo else bgn s i)) \<and>
     (\<forall>i. en s' i = (if i = b then hi else en s i)) \<and>
     (\<forall>i. par s' i = (if i = b then p else par s i)) \<and>
     biggest_sane s' = biggest_sane s \<and> nommap_bigalloc s' = nommap_bigalloc s"

lemma placed_used:
  assumes "placed s b p lo hi s'" "room s b p lo hi"
  shows "used s' i \<longleftrightarrow> i = b \<or> used s i"
  using assms by (auto simp: placed_def room_def BIGALLOC_IN_USE_def)

lemma room_no_children:
  assumes "tree_ok s" "room s b p lo hi" "used s c"
  shows "par s c \<noteq> b" "c \<noteq> b" "p \<noteq> b"
  using assms used_parent(1) [OF assms(1,3)] by (auto simp: room_def)

lemma tree_insert:
  assumes t: "tree_ok s" and r: "room s b p lo hi" and pl: "placed s b p lo hi s'"
  shows "tree_ok s'"
proof -
  note u = placed_used [OF pl r]
  have f: "bgn s' i = (if i = b then lo else bgn s i)" "en s' i = (if i = b then hi else en s i)"
    "par s' i = (if i = b then p else par s i)" "biggest_sane s' = biggest_sane s" for i
    using pl by (auto simp: placed_def)
  have pb: "p \<noteq> b" using r by (auto simp: room_def)
  obtain d :: "nat \<Rightarrow> nat" where d: "\<And>i. used s i \<Longrightarrow> par s i \<noteq> 0 \<Longrightarrow> d (par s i) < d i"
    using tree_rank [OF t] by blast
  show ?thesis
  proof (rule tree_okI [where d = "d(b := Suc (d p))"])
    fix i assume ui: "used s' i"
    show "slot_ok s' i"
    proof (cases "i = b")
      case True
      then show ?thesis using r pb by (auto simp: slot_ok_def f u room_def)
    next
      case False
      then have i: "used s i" using ui u by simp
      then have "par s i \<noteq> b" using room_no_children [OF t r] by blast
      then show ?thesis using tree_slot [OF t i] False by (simp add: slot_ok_def f u)
    qed
    show "(d(b := Suc (d p))) (par s' i) < (d(b := Suc (d p))) i" if "par s' i \<noteq> 0"
      using that ui d [of i] room_no_children(1) [OF t r, of i] pb by (auto simp: u f)
  next
    fix i assume "\<not> used s' i"
    then show "par s' i = 0" using tree_unused [OF t] by (simp add: u f)
  next
    fix i j assume "used s' i" "used s' j" "par s' i = par s' j" "i \<noteq> j"
    moreover have "en s c \<le> lo \<or> hi \<le> bgn s c" if "used s c" "par s c = p" for c
      using r that by (auto simp: room_def)
    ultimately show "en s' i \<le> bgn s' j \<or> en s' j \<le> bgn s' i"
      using tree_siblings [OF t, of i j] by (auto simp: u f split: if_splits)
  qed
qed

lemma fill_page_iff:
  assumes "lo \<le> hi"
  shows "page_up lo \<le> pg \<and> pg < page_up lo + (page_down hi - page_up lo) \<longleftrightarrow>
    lo \<le> pg * 4096 \<and> (pg + 1) * 4096 \<le> hi"
  using page_up_le [of lo pg] less_page_down [of pg hi] by auto

lemma index_insert:
  assumes t: "tree_ok s" and r: "room s b p lo hi" and pl: "placed s b p lo hi s'"
    and i: "index_ok s"
    and pi: "pageindex s' = fill (page_up lo) b (page_down hi - page_up lo) (pageindex s)"
  shows "index_ok s'"
proof -
  note u = placed_used [OF pl r]
  have f: "bgn s' i = (if i = b then lo else bgn s i)" "en s' i = (if i = b then hi else en s i)"
    "par s' i = (if i = b then p else par s i)" for i
    using pl by (auto simp: placed_def)
  have lohi: "lo \<le> hi" "b \<noteq> 0" "\<not> used s b" "p \<noteq> b" using r by (auto simp: room_def)
  have old: "spans s' c pg = spans s c pg" if "c \<noteq> b" for c pg
    using that by (simp add: spans_def u f)
  have new: "spans s' b pg \<longleftrightarrow> lo \<le> pg * 4096 \<and> (pg + 1) * 4096 \<le> hi" for pg
    by (simp add: spans_def u f)
  have ent: "pageindex s' pg = (if spans s' b pg then b else pageindex s pg)" for pg
    using fill_page_iff [OF lohi(1), of pg] by (simp add: pi fill_def new)
  show ?thesis
    unfolding index_ok_def
  proof (intro allI conjI impI)
    fix pg assume nz: "pageindex s' pg \<noteq> 0"
    show "spans s' (pageindex s' pg) pg"
    proof (cases "spans s' b pg")
      case False
      then have "spans s (pageindex s pg) pg" using nz i ent by (simp add: index_ok_def)
      then show ?thesis using False ent old [of "pageindex s pg"] lohi(3) by (auto simp: spans_def)
    qed (simp add: ent)
  next
    fix pg c assume c: "used s' c \<and> par s' c = pageindex s' pg"
    show "\<not> spans s' c pg"
    proof (cases "spans s' b pg")
      case True
      then have "par s' c = b" using c ent by simp
      then show ?thesis using c room_no_children(1) [OF t r, of c] lohi(4) by (auto simp: u f split: if_splits)
    next
      case False
      then show ?thesis
        using c i old ent by (cases "c = b") (auto simp: index_ok_def u f)
    qed
  qed
qed

section \<open>Joining the lists\<close>

lemma links_list_used:
  assumes "links_ok s ch" "q = 0 \<or> used s q" "x \<in> set (ch q)"
  shows "used s x" "par s x = q"
  using links_child(3) [OF assms(1,2)] assms(3) by blast+

lemma links_disjoint:
  assumes "links_ok s ch" "q = 0 \<or> used s q" "p = 0 \<or> used s p" "p \<noteq> q" "x \<in> set (ch q)"
  shows "x \<notin> set (ch p)"
  using links_list_used [OF assms(1,2,5)] links_list_used [OF assms(1,3)] assms(4) by blast

text \<open>The other lists are untouched by a change of the links in one of them.\<close>

lemma links_frame:
  assumes l: "links_ok s ch" and q: "q = 0 \<or> used s q" and p: "p = 0 \<or> used s p" "p \<noteq> q"
    and b: "b \<notin> set (ch q)"
    and same: "\<And>x. x \<noteq> b \<Longrightarrow> x \<notin> set (ch p) \<Longrightarrow> nxt s' x = nxt s x \<and> prv s' x = prv s x"
  shows "dll (nxt s') (prv s') 0 (ch q)"
proof -
  have "nxt s' x = nxt s x \<and> prv s' x = prv s x" if "x \<in> set (ch q)" for x
    using links_disjoint [OF l q p that] b that same [of x] by auto
  then have "dll (nxt s') (prv s') 0 (ch q) = dll (nxt s) (prv s) 0 (ch q)"
    by (intro dll_cong) auto
  then show ?thesis using links_child(1) [OF l q] by simp
qed

lemma links_insert_child:
  assumes t: "tree_ok s" and l: "links_ok s ch" and r: "room s b p lo hi"
    and pl: "placed s b p lo hi s'" and p: "p \<noteq> 0"
    and fc: "\<And>i. fch s' i = (if i = p then b else if i = b then 0 else fch s i)"
    and nx: "\<And>i. nxt s' i = (if i = b then fch s p else nxt s i)"
    and pv: "\<And>i. prv s' i = (if i = fch s p \<and> i \<noteq> 0 then b else if i = b then 0 else prv s i)"
  shows "links_ok s' (ch(p := b # ch p, b := []))"
proof (rule links_okI)
  note u = placed_used [OF pl r]
  have up: "used s p" and bf: "\<not> used s b" "b \<noteq> 0" and pb: "p \<noteq> b"
    using r p by (auto simp: room_def)
  have fp: "fch s p = hd0 (ch p)" by (rule links_fch [OF l up])
  have f: "bgn s' i = (if i = b then lo else bgn s i)" "en s' i = (if i = b then hi else en s i)"
    "par s' i = (if i = b then p else par s i)" for i
    using pl by (auto simp: placed_def)
  have notb: "b \<notin> set (ch q)" if "q = 0 \<or> used s q" for q
    using links_list_used(1) [OF l that] bf by blast
  fix q assume q': "q = 0 \<or> used s' q"
  show "dll (nxt s') (prv s') 0 ((ch(p := b # ch p, b := [])) q)"
  proof (cases "q = p \<or> q = b")
    case False
    then have q: "q = 0 \<or> used s q" using q' u by auto
    have "dll (nxt s') (prv s') 0 (ch q)"
      by (rule links_frame [OF l q _ _ notb [OF q], where p = p])
        (use up False hd0_in [of "ch p"] in \<open>auto simp: nx pv fp\<close>)
    then show ?thesis using False by simp
  next
    case True
    have d: "seg (nxt s) (prv s) 0 0 (ch p)" "distinct (ch p)"
      using links_child [OF l, of p] up by (simp_all add: dll_seg)
    have "seg (nxt s') (prv s') b 0 (ch p)"
    proof (cases "ch p")
      case (Cons x xs)
      have "x \<noteq> 0" "x \<noteq> b" "b \<notin> set xs"
        using Cons links_list_used(1) [OF l, of p x] up used_bounds(1) [OF t, of x] notb [of p] by auto
      then have "seg (nxt s') (prv s') b 0 (x # xs) = seg (nxt s) ((prv s)(x := b)) b 0 (x # xs)"
        by (intro seg_cong) (auto simp: nx pv fp Cons)
      then show ?thesis using seg_set_start [of "nxt s" "prv s" 0 0 x xs b] d Cons by simp
    qed simp
    then have "dll (nxt s') (prv s') 0 (b # ch p)"
      using bf notb [of p] up hd0_in [of "ch p"] by (auto simp: dll_seg hd_or_0 nx pv fp)
    then show ?thesis using True pb by auto
  qed
  show "distinct ((ch(p := b # ch p, b := [])) q)"
    using links_child(2) [OF l, of q] links_child(2) [OF l, of p] notb [of p] up q' u by auto
  show "set ((ch(p := b # ch p, b := [])) q) = {c. used s' c \<and> par s' c = q}"
  proof -
    have "{c. used s' c \<and> par s' c = q} =
        (if q = p then insert b {c. used s c \<and> par s c = p}
         else if q = b then {} else {c. used s c \<and> par s c = q})"
      using bf pb room_no_children(1) [OF t r] by (auto simp: u f)
    then show ?thesis
      using links_child(3) [OF l, of q] links_child(3) [OF l, of p] up q' u pb by auto
  qed
next
  note u = placed_used [OF pl r]
  have pb: "p \<noteq> b" using r p by (auto simp: room_def)
  fix q assume "used s' q"
  then show "fch s' q = hd0 ((ch(p := b # ch p, b := [])) q)"
    using links_fch [OF l, of q] pb by (auto simp: fc u)
next
  have pb: "b \<noteq> 0" "\<not> used s b" using r by (auto simp: room_def)
  have "sorted_wrt (\<lambda>x y. en s' x \<le> bgn s' y) (ch 0)"
    by (rule sorted_wrt_mono_rel [OF _ links_top(1) [OF l]])
      (use pl links_list_used(1) [OF l, of 0] pb in \<open>auto simp: placed_def\<close>)
  then show "sorted_wrt (\<lambda>x y. en s' x \<le> bgn s' y) ((ch(p := b # ch p, b := [])) 0)"
    using p pb by simp
  show "nommap_bigalloc s' \<in> set ((ch(p := b # ch p, b := [])) 0)"
    using links_top(2) [OF l] p pb pl by (simp add: placed_def)
qed

text \<open>A range disjoint from the top-level allocations has a place between two of them.\<close>

lemma top_split:
  assumes "tree_ok s" "links_ok s ch" "room s b 0 lo hi"
  obtains A B where "ch 0 = A @ B" "\<forall>x\<in>set A. en s x \<le> lo" "\<forall>x\<in>set B. hi \<le> bgn s x"
proof
  let ?P = "\<lambda>x. en s x \<le> lo"
  have srt: "sorted_wrt (\<lambda>x y. en s x \<le> bgn s y) (ch 0)" by (rule links_top(1) [OF assms(2)])
  have sep: "en s c \<le> lo \<or> hi \<le> bgn s c" "bgn s c < en s c" if "c \<in> set (ch 0)" for c
    using links_list_used [OF assms(2) _ that] assms(3) used_bounds(3) [OF assms(1), of c]
    by (auto simp: room_def)
  show "ch 0 = takeWhile ?P (ch 0) @ dropWhile ?P (ch 0)" by simp
  show "\<forall>x\<in>set (takeWhile ?P (ch 0)). en s x \<le> lo" using set_takeWhileD by fastforce
  show "\<forall>x\<in>set (dropWhile ?P (ch 0)). hi \<le> bgn s x"
  proof (cases "dropWhile ?P (ch 0)")
    case (Cons y ys)
    have "\<not> en s y \<le> lo" using hd_dropWhile [of ?P "ch 0"] Cons by simp
    moreover have sub: "set (y # ys) \<subseteq> set (ch 0)" using set_dropWhileD [of _ ?P "ch 0"] Cons by auto
    ultimately have y: "hi \<le> bgn s y" "bgn s y < en s y" using sep [of y] by auto
    have "sorted_wrt (\<lambda>x y. en s x \<le> bgn s y) (y # ys)"
      using srt unfolding Cons [symmetric] by (rule sorted_wrt_dropWhile)
    then show ?thesis using y unfolding Cons by auto
  next
    case Nil
    show ?thesis unfolding Nil by simp
  qed
qed

lemma links_insert_top:
  assumes t: "tree_ok s" and l: "links_ok s ch" and r: "room s b 0 lo hi"
    and pl: "placed s b 0 lo hi s'" and AB: "ch 0 = A @ B"
    and A: "\<forall>x\<in>set A. en s x \<le> lo" and B: "\<forall>x\<in>set B. hi \<le> bgn s x"
    and fc: "\<And>i. fch s' i = (if i = b then 0 else fch s i)"
    and nx: "\<And>i. nxt s' i = (if i = b then hd0 B else if A \<noteq> [] \<and> i = last0 0 A then b else nxt s i)"
    and pv: "\<And>i. prv s' i = (if i = b then last0 0 A else if B \<noteq> [] \<and> i = hd0 B then b else prv s i)"
  shows "links_ok s' (ch(0 := A @ b # B, b := []))"
proof (rule links_okI)
  note u = placed_used [OF pl r]
  have bf: "\<not> used s b" "b \<noteq> 0" using r by (auto simp: room_def)
  have f: "par s' i = (if i = b then 0 else par s i)" for i using pl by (auto simp: placed_def)
  have notb: "b \<notin> set (ch q)" if "q = 0 \<or> used s q" for q
    using links_list_used(1) [OF l that] bf by blast
  have b0: "b \<notin> set A" "b \<notin> set B" using notb [of 0] by (auto simp: AB)
  have dst: "distinct A" "distinct B" "set A \<inter> set B = {}"
    using links_child(2) [OF l, of 0] by (auto simp: AB)
  fix q assume q': "q = 0 \<or> used s' q"
  show "dll (nxt s') (prv s') 0 ((ch(0 := A @ b # B, b := [])) q)"
  proof (cases "q = 0 \<or> q = b")
    case False
    then have q: "used s q" using q' u by auto
    have "dll (nxt s') (prv s') 0 (ch q)"
      by (rule links_frame [OF l disjI2 [OF q] disjI1 [OF refl] _ notb [OF disjI2 [OF q]]])
        (use False hd0_mem [of B] last0_in [of A 0] in \<open>auto simp: nx pv AB\<close>)
    then show ?thesis using False by simp
  next
    case True
    have d: "seg (nxt s) (prv s) 0 (hd_or 0 B) A" "seg (nxt s) (prv s) (last0 0 A) 0 B"
      using links_child(1) [OF l, of 0] by (simp_all add: dll_seg AB seg_append)
    have "seg (nxt s') (prv s') 0 b A"
    proof (cases "A = []")
      case False
      have "hd0 B \<notin> set A \<or> B = []" using dst(3) by (cases B) auto
      then have "seg (nxt s') (prv s') 0 b A = seg ((nxt s)(last0 0 A := b)) (prv s) 0 b A"
        by (intro seg_cong) (use b0 False in \<open>auto simp: nx pv\<close>)
      then show ?thesis using seg_set_end [OF d(1) dst(1) False] by simp
    qed simp
    moreover have "seg (nxt s') (prv s') b 0 B"
    proof (cases B)
      case (Cons x xs)
      have "last0 0 A \<notin> set B \<or> A = []" using dst(3) last0_in [of A 0] by blast
      then have "seg (nxt s') (prv s') b 0 B = seg (nxt s) ((prv s)(x := b)) b 0 B"
        by (intro seg_cong) (use b0 Cons in \<open>auto simp: nx pv\<close>)
      then show ?thesis using seg_set_start [of "nxt s" "prv s" _ 0 x xs b] d(2) dst(2) Cons by auto
    qed simp
    ultimately have "dll (nxt s') (prv s') 0 (A @ b # B)"
      by (simp add: dll_seg seg_append nx pv hd_or_0)
    then show ?thesis using True bf by auto
  qed
  show "distinct ((ch(0 := A @ b # B, b := [])) q)"
    using links_child(2) [OF l, of q] dst b0 q' u by auto
  have "{c. used s' c \<and> par s' c = q} = (if q = 0 then insert b {c. used s c \<and> par s c = 0}
         else if q = b then {} else {c. used s c \<and> par s c = q})"
    using bf room_no_children(1) [OF t r] by (auto simp: u f)
  moreover have "set (A @ b # B) = insert b (set (ch 0))" by (auto simp: AB)
  ultimately show "set ((ch(0 := A @ b # B, b := [])) q) = {c. used s' c \<and> par s' c = q}"
    using links_child(3) [OF l, of q] links_child(3) [OF l, of 0] q' u bf by auto
next
  fix q assume "used s' q"
  then show "fch s' q = hd0 ((ch(0 := A @ b # B, b := [])) q)"
    using links_fch [OF l, of q] placed_used [OF pl r] used_bounds(1) [OF t, of q] r
    by (auto simp: fc room_def)
next
  have bf: "b \<noteq> 0" "lo < hi" "b \<notin> set (A @ B)"
    using r links_list_used(1) [OF l, of 0 b] by (auto simp: room_def AB)
  have "sorted_wrt (\<lambda>x y. en s x \<le> bgn s y) (A @ B)" using links_top(1) [OF l] by (simp add: AB)
  then have "sorted_wrt (\<lambda>x y. en s' x \<le> bgn s' y) (A @ B)"
    by (rule sorted_wrt_mono_rel [rotated]) (use pl bf in \<open>auto simp: placed_def\<close>)
  then have "sorted_wrt (\<lambda>x y. en s' x \<le> bgn s' y) (A @ b # B)"
    using A B pl bf by (auto simp: sorted_wrt_append placed_def)
  then show "sorted_wrt (\<lambda>x y. en s' x \<le> bgn s' y) ((ch(0 := A @ b # B, b := [])) 0)"
    using bf by simp
  show "nommap_bigalloc s' \<in> set ((ch(0 := A @ b # B, b := [])) 0)"
    using links_top(2) [OF l] bf pl by (auto simp: placed_def AB)
qed

section \<open>The creating operations\<close>

text \<open>The fields of a slot that are not bounds or links.\<close>

definition payload :: "big_allocation \<Rightarrow>
    allocator option \<times> allocator option \<times> nat \<times> nat \<times> nat \<times> nat" where
  "payload r = (allocated_by r, suballocator r, allocator_private r, allocator_private_free r,
     suballocator_private r, suballocator_private_free r)"

text \<open>Nothing but the slots' links and the slot \<open>b\<close> differs between the states.\<close>

definition same_but :: "nat \<Rightarrow> 'a pi_state_scheme \<Rightarrow> 'a pi_state_scheme \<Rightarrow> bool" where
  "same_but b s s' \<longleftrightarrow>
     (\<forall>i. i \<noteq> b \<longrightarrow> payload (big_allocations s' i) = payload (big_allocations s i)) \<and>
     freed s' = freed s \<and> systrap_is_initialized s' = systrap_is_initialized s \<and>
     pi_state.more s' = pi_state.more s"

lemma upd_more [simp]: "pi_state.more (upd i f s) = pi_state.more s"
  by (simp add: upd_def)

lemma find_free_from_ok:
  assumes "\<not> used s k" "p \<le> k" "k < p + n"
  shows "\<exists>b. find_free_from n s p = Inr b \<and> \<not> used s b \<and> p \<le> b \<and> b < p + n"
  using assms
proof (induction n arbitrary: p)
  case (Suc n)
  show ?case
  proof (cases "used s p")
    case True
    then have "p \<noteq> k" using Suc.prems(1) by auto
    then show ?thesis using Suc.IH [of "p + 1"] Suc.prems True by auto
  qed auto
qed simp

lemma find_free_ok:
  assumes "\<not> used s k" "0 < k" "k < NBIGALLOCS"
  shows "\<exists>b. find_free_bigalloc s = Inr b \<and> \<not> used s b \<and> 0 < b \<and> b < NBIGALLOCS"
  using find_free_from_ok [OF assms(1), of 1 "NBIGALLOCS - 1"] assms
  by (auto simp: find_free_bigalloc_def)

lemma init_child_ok:
  assumes t: "tree_ok s" and l: "links_ok s ch" and r: "room s b p ptr (ptr + sz)" and p: "p \<noteq> 0"
  shows "\<exists>s'. bigalloc_init_nomemset b ptr sz p priv pf al sub sp sf s = Inr s' \<and>
    placed s b p ptr (ptr + sz) s' \<and> pageindex s' = pageindex s \<and> same_but b s s' \<and>
    payload (big_allocations s' b) = (al, sub, priv, pf, sp, sf) \<and>
    links_ok s' (ch(p := b # ch p, b := []))"
proof -
  let ?c = "fch s p"
  have up: "used s p" "p \<noteq> b" "\<not> used s b" "b \<noteq> 0" using r p by (auto simp: room_def)
  have c: "?c = hd0 (ch p)" by (rule links_fch [OF l up(1)])
  have cb: "?c \<noteq> b" using hd0_in [of "ch p"] links_list_used(1) [OF l, of p ?c] up c by auto
  define s1 where "s1 = upd b (\<lambda>r. r\<lparr>ba_begin := ptr, ba_end := ptr + sz,
                allocator_private := priv, allocator_private_free := pf,
                allocated_by := al, suballocator := sub,
                suballocator_private := sp, suballocator_private_free := sf,
                first_child := 0, next_sib := 0, prev_sib := 0\<rparr>) s"
  define s' where "s' = add_child b p s1"
  have ev: "bigalloc_init_nomemset b ptr sz p priv pf al sub sp sf s = Inr s'"
    using p by (simp add: bigalloc_init_nomemset_def s'_def s1_def)
  have pl: "placed s b p ptr (ptr + sz) s'"
    using up cb by (auto simp: placed_def s'_def s1_def add_child_def Let_def)
  have "links_ok s' (ch(p := b # ch p, b := []))"
    by (rule links_insert_child [OF t l r pl p])
      (use up cb in \<open>auto simp: s'_def s1_def add_child_def Let_def\<close>)
  moreover have "same_but b s s'" "payload (big_allocations s' b) = (al, sub, priv, pf, sp, sf)"
    "pageindex s' = pageindex s"
    using up cb by (auto simp: same_but_def payload_def s'_def s1_def add_child_def Let_def)
  ultimately show ?thesis using ev pl by blast
qed

lemma top_list_frame:
  assumes "top_list s xs" "b \<notin> set xs"
    "\<And>i. i \<noteq> b \<Longrightarrow> big_allocations s' i = big_allocations s i" "nommap_bigalloc s' = nommap_bigalloc s"
  shows "top_list s' xs"
proof -
  have same: "big_allocations s' i = big_allocations s i" if "i \<in> set xs" for i
    using assms(2,3) that by metis
  have "dll (nxt s') (prv s') 0 xs = dll (nxt s) (prv s) 0 xs"
    by (rule dll_cong) (simp_all add: same)
  moreover have "sorted_wrt (\<lambda>x y. en s' x \<le> bgn s' y) xs = sorted_wrt (\<lambda>x y. en s x \<le> bgn s y) xs"
    using sorted_wrt_mono_rel [of xs "\<lambda>x y. en s x \<le> bgn s y" "\<lambda>x y. en s' x \<le> bgn s' y"]
      sorted_wrt_mono_rel [of xs "\<lambda>x y. en s' x \<le> bgn s' y" "\<lambda>x y. en s x \<le> bgn s y"]
    by (auto simp: same)
  ultimately show ?thesis using assms(1,4) same by (simp add: top_list_def)
qed

lemma hd0_rev: "hd0 (rev xs) = last0 0 xs"
  by (cases xs rule: rev_cases) auto

text \<open>\<open>add_toplevel\<close> finds the neighbours of the new slot in the list.\<close>

lemma add_toplevel_eval:
  assumes top: "top_list s (A @ B)" and b: "b \<notin> set (A @ B)" "bgn s b < en s b"
    and A: "\<forall>x\<in>set A. en s x \<le> bgn s b" and B: "\<forall>x\<in>set B. en s b \<le> bgn s x"
  shows "add_toplevel b s =
    Inr (let s = upd b (\<lambda>r. r\<lparr>next_sib := hd0 B\<rparr>) s;
             s = upd b (\<lambda>r. r\<lparr>prev_sib := last0 0 A\<rparr>) s;
             s = (if last0 0 A \<noteq> 0 then upd (last0 0 A) (\<lambda>r. r\<lparr>next_sib := b\<rparr>) s else s)
         in if hd0 B \<noteq> 0 then upd (hd0 B) (\<lambda>r. r\<lparr>prev_sib := b\<rparr>) s else s)"
proof -
  have bounds: "0 < x \<and> bgn s x < en s x" if "x \<in> set (A @ B)" for x
    using top that by (auto simp: top_list_def)
  have "dropWhile (\<lambda>x. en s x \<le> en s b) (A @ B) = dropWhile (\<lambda>x. en s x \<le> en s b) B"
    by (rule dropWhile_append2) (use A b in force)
  also have "\<dots> = B" using B bounds by (cases B) (force)+
  finally have ge: "find_toplevel_lowest_ge (en s b) s = Inr (hd0 B)"
    using lowest_ge_list [OF top] by simp
  define s2 where "s2 = upd b (\<lambda>r. r\<lparr>next_sib := hd0 B\<rparr>) s"
  have top2: "top_list s2 (A @ B)"
    by (rule top_list_frame [OF top b(1)]) (simp_all add: s2_def)
  have pv: "(if hd0 B \<noteq> 0 then Inr (prv s2 (hd0 B)) else find_toplevel_highest_lt (bgn s2 b) s2)
      = Inr (last0 0 A)"
  proof (cases B)
    case Nil
    have "dropWhile (\<lambda>x. bgn s2 b \<le> bgn s2 x) (rev A) = rev A"
    proof (cases "rev A")
      case (Cons y ys)
      then have "y \<in> set A" by (metis list.set_intros(1) set_rev)
      then have "bgn s y < bgn s b" "y \<noteq> b" using A bounds [of y] b by fastforce+
      then show ?thesis unfolding Cons by (simp add: s2_def)
    qed simp
    then show ?thesis using highest_lt_list [OF top2] Nil by (simp add: hd0_rev)
  next
    case (Cons y ys)
    have "seg (nxt s2) (prv s2) 0 0 (A @ B)" using top2 by (simp add: top_list_def dll_seg)
    then have "prv s2 y = last0 0 A" using Cons by (simp add: seg_append)
    then show ?thesis using Cons bounds [of y] by simp
  qed
  show ?thesis
    by (simp only: add_toplevel_def ge rbind.simps Let_def s2_def [symmetric] pv)
qed

lemma init_top_ok:
  assumes t: "tree_ok s" and l: "links_ok s ch" and r: "room s b 0 ptr (ptr + sz)"
  shows "\<exists>s' A B. bigalloc_init_nomemset b ptr sz 0 priv pf al sub sp sf s = Inr s' \<and>
    placed s b 0 ptr (ptr + sz) s' \<and> pageindex s' = pageindex s \<and> same_but b s s' \<and>
    payload (big_allocations s' b) = (al, sub, priv, pf, sp, sf) \<and>
    links_ok s' (ch(0 := A @ b # B, b := []))"
proof -
  obtain A B where AB: "ch 0 = A @ B" "\<forall>x\<in>set A. en s x \<le> ptr" "\<forall>x\<in>set B. ptr + sz \<le> bgn s x"
    using top_split [OF t l r] by blast
  have bf: "\<not> used s b" "b \<noteq> 0" "ptr < ptr + sz" using r by (auto simp: room_def)
  have nb: "b \<notin> set (A @ B)" using links_list_used(1) [OF l, of 0 b] bf AB(1) by auto
  define s1 where "s1 = upd b (\<lambda>r. r\<lparr>ba_begin := ptr, ba_end := ptr + sz,
                allocator_private := priv, allocator_private_free := pf,
                allocated_by := al, suballocator := sub,
                suballocator_private := sp, suballocator_private_free := sf,
                first_child := 0, next_sib := 0, prev_sib := 0\<rparr>) s"
  have top1: "top_list s1 (A @ B)"
    by (rule top_list_frame [OF top_list_links [OF t l, unfolded AB(1)] nb]) (simp_all add: s1_def)
  define s' where "s' = (let s = upd b (\<lambda>r. r\<lparr>next_sib := hd0 B\<rparr>) s1;
             s = upd b (\<lambda>r. r\<lparr>prev_sib := last0 0 A\<rparr>) s;
             s = (if last0 0 A \<noteq> 0 then upd (last0 0 A) (\<lambda>r. r\<lparr>next_sib := b\<rparr>) s else s)
         in if hd0 B \<noteq> 0 then upd (hd0 B) (\<lambda>r. r\<lparr>prev_sib := b\<rparr>) s else s)"
  have "add_toplevel b s1 = Inr s'"
    unfolding s'_def
    by (rule add_toplevel_eval [OF top1 nb]) (use bf nb AB(2,3) in \<open>auto simp: s1_def\<close>)
  then have ev: "bigalloc_init_nomemset b ptr sz 0 priv pf al sub sp sf s = Inr s'"
    by (simp add: bigalloc_init_nomemset_def s1_def)
  have pos: "\<forall>x\<in>set (A @ B). 0 < x" using top1 by (auto simp: top_list_def)
  have nA: "last0 0 A \<noteq> b" "last0 0 A = 0 \<longleftrightarrow> A = []"
    using last0_in [of A 0] nb bf(2) pos by (cases "A = []"; force)+
  have nB: "hd0 B \<noteq> b" "hd0 B = 0 \<longleftrightarrow> B = []"
    using hd0_mem [of B] nb bf(2) pos by (cases "B = []"; force)+
  have pl: "placed s b 0 ptr (ptr + sz) s'"
    using tree_unused [OF t bf(1)] nA(1) nB(1) by (auto simp: placed_def s'_def s1_def Let_def)
  have "links_ok s' (ch(0 := A @ b # B, b := []))"
    by (rule links_insert_top [OF t l r pl AB])
      (use nA nB in \<open>auto simp: s'_def s1_def Let_def\<close>)
  moreover have "same_but b s s'" "payload (big_allocations s' b) = (al, sub, priv, pf, sp, sf)"
    "pageindex s' = pageindex s"
    using nA(1) nB(1) by (auto simp: same_but_def payload_def s'_def s1_def Let_def)
  ultimately show ?thesis using ev pl by blast
qed

lemma init_ok:
  assumes "tree_ok s" "links_ok s ch" "room s b p ptr (ptr + sz)"
  shows "\<exists>s' ch'. bigalloc_init_nomemset b ptr sz p priv pf al sub sp sf s = Inr s' \<and>
    placed s b p ptr (ptr + sz) s' \<and> pageindex s' = pageindex s \<and> same_but b s s' \<and>
    payload (big_allocations s' b) = (al, sub, priv, pf, sp, sf) \<and> links_ok s' ch'"
  using init_child_ok [OF assms] init_top_ok [OF assms(1,2)] assms(3) by (cases "p = 0") blast+

lemma page_count_le: "page_down hi - page_up lo \<le> (hi - lo) div 4096"
proof (cases "page_up lo < page_down hi")
  case True
  have "lo \<le> page_up lo * 4096" using page_up_le by blast
  moreover have "page_down hi * 4096 \<le> hi" by (simp add: page_down_div)
  ultimately have "(page_down hi - page_up lo) * 4096 \<le> hi - lo"
    by (simp add: diff_mult_distrib)
  then show ?thesis using less_eq_div_iff_mult_less_eq [of 4096 _ "hi - lo"] by simp
qed simp

lemma page_count_sane:
  assumes "hi - lo \<le> biggest_sane s"
  shows "page_down hi - page_up lo \<le> biggest_sane s div 2 ^ 12"
  using page_count_le [of hi lo] div_le_mono [OF assms, of 4096] by simp

lemma links_frame_pageindex [simp]:
  "links_ok (s\<lparr>pageindex := ix\<rparr>) ch = links_ok s ch"
  "tree_ok (s\<lparr>pageindex := ix\<rparr>) = tree_ok s"
  "placed s0 b p lo hi (s\<lparr>pageindex := ix\<rparr>) = placed s0 b p lo hi s"
  "same_but b s0 (s\<lparr>pageindex := ix\<rparr>) = same_but b s0 s"
  "BIGALLOC_IN_USE (s\<lparr>pageindex := ix\<rparr>) i = BIGALLOC_IN_USE s i"
  by (simp_all add: links_ok_def tree_ok_def slot_ok_def placed_def same_but_def BIGALLOC_IN_USE_def)

text \<open>The page index after the pages of \<open>[lo, hi)\<close> went to \<open>b\<close>.\<close>

definition pages_to :: "addr \<Rightarrow> addr \<Rightarrow> nat \<Rightarrow> (nat \<Rightarrow> nat) \<Rightarrow> (nat \<Rightarrow> nat)" where
  "pages_to lo hi b ix = (\<lambda>pg. if lo \<le> pg * 4096 \<and> (pg + 1) * 4096 \<le> hi then b else ix pg)"

lemma fill_pages:
  assumes "lo \<le> hi"
  shows "fill (page_up lo) b (page_down hi - page_up lo) ix = pages_to lo hi b ix"
  unfolding fill_def pages_to_def fill_page_iff [OF assms] ..

lemma NBIGALLOCS_16: "b < NBIGALLOCS \<Longrightarrow> b < 2 ^ 16"
  by (simp add: NBIGALLOCS_def)

lemma bigalloc_new_ok:
  assumes "pi_inv s" "find_free_bigalloc s = Inr b" "room s b p ptr (ptr + sz)"
  shows "\<exists>s'. bigalloc_new ptr sz p priv pf al s = Inr (b, s') \<and> pi_inv s' \<and>
    placed s b p ptr (ptr + sz) s' \<and> same_but b s s' \<and>
    payload (big_allocations s' b) = (al, None, priv, pf, 0, 0) \<and>
    pageindex s' = pages_to ptr (ptr + sz) b (pageindex s)"
proof -
  let ?hi = "ptr + sz"
  obtain ch where w: "tree_ok s" "links_ok s ch" "index_ok s" using pi_invE [OF assms(1)] .
  obtain s1 ch' where s1: "bigalloc_init_nomemset b ptr sz p priv pf al None 0 0 s = Inr s1"
    "placed s b p ptr ?hi s1" "pageindex s1 = pageindex s" "same_but b s s1"
    "payload (big_allocations s1 b) = (al, None, priv, pf, 0, 0)" "links_ok s1 ch'"
    using init_ok [OF w(1,2) assms(3)] by blast
  have bounds: "bgn s1 b = ptr" "en s1 b = ?hi" "biggest_sane s1 = biggest_sane s"
    using s1(2) by (auto simp: placed_def)
  have small: "b < 2 ^ 16" "ptr \<le> ?hi" "page_down ?hi - page_up ptr \<le> biggest_sane s1 div 2 ^ 12"
    using assms(3) page_count_sane [of ?hi ptr s] NBIGALLOCS_16 bounds(3) by (auto simp: room_def)
  define s' where "s' = s1\<lparr>pageindex := fill (page_up ptr) b (page_down ?hi - page_up ptr) (pageindex s1)\<rparr>"
  have "bigalloc_new ptr sz p priv pf al s = Inr (b, s')"
    using memset_bigalloc_ok [OF small(1,3), of "page_up ptr"]
    by (simp add: bigalloc_new_def assms(2) bigalloc_init_def s1(1) bounds s'_def
        page_up_def page_down_def PAGE_DIST_diff)
  moreover have "tree_ok s'" using tree_insert [OF w(1) assms(3) s1(2)] by (simp add: s'_def)
  moreover have "links_ok s' ch'" using s1(6) by (simp add: s'_def)
  moreover have "index_ok s'"
    by (rule index_insert [OF w(1) assms(3) _ w(3)]) (simp_all add: s'_def s1(2,3))
  ultimately show ?thesis
    using s1(2-5) fill_pages [OF small(2)] by (auto simp: pi_inv_def s'_def)
qed

lemma find_parent_ok:
  assumes "pi_inv s" "0 < sz" "deepest_at s ptr p" "deepest_at s (ptr + sz - 1) p"
  shows "find_parent_for hk ptr sz s = Inr (p, s)"
proof -
  obtain ch where w: "tree_ok s" using pi_invE [OF assms(1)] by blast
  have d: "find_deepest_bigalloc hk a s = Inr (p, s)" if dp: "deepest_at s a p" for a
  proof -
    have "used s p" "contains_addr s p a" using dp by (simp_all add: deepest_at_def)
    then obtain b where "find_deepest_bigalloc hk a s = Inr (b, s)" "deepest_at s a b"
      using find_deepest_ok [OF assms(1)] by blast
    then show ?thesis using deepest_unique [OF w dp] by simp
  qed
  have "p \<noteq> 0" using used_bounds(1) [OF w, of p] assms(3) by (simp add: deepest_at_def)
  then show ?thesis using d [OF assms(3)] d [OF assms(4)]
    by (simp add: find_parent_for_def Let_def)
qed

text \<open>
  C4. Creating a big allocation inside an existing one, whose parent is either
  named by the caller or is the deepest allocation at both ends of the range,
  succeeds whenever a slot is free and the range is clear of the parent's
  children.  The state stays consistent, the new slot holds the range and the
  caller's data, the pages it spans are mapped to it, and no other slot or page
  changes.
\<close>

theorem new_bigalloc_nested:
  assumes "pi_inv s" "\<not> used s k" "0 < k" "k < NBIGALLOCS" "0 < sz"
    "used s p" "bgn s p \<le> ptr" "ptr + sz \<le> en s p"
    "\<And>c. used s c \<Longrightarrow> par s c = p \<Longrightarrow> en s c \<le> ptr \<or> ptr + sz \<le> bgn s c"
    "maybe_parent = p \<or>
     maybe_parent = 0 \<and> deepest_at s ptr p \<and> deepest_at s (ptr + sz - 1) p"
  shows "\<exists>b s'. new_bigalloc hk ptr sz priv pf maybe_parent al s = Inr (b, s') \<and> pi_inv s' \<and>
    \<not> used s b \<and> placed s b p ptr (ptr + sz) s' \<and> same_but b s s' \<and>
    payload (big_allocations s' b) = (al, None, priv, pf, 0, 0) \<and>
    pageindex s' = pages_to ptr (ptr + sz) b (pageindex s)"
proof -
  obtain ch where t: "tree_ok s" using pi_invE [OF assms(1)] by blast
  note p = used_bounds [OF t assms(6)]
  obtain b where b: "find_free_bigalloc s = Inr b" "\<not> used s b" "0 < b" "b < NBIGALLOCS"
    using find_free_ok [OF assms(2-4)] by blast
  have "0 < bgn s p" using assms(6) by (simp add: BIGALLOC_IN_USE_def)
  then have room: "room s b p ptr (ptr + sz)"
    using b p assms(5-9) by (auto simp: room_def)
  have "(if maybe_parent \<noteq> 0 then Inr (maybe_parent, s) else find_parent_for hk ptr sz s) = Inr (p, s)"
    using assms(10) p(1) find_parent_ok [OF assms(1,5)] by auto
  then have "new_bigalloc hk ptr sz priv pf maybe_parent al s = bigalloc_new ptr sz p priv pf al s"
    using room unfolding new_bigalloc_def by (simp add: room_def)
  then show ?thesis using bigalloc_new_ok [OF assms(1) b(1) room, of priv pf al] b(2) by auto
qed

lemma no_alloc_unindexed:
  assumes "pi_inv s" "\<And>i. used s i \<Longrightarrow> \<not> contains_addr s i a"
  shows "pageindex s (PAGENUM a) = 0"
  using assms index_entry [of s a] by (auto simp: pi_inv_def)

lemma new_bigalloc_top_ok:
  assumes "pi_inv s" "\<not> used s k" "0 < k" "k < NBIGALLOCS" "0 < sz" "0 < ptr"
    "ptr + sz < 2 ^ 64" "sz \<le> biggest_sane s" "4096 dvd ptr" "4096 dvd sz"
    "\<And>i. used s i \<Longrightarrow> en s i \<le> ptr \<or> ptr + sz \<le> bgn s i"
    "notify_unindexed_address hk ptr s = Inr (r1, s)"
    "notify_unindexed_address hk (ptr + sz - 1) s = Inr (r2, s)"
  shows "\<exists>b s'. new_bigalloc hk ptr sz priv pf 0 al s = Inr (b, s') \<and> pi_inv s' \<and>
    \<not> used s b \<and> placed s b 0 ptr (ptr + sz) s' \<and> same_but b s s' \<and>
    payload (big_allocations s' b) = (al, None, priv, pf, 0, 0) \<and>
    pageindex s' = pages_to ptr (ptr + sz) b (pageindex s)"
proof -
  obtain b where b: "find_free_bigalloc s = Inr b" "\<not> used s b" "0 < b" "b < NBIGALLOCS"
    using find_free_ok [OF assms(2-4)] by blast
  have room: "room s b 0 ptr (ptr + sz)"
    using b assms(5-11) by (auto simp: room_def)
  have "\<not> contains_addr s i a" if "used s i" "a = ptr \<or> a = ptr + sz - 1" for i a
    using assms(11) [OF that(1)] that(2) assms(5) by (auto simp: contains_addr_def)
  then have "pageindex s (PAGENUM ptr) = 0" "pageindex s (PAGENUM (ptr + sz - 1)) = 0"
    using no_alloc_unindexed [OF assms(1)] by blast+
  moreover have "ROUND_UP ptr PAGE_SIZE = ptr" "ROUND_UP (ptr + sz) PAGE_SIZE = ptr + sz"
    using ROUND_UP_aligned assms(9,10) dvd_add by blast+
  ultimately have "find_parent_for hk ptr sz s = Inr (0, s)"
    using assms(5,12,13) by (simp add: find_parent_for_def find_deepest_bigalloc_def Let_def)
  then have "new_bigalloc hk ptr sz priv pf 0 al s = bigalloc_new ptr sz 0 priv pf al s"
    using assms(8) by (simp add: new_bigalloc_def)
  then show ?thesis using bigalloc_new_ok [OF assms(1) b(1) room, of priv pf al] b(2) by auto
qed

text \<open>
  C5. Creating a top-level big allocation in a page-aligned range that no
  allocation touches, of at most the sane size, with a free slot in the table and handlers
  that leave the state alone at its two ends, succeeds and keeps the state consistent; the new slot enters the top-level list at its
  place in address order.
\<close>

theorem new_bigalloc_top:
  assumes "pi_inv s" "\<not> used s k" "0 < k" "k < NBIGALLOCS" "0 < sz" "0 < ptr"
    "ptr + sz < 2 ^ 64" "sz \<le> biggest_sane s" "4096 dvd ptr" "4096 dvd sz"
    "\<And>i. used s i \<Longrightarrow> en s i \<le> ptr \<or> ptr + sz \<le> bgn s i"
    "notify_unindexed_address hk ptr s = Inr (r1, s)"
    "notify_unindexed_address hk (ptr + sz - 1) s = Inr (r2, s)"
  shows "\<exists>b s'. new_bigalloc hk ptr sz priv pf 0 al s = Inr (b, s') \<and> pi_inv s' \<and>
    \<not> used s b \<and> placed s b 0 ptr (ptr + sz) s' \<and> same_but b s s' \<and>
    payload (big_allocations s' b) = (al, None, priv, pf, 0, 0) \<and>
    pageindex s' = pages_to ptr (ptr + sz) b (pageindex s)"
  by (rule new_bigalloc_top_ok [OF assms])

end
