(* ===== verification/Pageindex_Del.thy ===== *)
theory Pageindex_Del
  imports Pageindex_New
begin

text \<open>
  Deletion of a big allocation: its whole subtree leaves the forest, the pages
  of the subtree go back to the parent, and everything else stays.
\<close>

section \<open>Leaving the forest\<close>

text \<open>
  \<open>s'\<close> is \<open>s\<close> without the slots in \<open>D\<close>, whose pages have gone
  to \<open>p\<close>.
\<close>

definition pruned :: "'a pi_state_scheme \<Rightarrow> nat set \<Rightarrow> nat \<Rightarrow> 'a pi_state_scheme \<Rightarrow> bool" where
  "pruned s D p s' \<longleftrightarrow>
     (\<forall>i. bgn s' i = (if i \<in> D then 0 else bgn s i)) \<and>
     (\<forall>i. en s' i = (if i \<in> D then 0 else en s i)) \<and>
     (\<forall>i. par s' i = (if i \<in> D then 0 else par s i)) \<and>
     (\<forall>i. i \<notin> D \<longrightarrow> payload (big_allocations s' i) = payload (big_allocations s i)) \<and>
     (\<forall>pg. pageindex s' pg = (if pageindex s pg \<in> D then p else pageindex s pg)) \<and>
     biggest_sane s' = biggest_sane s \<and> nommap_bigalloc s' = nommap_bigalloc s \<and>
     systrap_is_initialized s' = systrap_is_initialized s \<and> pi_state.more s' = pi_state.more s"

lemma pruned_trans:
  assumes "pruned s D p s1" "pruned s1 E q s2" "p \<in> E \<or> p = q \<and> p \<notin> E"
  shows "pruned s (D \<union> E) q s2"
proof -
  note a = assms(1) [unfolded pruned_def] and b = assms(2) [unfolded pruned_def]
  have "bgn s2 i = (if i \<in> D \<union> E then 0 else bgn s i)" for i using a b by simp
  moreover have "en s2 i = (if i \<in> D \<union> E then 0 else en s i)" for i using a b by simp
  moreover have "par s2 i = (if i \<in> D \<union> E then 0 else par s i)" for i using a b by simp
  moreover have "payload (big_allocations s2 i) = payload (big_allocations s i)" if "i \<notin> D \<union> E" for i
    using a b that by simp
  moreover have "pageindex s2 pg = (if pageindex s pg \<in> D \<union> E then q else pageindex s pg)" for pg
    using a b assms(3) by auto
  moreover have "biggest_sane s2 = biggest_sane s \<and> nommap_bigalloc s2 = nommap_bigalloc s \<and>
      systrap_is_initialized s2 = systrap_is_initialized s \<and> pi_state.more s2 = pi_state.more s"
    using a b by simp
  ultimately show ?thesis unfolding pruned_def by blast
qed

lemma pruned_used:
  assumes "pruned s D p s'"
  shows "used s' i \<longleftrightarrow> used s i \<and> i \<notin> D"
  using assms by (cases "i \<in> D") (auto simp: pruned_def BIGALLOC_IN_USE_def)

lemma pruned_anc:
  assumes pr: "pruned s D p s'" and closed: "\<And>j. used s j \<Longrightarrow> par s j \<in> D \<Longrightarrow> j \<in> D"
    and t: "tree_ok s" and j: "used s j" "j \<notin> D"
  shows "anc s' i j \<longleftrightarrow> anc s i j"
proof
  have f: "par s' k = par s k" if "k \<notin> D" for k using pr that by (simp add: pruned_def)
  show "anc s' i j" if "anc s i j"
    using that j
  proof induction
    case (anc_step i j)
    then have "par s j \<notin> D" "used s (par s j)" using closed used_parent(1) [OF t] by blast+
    then show ?case
      using anc_step f [of j] pruned_used [OF pr, of j] anc.anc_step [of s' i j] by simp
  qed (rule anc_refl)
  show "anc s i j" if "anc s' i j"
    using that j
  proof induction
    case (anc_step i j)
    then have "par s j \<notin> D" "used s (par s j)" "par s j \<noteq> 0"
      using closed [of j] used_parent(1) [OF t, of j] f [of j] by auto
    then show ?case
      using anc_step f [of j] anc.anc_step [of s i j] by simp
  qed (rule anc_refl)
qed

lemma tree_prune:
  assumes t: "tree_ok s" and pr: "pruned s D p s'"
    and closed: "\<And>j. used s j \<Longrightarrow> par s j \<in> D \<Longrightarrow> j \<in> D"
  shows "tree_ok s'"
proof -
  note u = pruned_used [OF pr]
  have f: "bgn s' i = bgn s i" "en s' i = en s i" "par s' i = par s i" if "i \<notin> D" for i
    using pr that by (auto simp: pruned_def)
  obtain d :: "nat \<Rightarrow> nat" where d: "\<And>i. used s i \<Longrightarrow> par s i \<noteq> 0 \<Longrightarrow> d (par s i) < d i"
    using tree_rank [OF t] by blast
  show ?thesis
  proof (rule tree_okI [where d = d])
    fix i assume "used s' i"
    then have i: "used s i" "i \<notin> D" using u by auto
    show "slot_ok s' i"
    proof (cases "par s i = 0")
      case False
      have "par s i \<notin> D" using closed [OF i(1)] i(2) by blast
      then show ?thesis
        using tree_slot [OF t i(1)] i pr f [OF i(2)] f [of "par s i"] u [of "par s i"] False
        by (simp add: slot_ok_def pruned_def)
    qed (use tree_slot [OF t i(1)] i pr f [OF i(2)] in \<open>simp add: slot_ok_def pruned_def\<close>)
    show "d (par s' i) < d i" if "par s' i \<noteq> 0" using d [OF i(1)] f [OF i(2)] that by simp
  next
    fix i assume "\<not> used s' i"
    then show "par s' i = 0"
      using tree_unused [OF t, of i] u [of i] f [of i] pr by (cases "i \<in> D") (auto simp: pruned_def)
  next
    fix i j assume "used s' i" "used s' j" "par s' i = par s' j" "i \<noteq> j"
    then show "en s' i \<le> bgn s' j \<or> en s' j \<le> bgn s' i"
      using tree_siblings [OF t, of i j] u f by simp
  qed
qed

text \<open>A page of a childless allocation is mapped to it.\<close>

lemma childless_page:
  assumes "tree_ok s" "index_ok s" "used s b" "\<And>c. used s c \<Longrightarrow> par s c \<noteq> b"
  shows "pageindex s pg = b \<longleftrightarrow> spans s b pg"
proof
  assume "spans s b pg"
  then have "anc s b (pageindex s pg)" using index_deepest [OF assms(1,2)] by blast
  then show "pageindex s pg = b" using anc_first_step [OF assms(1)] assms(4) by metis
next
  assume "pageindex s pg = b"
  then show "spans s b pg" using assms(2) used_bounds(1) [OF assms(1,3)] by (auto simp: index_ok_def)
qed

lemma index_prune_one:
  assumes t: "tree_ok s" and i: "index_ok s" and b: "used s b" "\<And>c. used s c \<Longrightarrow> par s c \<noteq> b"
    and pr: "pruned s {b} (par s b) s'"
  shows "index_ok s'"
proof -
  note u = pruned_used [OF pr]
  have f: "bgn s' i = bgn s i" "en s' i = en s i" "par s' i = par s i" if "i \<noteq> b" for i
    using pr that by (auto simp: pruned_def)
  have ent: "pageindex s' pg = (if pageindex s pg = b then par s b else pageindex s pg)" for pg
    using pr by (simp add: pruned_def)
  have sp: "spans s' c pg \<longleftrightarrow> c \<noteq> b \<and> spans s c pg" for c pg
    by (cases "c = b") (simp_all add: spans_def u f)
  have page: "pageindex s pg = b \<longleftrightarrow> spans s b pg" for pg by (rule childless_page [OF t i b])
  show ?thesis
    unfolding index_ok_def
  proof (intro allI conjI impI)
    fix pg assume nz: "pageindex s' pg \<noteq> 0"
    show "spans s' (pageindex s' pg) pg"
    proof (cases "pageindex s pg = b")
      case True
      then have "par s b \<noteq> 0" using nz ent by simp
      then have "spans s (par s b) pg" "par s b \<noteq> b"
        using used_parent [OF t b(1)] True page b by (auto simp: spans_def)
      then show ?thesis using True by (simp add: ent sp)
    next
      case False
      then show ?thesis using nz i by (simp add: ent sp index_ok_def)
    qed
  next
    fix pg c assume c: "used s' c \<and> par s' c = pageindex s' pg"
    then have cb: "c \<noteq> b" "used s c" using u by auto
    show "\<not> spans s' c pg"
    proof (cases "pageindex s pg = b")
      case True
      then have "par s c = par s b" "spans s b pg" using c cb f [OF cb(1)] ent page by auto
      then show ?thesis
        using tree_siblings [OF t cb(2) b(1)] cb(1) f [OF cb(1)] by (auto simp: spans_def)
    next
      case False
      then show ?thesis using c cb i f [OF cb(1)] by (auto simp: ent sp index_ok_def)
    qed
  qed
qed

section \<open>Leaving the lists\<close>

lemma links_remove:
  assumes t: "tree_ok s" and l: "links_ok s ch" and b: "used s b" "\<And>c. used s c \<Longrightarrow> par s c \<noteq> b"
    and nm: "b \<noteq> nommap_bigalloc s" and AB: "ch (par s b) = A @ b # B"
    and pr: "pruned s {b} (par s b) s'"
    and fc: "\<And>i. i \<noteq> b \<Longrightarrow> used s i \<Longrightarrow> fch s' i = (if i = par s b \<and> A = [] then hd0 B else fch s i)"
    and nx: "\<And>i. i \<noteq> b \<Longrightarrow> nxt s' i = (if A \<noteq> [] \<and> i = last0 0 A then hd0 B else nxt s i)"
    and pv: "\<And>i. i \<noteq> b \<Longrightarrow> prv s' i = (if B \<noteq> [] \<and> i = hd0 B then last0 0 A else prv s i)"
  shows "links_ok s' (ch(par s b := A @ B))"
proof (rule links_okI)
  let ?p = "par s b"
  note u = pruned_used [OF pr]
  have p: "?p = 0 \<or> used s ?p" using used_parent(1) [OF t b(1)] by blast
  have f: "par s' i = (if i = b then 0 else par s i)" for i using pr by (simp add: pruned_def)
  have dst: "distinct (A @ b # B)" using links_child(2) [OF l p] by (simp add: AB)
  fix q assume q': "q = 0 \<or> used s' q"
  then have q: "q = 0 \<or> used s q" "q \<noteq> b" using u used_bounds(1) [OF t b(1)] by auto
  show "dll (nxt s') (prv s') 0 ((ch(?p := A @ B)) q)"
  proof (cases "q = ?p")
    case False
    have "b \<notin> set (ch q)" using links_list_used(2) [OF l q(1)] False by blast
    then have "dll (nxt s') (prv s') 0 (ch q)"
      by (rule links_frame [OF l q(1) p False [symmetric]])
        (use hd0_mem [of B] last0_in [of A 0] in \<open>auto simp: AB nx pv\<close>)
    then show ?thesis using False by simp
  next
    case True
    have d: "seg (nxt s) (prv s) 0 b A" "seg (nxt s) (prv s) b 0 B"
      using links_child(1) [OF l p] by (simp_all add: dll_seg AB seg_append)
    have "i \<noteq> b" if "i \<in> set (A @ B)" for i using dst that by auto
    then have "seg (nxt s') (prv s') 0 0 (A @ B)"
      by (intro seg_join [OF d]) (use dst nx pv in simp_all)
    then show ?thesis using True by (simp add: dll_seg)
  qed
  show "distinct ((ch(?p := A @ B)) q)" using links_child(2) [OF l q(1)] dst by auto
  have "{c. used s' c \<and> par s' c = q} = {c. used s c \<and> par s c = q} - {b}"
    by (auto simp: u f)
  moreover have "set (A @ B) = set (ch ?p) - {b}" using dst by (auto simp: AB)
  moreover have "b \<notin> {c. used s c \<and> par s c = q}" if "q \<noteq> ?p" using that by auto
  ultimately show "set ((ch(?p := A @ B)) q) = {c. used s' c \<and> par s' c = q}"
    using links_child(3) [OF l q(1)] by auto
next
  fix q assume "used s' q"
  then have q: "used s q" "q \<noteq> b" using pruned_used [OF pr] by auto
  then show "fch s' q = hd0 ((ch(par s b := A @ B)) q)"
    using fc [OF q(2,1)] links_fch [OF l q(1)] AB by (cases A) auto
next
  have nb: "b \<notin> set (A @ B)"
    using links_child(2) [OF l, of "par s b"] used_parent(1) [OF t b(1)] AB by fastforce
  have sub: "set ((ch(par s b := A @ B)) 0) \<subseteq> set (ch 0) - {b}"
    using nb AB links_list_used(2) [OF l, of 0 b] by auto
  have "sorted_wrt (\<lambda>x y. en s x \<le> bgn s y) ((ch(par s b := A @ B)) 0)"
    using links_top(1) [OF l] AB by (auto simp: sorted_wrt_append)
  then show "sorted_wrt (\<lambda>x y. en s' x \<le> bgn s' y) ((ch(par s b := A @ B)) 0)"
    by (rule sorted_wrt_mono_rel [rotated]) (use pr sub in \<open>auto simp: pruned_def\<close>)
  show "nommap_bigalloc s' \<in> set ((ch(par s b := A @ B)) 0)"
    using links_top(2) [OF l] nm AB pr by (auto simp: pruned_def)
qed

section \<open>The deleting operations\<close>

text \<open>The destructor calls that deleting a slot makes.\<close>

definition frees :: "big_allocation \<Rightarrow> (nat \<times> nat) list" where
  "frees r =
     (if allocator_private r \<noteq> 0 \<and> allocator_private_free r \<noteq> 0
      then [(allocator_private_free r, allocator_private r)] else []) @
     (if suballocator_private_free r \<noteq> 0
      then [(suballocator_private_free r, suballocator_private r)] else [])"

lemma free_private_eq: "free_private b s = s\<lparr>freed := freed s @ frees (big_allocations s b)\<rparr>"
  by (simp add: free_private_def frees_def Let_def)

text \<open>
  \<open>s1\<close> is \<open>s\<close> after \<open>b\<close> left the list
  \<open>A @ b # B\<close> of its siblings.
\<close>

definition unlinked :: "'a pi_state_scheme \<Rightarrow> nat \<Rightarrow> nat list \<Rightarrow> nat list \<Rightarrow> 'a pi_state_scheme \<Rightarrow> bool" where
  "unlinked s b A B s1 \<longleftrightarrow>
     (\<forall>i. bgn s1 i = bgn s i) \<and> (\<forall>i. en s1 i = en s i) \<and>
     (\<forall>i. par s1 i = (if i = b then 0 else par s i)) \<and>
     (\<forall>i. payload (big_allocations s1 i) = payload (big_allocations s i)) \<and>
     (\<forall>i. i \<noteq> b \<and> used s i \<longrightarrow> fch s1 i = (if i = par s b \<and> A = [] then hd0 B else fch s i)) \<and>
     (\<forall>i. i \<noteq> b \<longrightarrow> nxt s1 i = (if A \<noteq> [] \<and> i = last0 0 A then hd0 B else nxt s i)) \<and>
     (\<forall>i. i \<noteq> b \<longrightarrow> prv s1 i = (if B \<noteq> [] \<and> i = hd0 B then last0 0 A else prv s i)) \<and>
     pageindex s1 = pageindex s \<and> biggest_sane s1 = biggest_sane s \<and>
     nommap_bigalloc s1 = nommap_bigalloc s \<and> freed s1 = freed s \<and>
     systrap_is_initialized s1 = systrap_is_initialized s \<and> pi_state.more s1 = pi_state.more s"

lemma unlink_eval:
  assumes l: "links_ok s ch" and t: "tree_ok s" and b: "used s b" and AB: "ch (par s b) = A @ b # B"
  shows "\<exists>s1. (if par s b \<noteq> 0 then unlink_child b s else Inr (unlink_toplevel b s)) = Inr s1 \<and>
    unlinked s b A B s1"
proof -
  let ?p = "par s b"
  have p: "?p = 0 \<or> used s ?p" using used_parent(1) [OF t b] by blast
  have "seg (nxt s) (prv s) 0 0 (A @ b # B)" "distinct (A @ b # B)"
    using links_child(1,2) [OF l p] by (simp_all add: dll_seg AB)
  then have nb: "nxt s b = hd0 B" "prv s b = last0 0 A" and dst: "distinct (A @ b # B)"
    by (simp_all add: seg_append hd_or_0)
  have pos: "\<forall>x\<in>set (A @ b # B). 0 < x"
    using links_list_used(1) [OF l p] used_bounds(1) [OF t] AB by metis
  have nA: "last0 0 A = 0 \<longleftrightarrow> A = []" "last0 0 A \<noteq> b"
    using last0_in [of A 0] pos dst by (cases "A = []"; force)+
  have nB: "hd0 B = 0 \<longleftrightarrow> B = []" "hd0 B \<noteq> b"
    using hd0_mem [of B] pos dst by (cases "B = []"; force)+
  have AB_ne: "last0 0 A \<noteq> hd0 B \<or> A = []" using last0_in [of A 0] hd0_mem [of B] dst nA nB by (cases "B = []") force+
  show ?thesis
  proof (cases "?p = 0")
    case True
    have "fch s i = (if i = ?p \<and> A = [] then hd0 B else fch s i)" if "used s i" for i
      using used_bounds(1) [OF t that] True by simp
    then show ?thesis
      using True nb nA nB
      unfolding unlinked_def
      by (intro exI [of _ "unlink_toplevel b s"] conjI allI impI)
        (auto simp: unlink_toplevel_def Let_def payload_def)
  next
    case False
    then have up: "used s ?p" using p by simp
    have pb: "?p \<noteq> b" using tree_rank [OF t] b False by (metis less_irrefl)
    have first: "b = fch s ?p \<longleftrightarrow> A = []"
      using links_fch [OF l up] AB dst by (cases A) auto
    show ?thesis
      using False nb nA nB pb first
      unfolding unlinked_def
      by (intro exI [of _ "case unlink_child b s of Inr s1 \<Rightarrow> s1"] conjI allI impI)
        (auto simp: unlink_child_def Let_def payload_def)
  qed
qed

lemma freed_frame [simp]:
  "tree_ok (s\<lparr>freed := x\<rparr>) = tree_ok s" "links_ok (s\<lparr>freed := x\<rparr>) ch = links_ok s ch"
  "BIGALLOC_IN_USE (s\<lparr>freed := x\<rparr>) i = BIGALLOC_IN_USE s i"
  by (simp_all add: links_ok_def tree_ok_def slot_ok_def BIGALLOC_IN_USE_def)

lemma del_one_ok:
  assumes t: "tree_ok s" and l: "links_ok s ch" and i: "index_ok s"
    and b: "used s b" "\<And>c. used s c \<Longrightarrow> par s c \<noteq> b" and nm: "b \<noteq> nommap_bigalloc s"
    and AB: "ch (par s b) = A @ b # B"
  shows "\<exists>s'. del_one b s = Inr s' \<and> pruned s {b} (par s b) s' \<and>
    links_ok s' (ch(par s b := A @ B)) \<and> freed s' = freed s @ frees (big_allocations s b)"
proof -
  let ?p = "par s b" and ?s0 = "free_private b s" and ?lo = "bgn s b" and ?hi = "en s b"
  have "links_ok ?s0 ch" "tree_ok ?s0" "used ?s0 b" "ch (par ?s0 b) = A @ b # B"
    using l t b(1) AB by (simp_all add: free_private_eq)
  then obtain s1 where s1:
    "(if par ?s0 b \<noteq> 0 then unlink_child b ?s0 else Inr (unlink_toplevel b ?s0)) = Inr s1"
    "unlinked ?s0 b A B s1"
    using unlink_eval by blast
  note s1' = s1(2) [unfolded unlinked_def free_private_eq, simplified]
  have ub: "?lo \<le> ?hi" "?hi - ?lo \<le> biggest_sane s" using used_bounds(3,5) [OF t b(1)] by auto
  have p16: "?p < 2 ^ 16"
    using used_parent(1) [OF t b(1)] used_bounds(2) [OF t, of ?p] by (cases "?p = 0") (auto simp: NBIGALLOCS_def)
  define s' where "s' = clear_bigalloc_nomemset b
      (s1\<lparr>pageindex := fill (page_up ?lo) ?p (page_down ?hi - page_up ?lo) (pageindex s1)\<rparr>)"
  have ev: "del_one b s = Inr s'"
    using memset_bigalloc_ok [OF p16, of "page_down ?hi - page_up ?lo" s1 "page_up ?lo"]
      page_count_sane [OF ub(2)] unfolding del_one_def Let_def s1(1) rbind.simps
    by (simp add: s1' free_private_eq s'_def page_up_def page_down_def PAGE_DIST_diff)
  have entry: "(if pageindex s pg = b then ?p else pageindex s pg) = pages_to ?lo ?hi ?p (pageindex s) pg" for pg
    using childless_page [OF t i b, of pg] b(1) by (auto simp: pages_to_def spans_def)
  have pr: "pruned s {b} ?p s'"
    unfolding pruned_def
    by (simp add: s'_def clear_bigalloc_nomemset_def s1' entry fill_pages [OF ub(1)])
  have "links_ok s' (ch(?p := A @ B))"
    by (rule links_remove [OF t l b nm AB pr])
      (simp_all add: s'_def clear_bigalloc_nomemset_def s1')
  moreover have "freed s' = freed s @ frees (big_allocations s b)"
    by (simp add: s'_def clear_bigalloc_nomemset_def s1')
  ultimately show ?thesis using ev pr by blast
qed

end
