(* ===== verification/Pageindex_Subtree.thy ===== *)
theory Pageindex_Subtree
  imports Pageindex_Del
begin

text \<open>
  Recursive deletion: the loop over the children removes whole subtrees and
  ends within the fuel, and the deletion of an allocation, by slot or by
  address, keeps the state consistent.
\<close>

text \<open>The destructors of the deleted slots have run, each once, in the order of \<open>ds\<close>.\<close>

definition freed_all :: "'a pi_state_scheme \<Rightarrow> nat set \<Rightarrow> 'a pi_state_scheme \<Rightarrow> bool" where
  "freed_all s D s' \<longleftrightarrow> (\<exists>ds. distinct ds \<and> set ds = D \<and>
     freed s' = freed s @ concat (map (\<lambda>i. frees (big_allocations s i)) ds))"

lemma frees_payload: "payload r = payload r' \<Longrightarrow> frees r = frees r'"
  by (simp add: payload_def frees_def)

lemma freed_all_trans:
  assumes "freed_all s D s1" "freed_all s1 E s2" "pruned s D p s1" "D \<inter> E = {}"
  shows "freed_all s (D \<union> E) s2"
proof -
  obtain ds es where d: "distinct ds" "set ds = D"
      "freed s1 = freed s @ concat (map (\<lambda>i. frees (big_allocations s i)) ds)"
    and e: "distinct es" "set es = E"
      "freed s2 = freed s1 @ concat (map (\<lambda>i. frees (big_allocations s1 i)) es)"
    using assms(1,2) unfolding freed_all_def by blast
  have "frees (big_allocations s1 i) = frees (big_allocations s i)" if "i \<in> set es" for i
    using assms(3,4) that e(2) by (intro frees_payload) (auto simp: pruned_def)
  then have m: "map (\<lambda>i. frees (big_allocations s1 i)) es = map (\<lambda>i. frees (big_allocations s i)) es"
    by simp
  have "freed s2 = freed s @ concat (map (\<lambda>i. frees (big_allocations s i)) (ds @ es))"
    unfolding e(3) d(3) m by simp
  moreover have "distinct (ds @ es)" "set (ds @ es) = D \<union> E" using d e assms(4) by auto
  ultimately show ?thesis unfolding freed_all_def by blast
qed

lemma desc_child_parent:
  assumes "tree_ok s" "used s x" "par s x = p" "p \<noteq> 0"
  shows "p \<notin> desc s x"
proof
  assume "p \<in> desc s x"
  then have "anc s x p" by (simp add: desc_def)
  moreover have "anc s p x" using anc_child [OF assms(2)] assms(3,4) by simp
  ultimately have "p = x" using anc_antisym [OF assms(1)] by blast
  then show False using tree_rank [OF assms(1)] assms by (metis less_irrefl)
qed

lemma desc_closed: "used s j \<Longrightarrow> par s j \<in> desc s x \<Longrightarrow> tree_ok s \<Longrightarrow> j \<in> desc s x"
  using used_bounds(1) [of s "par s j"] by (auto simp: desc_def intro!: anc_step)

text \<open>Removing one subtree leaves the subtrees of the siblings alone.\<close>

lemma under_pruned:
  assumes t: "tree_ok s" and pr: "pruned s (desc s x) p s'"
    and sib: "\<forall>y\<in>set (x # xs). used s y \<and> par s y = p" "distinct (x # xs)"
  shows "under s' xs = under s xs"
proof -
  have "desc s' y = desc s y" if y: "y \<in> set xs" for y
  proof -
    have disj: "desc s x \<inter> desc s y = {}"
      using siblings_desc_disjoint [OF t, of x y] sib y by auto
    have "anc s' y j \<and> used s' j \<longleftrightarrow> anc s y j \<and> used s j" for j
    proof (cases "used s j \<and> j \<notin> desc s x")
      case True
      then show ?thesis
        using pruned_anc [OF pr desc_closed [OF _ _ t] t, of j y] pruned_used [OF pr, of j] by blast
    next
      case False
      then show ?thesis using disj pruned_used [OF pr, of j] by (auto simp: desc_def)
    qed
    then show ?thesis by (simp add: desc_def)
  qed
  then show ?thesis by (simp add: under_def)
qed

lemma nommap_not_under:
  assumes "tree_ok s" "links_ok s ch" "anc s x (nommap_bigalloc s)" "used s x" "par s x \<noteq> 0"
  shows False
proof -
  have "par s (nommap_bigalloc s) = 0"
    using links_list_used(2) [OF assms(2) _ links_top(2) [OF assms(2)]] by simp
  then show False using assms(3,5) by (auto elim: anc.cases)
qed

text \<open>One step of the loop: the child \<open>x\<close>, whose own children are gone, goes.\<close>

lemma del_child_step:
  assumes t: "tree_ok s" and l: "links_ok s ch" and i: "index_ok s"
    and x: "used s x" "par s x = p" "p \<noteq> 0" "ch p = x # xs"
    and pr: "pruned s (desc s x - {x}) x s1" and w1: "tree_ok s1" "links_ok s1 ch1" "index_ok s1"
    and ch1: "ch1 x = []" "ch1 p = ch p" and fr: "freed_all s (desc s x - {x}) s1"
  shows "\<exists>s2. del_one x s1 = Inr s2 \<and> pruned s (desc s x) p s2 \<and> tree_ok s2 \<and>
    links_ok s2 (ch1(p := xs)) \<and> index_ok s2 \<and> freed_all s (desc s x) s2"
proof -
  have ux: "used s1 x" "par s1 x = p"
    using pruned_used [OF pr, of x] x pr by (auto simp: pruned_def)
  have nc: "par s1 c \<noteq> x" if "used s1 c" for c
    using links_child(3) [OF w1(2) disjI2 [OF ux(1)]] ch1(1) that by auto
  have "x \<noteq> nommap_bigalloc s1"
    using nommap_not_under [OF w1(1,2) _ ux(1)] ux(2) x(3) anc_refl by metis
  then obtain s2 where s2: "del_one x s1 = Inr s2" "pruned s1 {x} p s2"
    "links_ok s2 (ch1(p := xs))" "freed s2 = freed s1 @ frees (big_allocations s1 x)"
    using del_one_ok [OF w1 ux(1) nc, of "[]" xs] ux(2) ch1(2) x(4) by auto
  have "insert x (desc s x - {x}) = desc s x" using desc_self [OF x(1)] by auto
  moreover have "freed_all s1 {x} s2"
    unfolding freed_all_def using s2(4) by (intro exI [of _ "[x]"]) simp
  ultimately have D: "pruned s (desc s x) p s2" "freed_all s (desc s x) s2"
    using pruned_trans [OF pr s2(2)] freed_all_trans [OF fr _ pr, of "{x}" s2] by auto
  have "tree_ok s2" by (rule tree_prune [OF w1(1) s2(2)]) (use nc in auto)
  moreover have "index_ok s2"
    using index_prune_one [OF w1(1,3) ux(1) nc] s2(2) ux(2) by simp
  ultimately show ?thesis using s2 D by blast
qed

lemma del_children_ok:
  assumes "tree_ok s" "links_ok s ch" "index_ok s" "used s p" "card (under s (ch p)) \<le> fuel"
  shows "\<exists>s' ch'. del_children fuel s (hd0 (ch p)) = Inr s' \<and>
    pruned s (under s (ch p)) p s' \<and> tree_ok s' \<and> links_ok s' ch' \<and> index_ok s' \<and>
    freed_all s (under s (ch p)) s' \<and> ch' p = [] \<and>
    (\<forall>q. q \<noteq> p \<and> q \<notin> under s (ch p) \<longrightarrow> ch' q = ch q)"
  using assms
proof (induction fuel arbitrary: s ch p rule: less_induct)
  case (less fuel)
  note t = less.prems(1) and l = less.prems(2) and i = less.prems(3) and up = less.prems(4)
  have p0: "p \<noteq> 0" using used_bounds(1) [OF t up] by simp
  show ?case
  proof (cases "ch p")
    case Nil
    have "freed_all s {} s" "pruned s {} p s"
      by (auto simp: freed_all_def pruned_def intro!: exI [of _ "[]"])
    then show ?thesis
      using Nil t l i by (subst del_children.simps) (auto intro!: exI [of _ ch])
  next
    case (Cons x xs)
    have "at_children s p (x # xs) fuel"
      using links_child [OF l disjI2 [OF up]] less.prems(5) by (auto simp: at_children_def Cons)
    note x = at_childrenD [OF t this]
    have sib: "\<forall>y\<in>set (x # xs). used s y \<and> par s y = p" "distinct (x # xs)"
      using links_child(2,3) [OF l disjI2 [OF up]] by (auto simp: Cons)
    have ux: "under s (ch x) = desc s x - {x}"
      by (rule under_children [OF t x(1) links_child(3) [OF l disjI2 [OF x(1)]]])
    have px: "p \<notin> desc s x" by (rule desc_child_parent [OF t x(1,2) p0])
    have "card (under s (ch x)) \<le> fuel - 1"
      using card_under_children [OF t x(1) links_child(3) [OF l disjI2 [OF x(1)]]] x(7) by simp
    then obtain s1 ch1 where s1: "del_children (fuel - 1) s (hd0 (ch x)) = Inr s1"
      "pruned s (desc s x - {x}) x s1" "tree_ok s1" "links_ok s1 ch1" "index_ok s1"
      "freed_all s (desc s x - {x}) s1" "ch1 x = []"
      "\<And>q. q \<noteq> x \<Longrightarrow> q \<notin> desc s x - {x} \<Longrightarrow> ch1 q = ch q"
      using less.IH [OF _ t l i x(1), of "fuel - 1"] x(5) unfolding ux by (metis diff_less gr0I zero_less_one)
    have "ch1 p = ch p" using s1(8) [of p] px desc_self [OF x(1)] by auto
    then obtain s2 where s2: "del_one x s1 = Inr s2" "pruned s (desc s x) p s2" "tree_ok s2"
      "links_ok s2 (ch1(p := xs))" "index_ok s2" "freed_all s (desc s x) s2"
      using del_child_step [OF t l i x(1,2) p0 Cons s1(2-5,7) _ s1(6)] by blast
    have us: "under s2 xs = under s xs" by (rule under_pruned [OF t s2(2) sib])
    have "card (under s2 ((ch1(p := xs)) p)) \<le> fuel - 1"
      using x(6) us by (simp add: at_children_def)
    moreover have "used s2 p" using pruned_used [OF s2(2)] up px by simp
    ultimately obtain s' ch' where s': "del_children (fuel - 1) s2 (hd0 xs) = Inr s'"
      "pruned s2 (under s xs) p s'" "tree_ok s'" "links_ok s' ch'" "index_ok s'"
      "freed_all s2 (under s xs) s'" "ch' p = []"
      "\<And>q. q \<noteq> p \<Longrightarrow> q \<notin> under s xs \<Longrightarrow> ch' q = (ch1(p := xs)) q"
      using less.IH [OF _ s2(3-5), of "fuel - 1" p] x(5) unfolding fun_upd_same us
      by (metis diff_less gr0I zero_less_one)
    have disj: "desc s x \<inter> under s xs = {}" "p \<notin> under s xs"
      using siblings_desc_disjoint [OF t] sib desc_child_parent [OF t _ _ p0]
      by (fastforce simp: under_def)+
    have "pruned s (under s (ch p)) p s'" "freed_all s (under s (ch p)) s'"
      using pruned_trans [OF s2(2) s'(2)] freed_all_trans [OF s2(6) s'(6) s2(2)] disj
      by (simp_all add: Cons)
    moreover have "ch' q = ch q" if "q \<noteq> p" "q \<notin> under s (ch p)" for q
      using that s'(8) [of q] s1(8) [of q] desc_self [OF x(1)] by (auto simp: Cons)
    moreover have "del_children fuel s (hd0 (ch p)) = Inr s'"
      using Cons x(3-5) links_fch [OF l x(1)] s1(1) s2(1) s'(1)
      by (subst del_children.simps) simp
    ultimately show ?thesis using s'(3-5,7) by blast
  qed
qed

section \<open>Deleting an allocation\<close>

lemma bigalloc_del_ok:
  assumes "pi_inv s" "used s b" "b \<noteq> nommap_bigalloc s"
  shows "\<exists>s'. bigalloc_del b s = Inr s' \<and> pi_inv s' \<and> pruned s (desc s b) (par s b) s' \<and>
    freed_all s (desc s b) s'"
proof -
  obtain ch where w: "tree_ok s" "links_ok s ch" "index_ok s" using pi_invE [OF assms(1)] .
  let ?p = "par s b"
  have kids: "under s (ch b) = desc s b - {b}"
    by (rule under_children [OF w(1) assms(2) links_child(3) [OF w(2) disjI2 [OF assms(2)]]])
  obtain s1 ch1 where s1: "del_children NBIGALLOCS s (hd0 (ch b)) = Inr s1"
    "pruned s (desc s b - {b}) b s1" "tree_ok s1" "links_ok s1 ch1" "index_ok s1"
    "freed_all s (desc s b - {b}) s1" "ch1 b = []"
    using del_children_ok [OF w assms(2), of NBIGALLOCS] card_under_le [OF w(1), of "ch b"]
    unfolding kids by auto
  have ub: "used s1 b" "par s1 b = ?p"
    using pruned_used [OF s1(2)] assms(2) s1(2) by (auto simp: pruned_def)
  have nc: "par s1 c \<noteq> b" if "used s1 c" for c
    using links_child(3) [OF s1(4) disjI2 [OF ub(1)]] s1(7) that by auto
  have "b \<in> set (ch1 ?p)"
    using links_child(3) [OF s1(4), of ?p] used_parent(1) [OF s1(3) ub(1)] ub by auto
  then obtain A B where AB: "ch1 (par s1 b) = A @ b # B" using split_list ub(2) by metis
  have "b \<noteq> nommap_bigalloc s1" using s1(2) assms(3) by (simp add: pruned_def)
  then obtain s' where s': "del_one b s1 = Inr s'" "pruned s1 {b} ?p s'"
    "links_ok s' (ch1(?p := A @ B))" "freed s' = freed s1 @ frees (big_allocations s1 b)"
    using del_one_ok [OF s1(3-5) ub(1) nc _ AB] ub(2) by auto
  have ins: "insert b (desc s b - {b}) = desc s b" using desc_self [OF assms(2)] by auto
  have "freed_all s1 {b} s'"
    unfolding freed_all_def using s'(4) by (intro exI [of _ "[b]"]) simp
  then have "pruned s (desc s b) ?p s'" "freed_all s (desc s b) s'"
    using pruned_trans [OF s1(2) s'(2)] freed_all_trans [OF s1(6) _ s1(2), of "{b}" s'] ins by auto
  moreover have "pi_inv s'"
    unfolding pi_inv_def using tree_prune [OF s1(3) s'(2)] nc s'(3)
      index_prune_one [OF s1(3,5) ub(1) nc] s'(2) ub(2) by auto
  moreover have "bigalloc_del b s = Inr s'"
    using s1(1) s'(1) links_fch [OF w(2) assms(2)] by (simp add: bigalloc_del_def)
  ultimately show ?thesis by blast
qed

text \<open>
  C6. Deleting a big allocation ends and keeps the state consistent.  Exactly
  the allocation and everything nested in it disappear, their pages are mapped
  to the parent, the private data of each is destroyed once, and all other
  slots keep their bounds, parents and data.
\<close>

theorem bigalloc_del_correct:
  assumes "pi_inv s" "used s b" "b \<noteq> nommap_bigalloc s"
  shows "\<exists>s'. bigalloc_del b s = Inr s' \<and> pi_inv s' \<and> pruned s (desc s b) (par s b) s' \<and>
    freed_all s (desc s b) s'"
  by (rule bigalloc_del_ok [OF assms])

end
