(* ===== verification/Pageindex_Bounds.thy ===== *)
theory Pageindex_Bounds
  imports Pageindex_Subtree
begin

text \<open>
  Changing the bounds of a big allocation at either end: extension and
  truncation keep the state consistent when the rest of the forest leaves room,
  and the page index follows the pages gained and lost.
\<close>

section \<open>New bounds in the forest\<close>

text \<open>When the allocation \<open>b\<close> may get the bounds \<open>[lo, hi)\<close>.\<close>

definition fits :: "'a pi_state_scheme \<Rightarrow> nat \<Rightarrow> addr \<Rightarrow> addr \<Rightarrow> bool" where
  "fits s b lo hi \<longleftrightarrow>
     used s b \<and> 0 < lo \<and> lo < hi \<and> hi < 2 ^ 64 \<and> hi - lo \<le> biggest_sane s \<and>
     lo < en s b \<and> bgn s b < hi \<and>
     (par s b \<noteq> 0 \<longrightarrow> bgn s (par s b) \<le> lo \<and> hi \<le> en s (par s b)) \<and>
     (par s b = 0 \<longrightarrow> 4096 dvd lo \<and> 4096 dvd hi) \<and>
     (\<forall>c. used s c \<and> par s c = par s b \<and> c \<noteq> b \<longrightarrow> en s c \<le> lo \<or> hi \<le> bgn s c) \<and>
     (\<forall>c. used s c \<and> par s c = b \<longrightarrow> lo \<le> bgn s c \<and> en s c \<le> hi)"

text \<open>\<open>s'\<close> is \<open>s\<close> with these bounds and otherwise the same slots.\<close>

definition rebounded :: "'a pi_state_scheme \<Rightarrow> nat \<Rightarrow> addr \<Rightarrow> addr \<Rightarrow> 'a pi_state_scheme \<Rightarrow> bool" where
  "rebounded s b lo hi s' \<longleftrightarrow>
     (\<exists>ix. s' = upd b (\<lambda>r. r\<lparr>ba_begin := lo, ba_end := hi\<rparr>) s\<lparr>pageindex := ix\<rparr>)"

lemma rebounded_fields:
  assumes "rebounded s b lo hi s'"
  shows "bgn s' i = (if i = b then lo else bgn s i)" "en s' i = (if i = b then hi else en s i)"
    "par s' i = par s i" "fch s' i = fch s i" "nxt s' i = nxt s i" "prv s' i = prv s i"
    "biggest_sane s' = biggest_sane s" "nommap_bigalloc s' = nommap_bigalloc s"
  using assms by (auto simp: rebounded_def)

lemma rebounded_used:
  assumes "rebounded s b lo hi s'" "fits s b lo hi"
  shows "used s' i \<longleftrightarrow> used s i"
  using assms(2) by (auto simp: BIGALLOC_IN_USE_def rebounded_fields [OF assms(1)] fits_def)

lemma tree_rebound:
  assumes t: "tree_ok s" and r: "rebounded s b lo hi s'" and f: "fits s b lo hi"
  shows "tree_ok s'"
proof -
  note u = rebounded_used [OF r f] and e = rebounded_fields [OF r]
  obtain d :: "nat \<Rightarrow> nat" where d: "\<And>i. used s i \<Longrightarrow> par s i \<noteq> 0 \<Longrightarrow> d (par s i) < d i"
    using tree_rank [OF t] by blast
  have ub: "used s b" using f by (simp add: fits_def)
  have pb: "par s b \<noteq> b" using d [OF ub] used_bounds(1) [OF t ub] by fastforce
  show ?thesis
  proof (rule tree_okI [where d = d])
    fix i assume "used s' i"
    then have i: "used s i" using u by simp
    note si = tree_slot [OF t i]
    show "slot_ok s' i"
    proof (cases "i = b")
      case True
      then show ?thesis using si f pb by (auto simp: slot_ok_def e u fits_def)
    next
      case False
      then have "par s i = b \<Longrightarrow> lo \<le> bgn s i \<and> en s i \<le> hi" using f i by (auto simp: fits_def)
      then show ?thesis using si False by (auto simp: slot_ok_def e u)
    qed
    show "d (par s' i) < d i" if "par s' i \<noteq> 0" using d [OF i] that by (simp add: e)
  next
    fix i assume "\<not> used s' i"
    then show "par s' i = 0" using tree_unused [OF t] by (simp add: u e)
  next
    fix i j assume ij: "used s' i" "used s' j" "par s' i = par s' j" "i \<noteq> j"
    have sep: "en s c \<le> lo \<or> hi \<le> bgn s c" if "used s c" "par s c = par s b" "c \<noteq> b" for c
      using f that by (auto simp: fits_def)
    show "en s' i \<le> bgn s' j \<or> en s' j \<le> bgn s' i"
      using tree_siblings [OF t, of i j] ij sep [of i] sep [of j] by (auto simp: u e)
  qed
qed

lemma links_rebound:
  assumes t: "tree_ok s" and l: "links_ok s ch" and r: "rebounded s b lo hi s'" and f: "fits s b lo hi"
  shows "links_ok s' ch"
proof (rule links_okI)
  note u = rebounded_used [OF r f] and e = rebounded_fields [OF r]
  fix q
  show "dll (nxt s') (prv s') 0 (ch q)" "distinct (ch q)"
    "set (ch q) = {c. used s' c \<and> par s' c = q}" if "q = 0 \<or> used s' q"
    using links_child [OF l, of q] that by (simp_all add: e u)
  show "fch s' q = hd0 (ch q)" if "used s' q" using links_fch [OF l, of q] that by (simp add: e u)
next
  note e = rebounded_fields [OF r]
  have ub: "used s b" "lo < en s b" "bgn s b < hi" using f by (auto simp: fits_def)
  have "en s' x \<le> bgn s' y"
    if "x \<in> set (ch 0)" "y \<in> set (ch 0)" "en s x \<le> bgn s y" for x y
  proof -
    have xy: "used s x" "used s y" "par s x = 0" "par s y = 0"
      using links_list_used [OF l] that(1,2) by auto
    then have "bgn s x < en s x" "bgn s y < en s y" using used_bounds(3) [OF t] by blast+
    moreover have "en s c \<le> lo \<or> hi \<le> bgn s c" if "used s c" "par s c = par s b" "c \<noteq> b" for c
      using f that by (auto simp: fits_def)
    ultimately show ?thesis using xy that(3) ub by (fastforce simp: e)
  qed
  then show "sorted_wrt (\<lambda>x y. en s' x \<le> bgn s' y) (ch 0)"
    by (rule sorted_wrt_mono_rel [OF _ links_top(1) [OF l]])
  show "nommap_bigalloc s' \<in> set (ch 0)" using links_top(2) [OF l] by (simp add: e)
qed

text \<open>The page index follows: pages gained go to \<open>b\<close>, pages lost to its parent.\<close>

lemma index_rebound:
  assumes t: "tree_ok s" and i: "index_ok s" and r: "rebounded s b lo hi s'" and f: "fits s b lo hi"
    and ix: "\<And>pg. pageindex s' pg =
      (if spans s' b pg \<and> \<not> spans s b pg then b
       else if spans s b pg \<and> \<not> spans s' b pg then par s b else pageindex s pg)"
  shows "index_ok s'"
proof -
  note u = rebounded_used [OF r f] and e = rebounded_fields [OF r]
  have ub: "used s b" using f by (simp add: fits_def)
  have pb: "par s b \<noteq> b"
    using desc_child_parent [OF t ub] desc_self [OF ub] used_bounds(1) [OF t ub] by fastforce
  have old: "spans s' c pg = spans s c pg" if "c \<noteq> b" for c pg using that by (simp add: spans_def u e)
  have up: "spans s (par s c) pg" if "used s c" "par s c \<noteq> 0" "spans s c pg" for c pg
    using used_parent [OF t that(1,2)] that(3) by (auto simp: spans_def)
  show ?thesis
    unfolding index_ok_def
  proof (intro allI conjI impI)
    fix pg assume nz: "pageindex s' pg \<noteq> 0"
    have "spans s (pageindex s pg) pg" if "pageindex s pg \<noteq> 0"
      using i that by (simp add: index_ok_def)
    then show "spans s' (pageindex s' pg) pg"
      using nz old up [OF ub] pb
      by (cases "pageindex s pg = b") (auto simp: ix split: if_splits)
  next
    fix pg c assume c: "used s' c \<and> par s' c = pageindex s' pg"
    then have uc: "used s c" "par s c = pageindex s' pg" by (simp_all add: u e)
    have np: "\<not> spans s c pg" if "pageindex s pg = par s c"
      using i uc(1) that by (simp add: index_ok_def)
    show "\<not> spans s' c pg"
    proof (cases "c = b")
      case True
      then show ?thesis using uc pb np by (auto simp: ix split: if_splits)
    next
      case False
      have "\<not> spans s c pg" if "spans s b pg" "par s c = par s b"
        using tree_siblings [OF t uc(1) ub that(2) False] that(1) by (auto simp: spans_def)
      then show ?thesis
        using uc up [OF uc(1)] np old [OF False] used_bounds(1) [OF t ub]
        by (auto simp: ix split: if_splits)
    qed
  qed
qed

lemma inv_rebound:
  assumes "pi_inv s" "rebounded s b lo hi s'" "fits s b lo hi"
    "\<And>pg. pageindex s' pg =
      (if spans s' b pg \<and> \<not> spans s b pg then b
       else if spans s b pg \<and> \<not> spans s' b pg then par s b else pageindex s pg)"
  shows "pi_inv s'"
  using assms tree_rebound links_rebound index_rebound unfolding pi_inv_def by metis

section \<open>The end\<close>

lemma spans_rebound:
  assumes "rebounded s b lo hi s'" "fits s b lo hi"
  shows "spans s' b pg \<longleftrightarrow> lo \<le> pg * 4096 \<and> (pg + 1) * 4096 \<le> hi"
  using assms(2) unfolding spans_def rebounded_used [OF assms] rebounded_fields [OF assms(1)]
  by (simp add: fits_def)

text \<open>The pages between two ends.\<close>

lemma fill_ends:
  assumes "lo \<le> page_down e1 * 4096"
  shows "page_down e1 \<le> pg \<and> pg < page_down e1 + (page_down e2 - page_down e1) \<longleftrightarrow>
    lo \<le> pg * 4096 \<and> e1 < (pg + 1) * 4096 \<and> (pg + 1) * 4096 \<le> e2"
proof -
  have "lo \<le> pg * 4096" if "page_down e1 \<le> pg"
    using mult_le_mono1 [OF that, of 4096] assms by simp
  then show ?thesis using page_down_le [of e1 pg] less_page_down [of pg e2] by auto
qed

lemma ends_count:
  assumes "lo \<le> page_down e1 * 4096" "e2 - lo \<le> n"
  shows "page_down e2 - page_down e1 \<le> n div 2 ^ 12"
proof -
  have "page_down e2 * 4096 \<le> e2" by (simp add: page_down_div)
  then have "(page_down e2 - page_down e1) * 4096 \<le> n"
    using assms by (simp add: diff_mult_distrib)
  then show ?thesis using less_eq_div_iff_mult_less_eq [of 4096 _ n] by simp
qed

lemma par_16: "tree_ok s \<Longrightarrow> used s b \<Longrightarrow> par s b < 2 ^ 16"
  using used_parent(1) [of s b] used_bounds(2) [of s "par s b"]
  by (cases "par s b = 0") (auto simp: NBIGALLOCS_def)

lemma extend_ok:
  assumes "pi_inv s" "fits s b (bgn s b) new_end" "en s b \<le> new_end"
    "bgn s b \<le> ROUND_DOWN (en s b) PAGE_SIZE"
  shows "\<exists>s'. extend_bigalloc b new_end s = Inr s' \<and> pi_inv s' \<and>
    rebounded s b (bgn s b) new_end s'"
proof -
  let ?lo = "bgn s b" and ?e = "en s b"
  obtain ch where t: "tree_ok s" using pi_invE [OF assms(1)] by blast
  have ub: "used s b" using assms(2) by (simp add: fits_def)
  have lo: "?lo \<le> page_down ?e * 4096"
    using assms(4) by (simp add: ROUND_DOWN_def PAGE_SIZE_def page_down_div)
  define s1 where "s1 = upd b (\<lambda>r. r\<lparr>ba_end := new_end\<rparr>) s"
  define s' where "s' = s1\<lparr>pageindex := fill (page_down ?e) b (page_down new_end - page_down ?e) (pageindex s)\<rparr>"
  have "b < 2 ^ 16" "page_down new_end - page_down ?e \<le> biggest_sane s1 div 2 ^ 12"
    using used_bounds(2) [OF t ub] NBIGALLOCS_16 ends_count [OF lo] assms(2)
    by (auto simp: fits_def s1_def)
  then have ev: "extend_bigalloc b new_end s = Inr s'"
    using memset_bigalloc_ok [of b _ s1 "page_down ?e"]
    by (simp add: extend_bigalloc_def Let_def s'_def s1_def page_down_def PAGE_DIST_diff)
  have r: "rebounded s b ?lo new_end s'"
    unfolding rebounded_def by (intro exI [of _ "pageindex s'"]) (simp add: s'_def s1_def upd_def)
  have "pi_inv s'"
  proof (rule inv_rebound [OF assms(1) r assms(2)])
    fix pg
    have sp: "spans s b pg \<longleftrightarrow> ?lo \<le> pg * 4096 \<and> (pg + 1) * 4096 \<le> ?e" using ub by (simp add: spans_def)
    show "pageindex s' pg = (if spans s' b pg \<and> \<not> spans s b pg then b
        else if spans s b pg \<and> \<not> spans s' b pg then par s b else pageindex s pg)"
      unfolding spans_rebound [OF r assms(2)] sp
      using fill_ends [OF lo, of pg new_end] assms(3) by (auto simp: s'_def fill_def)
  qed
  then show ?thesis using ev r by blast
qed

lemma truncate_end_ok:
  assumes "pi_inv s" "fits s b (bgn s b) new_end" "new_end \<le> en s b"
    "bgn s b \<le> ROUND_DOWN new_end PAGE_SIZE"
  shows "\<exists>s'. truncate_bigalloc_at_end b new_end s = Inr s' \<and> pi_inv s' \<and>
    rebounded s b (bgn s b) new_end s'"
proof -
  let ?lo = "bgn s b" and ?e = "en s b"
  obtain ch where t: "tree_ok s" using pi_invE [OF assms(1)] by blast
  have ub: "used s b" using assms(2) by (simp add: fits_def)
  have lo: "?lo \<le> page_down new_end * 4096"
    using assms(4) by (simp add: ROUND_DOWN_def PAGE_SIZE_def page_down_div)
  define s1 where "s1 = upd b (\<lambda>r. r\<lparr>ba_end := new_end\<rparr>) s"
  define s' where "s' = s1\<lparr>pageindex :=
      fill (page_down new_end) (par s b) (page_down ?e - page_down new_end) (pageindex s)\<rparr>"
  have "par s b < 2 ^ 16" "page_down ?e - page_down new_end \<le> biggest_sane s1 div 2 ^ 12"
    using par_16 [OF t ub] ends_count [OF lo used_bounds(5) [OF t ub]] by (auto simp: s1_def)
  then have ev: "truncate_bigalloc_at_end b new_end s = Inr s'"
    using memset_bigalloc_ok [of "par s b" _ s1 "page_down new_end"]
    by (simp add: truncate_bigalloc_at_end_def Let_def s'_def s1_def page_down_def PAGE_DIST_diff)
  have r: "rebounded s b ?lo new_end s'"
    unfolding rebounded_def by (intro exI [of _ "pageindex s'"]) (simp add: s'_def s1_def upd_def)
  have "pi_inv s'"
  proof (rule inv_rebound [OF assms(1) r assms(2)])
    fix pg
    have sp: "spans s b pg \<longleftrightarrow> ?lo \<le> pg * 4096 \<and> (pg + 1) * 4096 \<le> ?e" using ub by (simp add: spans_def)
    show "pageindex s' pg = (if spans s' b pg \<and> \<not> spans s b pg then b
        else if spans s b pg \<and> \<not> spans s' b pg then par s b else pageindex s pg)"
      unfolding spans_rebound [OF r assms(2)] sp
      using fill_ends [OF lo, of pg ?e] assms(3) by (auto simp: s'_def fill_def)
  qed
  then show ?thesis using ev r by blast
qed

lemma adjust_end_ok:
  assumes "pi_inv s" "fits s b (bgn s b) new_end"
    "bgn s b \<le> ROUND_DOWN (min (en s b) new_end) PAGE_SIZE"
  shows "\<exists>s'. adjust_bigalloc_end b new_end s = Inr s' \<and> pi_inv s' \<and>
    rebounded s b (bgn s b) new_end s'"
proof (cases "new_end = en s b")
  case True
  have "rebounded s b (bgn s b) new_end s"
    unfolding rebounded_def using True by (intro exI [of _ "pageindex s"]) (simp add: upd_def)
  then show ?thesis using assms(1) True by (simp add: adjust_bigalloc_end_def)
next
  case False
  then show ?thesis
    using extend_ok [OF assms(1,2)] truncate_end_ok [OF assms(1,2)] assms(3)
    by (cases "new_end < en s b") (auto simp: adjust_bigalloc_end_def min_def)
qed

text \<open>
  C7. Moving the end of a big allocation, out or in, succeeds and keeps the
  state consistent, when the new range fits among the parent, the siblings and
  the children and the allocation begins no later than the page boundary at or
  below the smaller of its two ends.
\<close>

theorem adjust_end_correct:
  assumes "pi_inv s" "fits s b (bgn s b) new_end"
    "bgn s b \<le> ROUND_DOWN (min (en s b) new_end) PAGE_SIZE"
  shows "\<exists>s'. adjust_bigalloc_end b new_end s = Inr s' \<and> pi_inv s' \<and>
    rebounded s b (bgn s b) new_end s'"
  by (rule adjust_end_ok [OF assms])

text \<open>
  C8. That an allocation begins no later than the page boundary below its end is needed when its
  end is moved: if it begins after that boundary (it lies inside one page, say), extending it
  past the page's end maps that page to it although it does not span it, and the page
  index is no longer consistent.
\<close>

theorem extend_misindexes:
  assumes "used s b" "b < NBIGALLOCS" "0 < b" "ROUND_DOWN (en s b) PAGE_SIZE < bgn s b"
    "PAGENUM (en s b) < PAGENUM new_end" "extend_bigalloc b new_end s = Inr s'"
  shows "pageindex s' (PAGENUM (en s b)) = b \<and> \<not> spans s' b (PAGENUM (en s b)) \<and> \<not> index_ok s'"
proof -
  let ?pg = "PAGENUM (en s b)"
  have b16: "b < 2 ^ 16" by (rule NBIGALLOCS_16 [OF assms(2)])
  have pd: "PAGENUM (ROUND_DOWN x PAGE_SIZE) = PAGENUM x" for x
    by (simp add: PAGENUM_def ROUND_DOWN_def PAGE_SIZE_def)
  have s': "s' = (upd b (\<lambda>r. r\<lparr>ba_end := new_end\<rparr>) s)\<lparr>pageindex :=
      fill ?pg b (PAGENUM new_end - ?pg) (pageindex s)\<rparr>"
    using assms(6) memset_entries_fill [OF b16]
    by (auto simp: extend_bigalloc_def Let_def memset_bigalloc_def PAGE_DIST_diff pd split: if_splits)
  then have "pageindex s' ?pg = b" using assms(5) by (simp add: fill_def)
  moreover have "\<not> spans s' b ?pg"
    using assms(4) by (simp add: s' spans_def PAGENUM_div ROUND_DOWN_def PAGE_SIZE_def)
  ultimately show ?thesis using assms(3) unfolding index_ok_def by (metis less_irrefl)
qed

section \<open>The beginning\<close>

lemma truncate_beginning_ok:
  assumes "pi_inv s" "fits s b new_begin (en s b)" "bgn s b \<le> new_begin"
    "ROUND_UP new_begin PAGE_SIZE \<le> en s b"
  shows "\<exists>s'. truncate_bigalloc_at_beginning b new_begin s = Inr s' \<and> pi_inv s' \<and>
    rebounded s b new_begin (en s b) s'"
proof -
  let ?lo = "bgn s b" and ?e = "en s b"
  obtain ch where t: "tree_ok s" using pi_invE [OF assms(1)] by blast
  have ub: "used s b" using assms(2) by (simp add: fits_def)
  have hi: "page_up new_begin * 4096 \<le> ?e"
    using assms(4) by (simp add: ROUND_UP_def PAGE_SIZE_def page_up_div ac_simps)
  define s1 where "s1 = upd b (\<lambda>r. r\<lparr>ba_begin := new_begin\<rparr>) s"
  define s' where "s' = s1\<lparr>pageindex :=
      fill (page_up ?lo) (par s b) (page_up new_begin - page_up ?lo) (pageindex s)\<rparr>"
  have "page_up new_begin \<le> page_down ?e"
    using hi less_eq_div_iff_mult_less_eq [of 4096 "page_up new_begin" ?e] by (simp add: page_down_div)
  then have "par s b < 2 ^ 16" "page_up new_begin - page_up ?lo \<le> biggest_sane s1 div 2 ^ 12"
    using par_16 [OF t ub] page_count_sane [OF used_bounds(5) [OF t ub]] by (auto simp: s1_def)
  then have ev: "truncate_bigalloc_at_beginning b new_begin s = Inr s'"
    using memset_bigalloc_ok [of "par s b" _ s1 "page_up ?lo"]
    by (simp add: truncate_bigalloc_at_beginning_def Let_def s'_def s1_def page_up_def PAGE_DIST_diff)
  have r: "rebounded s b new_begin ?e s'"
    unfolding rebounded_def by (intro exI [of _ "pageindex s'"]) (simp add: s'_def s1_def upd_def)
  have "pi_inv s'"
  proof (rule inv_rebound [OF assms(1) r assms(2)])
    fix pg
    have sp: "spans s b pg \<longleftrightarrow> ?lo \<le> pg * 4096 \<and> (pg + 1) * 4096 \<le> ?e" using ub by (simp add: spans_def)
    have "(pg + 1) * 4096 \<le> ?e" if "pg < page_up new_begin"
      using mult_le_mono1 [of "pg + 1" "page_up new_begin" 4096] that hi by simp
    then have "page_up ?lo \<le> pg \<and> pg < page_up ?lo + (page_up new_begin - page_up ?lo) \<longleftrightarrow>
        ?lo \<le> pg * 4096 \<and> (pg + 1) * 4096 \<le> ?e \<and> \<not> new_begin \<le> pg * 4096"
      using page_up_le [of ?lo pg] less_page_up [of pg new_begin] by auto
    then show "pageindex s' pg = (if spans s' b pg \<and> \<not> spans s b pg then b
        else if spans s b pg \<and> \<not> spans s' b pg then par s b else pageindex s pg)"
      unfolding spans_rebound [OF r assms(2)] sp
      using assms(3) by (auto simp: s'_def fill_def)
  qed
  then show ?thesis using ev r by blast
qed

text \<open>The descent that looks for an allocation strictly below another one.\<close>

lemma child_is_ok:
  assumes t: "tree_ok s"
  shows "at_children s p cs fuel \<Longrightarrow> child_is fuel s n (hd0 cs) = Inr (n \<in> set cs)"
proof (induction cs arbitrary: fuel)
  case Nil
  show ?case by (subst child_is.simps) simp
next
  case (Cons x xs)
  note x = at_childrenD [OF t Cons.prems]
  show ?case
    using Cons.IH [OF x(6)] x(3-5) by (subst child_is.simps) auto
qed

lemma strict_desc_iff:
  assumes "tree_ok s" "used s b" "set cs = {c. used s c \<and> par s c = b}"
  shows "n \<in> desc s b - {b} \<longleftrightarrow> n \<in> set cs \<or> (\<exists>c\<in>set cs. n \<in> desc s c - {c})"
proof -
  have "n \<in> desc s c \<longleftrightarrow> n = c \<or> n \<in> desc s c - {c}" if "c \<in> set cs" for c
    using desc_self [of s c] that assms(3) by blast
  moreover have "n \<in> desc s b - {b} \<longleftrightarrow> (\<exists>c\<in>set cs. n \<in> desc s c)"
    unfolding under_children [OF assms, symmetric] under_def by blast
  ultimately show ?thesis by blast
qed

lemma levels_under_ok:
  assumes t: "tree_ok s" and l: "links_ok s ch"
  shows "at_children s p cs fuel \<Longrightarrow>
    levels_under fuel s n (hd0 cs) = Inr (\<exists>c\<in>set cs. n \<in> desc s c - {c})"
proof (induction fuel arbitrary: p cs rule: less_induct)
  case (less fuel)
  show ?case
  proof (cases cs)
    case Nil
    then show ?thesis by (subst levels_under.simps) simp
  next
    case (Cons x xs)
    note x = at_childrenD [OF t less.prems [unfolded Cons]]
    have kids: "set (ch x) = {c. used s c \<and> par s c = x}"
      by (rule links_child(3) [OF l disjI2 [OF x(1)]])
    have c1: "child_is NBIGALLOCS s n (hd0 (ch x)) = Inr (n \<in> set (ch x))"
      by (rule child_is_ok [OF t at_children_all [OF t l x(1)]])
    have c2: "levels_under (fuel - 1) s n (hd0 (ch x)) = Inr (\<exists>c\<in>set (ch x). n \<in> desc s c - {c})"
      using less.IH [OF _ at_children_below [OF t l x(1,7)]] x(5) by simp
    have c3: "levels_under (fuel - 1) s n (hd0 xs) = Inr (\<exists>c\<in>set xs. n \<in> desc s c - {c})"
      using less.IH [OF _ x(6)] x(5) by simp
    have "levels_under fuel s n x =
        Inr ((n \<noteq> x \<and> (n \<in> set (ch x) \<or> (\<exists>c\<in>set (ch x). n \<in> desc s c - {c}))) \<or>
             (\<exists>c\<in>set xs. n \<in> desc s c - {c}))"
      using x(3,5) by (subst levels_under.simps)
        (auto simp only: x(4) links_fch [OF l x(1)] c1 c2 c3 rbind.simps split: if_splits)
    then show ?thesis
      unfolding strict_desc_iff [OF t x(1) kids, symmetric] Cons by auto
  qed
qed

lemma is_under_ok:
  assumes "tree_ok s" "links_ok s ch" "used s b"
  shows "is_one_or_more_levels_under s n b = Inr (n \<in> desc s b - {b})"
proof -
  have kids: "set (ch b) = {c. used s c \<and> par s c = b}"
    by (rule links_child(3) [OF assms(2) disjI2 [OF assms(3)]])
  note at = at_children_all [OF assms]
  have "is_one_or_more_levels_under s n b =
      Inr (n \<noteq> b \<and> (n \<in> set (ch b) \<or> (\<exists>c\<in>set (ch b). n \<in> desc s c - {c})))"
    using child_is_ok [OF assms(1) at, of n] levels_under_ok [OF assms(1,2) at, of n]
      links_fch [OF assms(2,3)] by (simp add: is_one_or_more_levels_under_def)
  then show ?thesis unfolding strict_desc_iff [OF assms(1,3) kids, symmetric] by auto
qed

lemma rebounded_begin: "rebounded s b x (en s b) (upd b (\<lambda>r. r\<lparr>ba_begin := x\<rparr>) s)"
  unfolding rebounded_def by (intro exI [of _ "pageindex s"]) (simp add: upd_def)

text \<open>
  If the page of the old beginning is mapped strictly below the allocation,
  the beginning is on a page boundary.
\<close>

lemma mapped_below_aligned:
  assumes "tree_ok s" "index_ok s" "used s b" "pageindex s (PAGENUM (bgn s b)) \<in> desc s b - {b}"
  shows "page_up (bgn s b) = page_down (bgn s b)"
proof -
  let ?pg = "PAGENUM (bgn s b)" and ?n = "pageindex s (PAGENUM (bgn s b))"
  have n: "anc s b ?n" "used s ?n" using assms(4) by (auto simp: desc_def)
  have "spans s ?n ?pg" using assms(2) used_bounds(1) [OF assms(1) n(2)] by (auto simp: index_ok_def)
  then have "bgn s b \<le> ?pg * 4096"
    using anc_bounds [OF assms(1) n] by (simp add: spans_def)
  then show ?thesis
    using page_up_le [of "bgn s b" ?pg] page_down_le_up [of "bgn s b"]
    by (simp add: PAGENUM_div page_down_div)
qed

lemma desc_rebound:
  assumes "rebounded s b lo hi s'" "fits s b lo hi"
  shows "desc s' i = desc s i"
proof -
  note e = rebounded_fields [OF assms(1)] rebounded_used [OF assms]
  have "anc s i j" if "anc s' i j" for j
    using that by induction (auto simp: e intro: anc.intros)
  moreover have "anc s' i j" if "anc s i j" for j
    using that by induction (auto simp: e intro: anc_refl anc_step [of s'])
  ultimately show ?thesis unfolding desc_def e by blast
qed

text \<open>
  The pages gained at the beginning: whether the page of the old beginning is
  among them depends on the end and on who has that page.
\<close>

lemma begin_pages:
  assumes "lo < e" "whole \<longleftrightarrow> PAGENUM e > PAGENUM lo \<and> \<not> below"
    "below \<Longrightarrow> page_up lo = page_down lo"
    "lim = (if whole then page_up lo else page_down lo)"
  shows "page_up new \<le> pg \<and> pg < page_up new + (lim - page_up new) \<longleftrightarrow>
      new \<le> pg * 4096 \<and> (pg + 1) * 4096 \<le> e \<and> \<not> lo \<le> pg * 4096"
    "lim \<le> page_down e"
proof -
  have pd: "page_down x = PAGENUM x" for x by (simp add: page_down_div PAGENUM_div)
  have up: "page_up lo \<le> page_down lo + 1" by (simp add: page_up_div page_down_div)
  have mono: "page_down lo \<le> page_down e" using assms(1) by (simp add: page_down_div div_le_mono)
  show "lim \<le> page_down e" using assms(2,4) up mono by (auto simp: pd)
  have "pg < lim \<longleftrightarrow> pg < page_up lo \<and> pg < page_down e"
    using assms(2-4) up mono page_down_le_up [of lo] by (auto simp: pd)
  then show "page_up new \<le> pg \<and> pg < page_up new + (lim - page_up new) \<longleftrightarrow>
      new \<le> pg * 4096 \<and> (pg + 1) * 4096 \<le> e \<and> \<not> lo \<le> pg * 4096"
    using page_up_le [of new pg] less_page_up [of pg lo] less_page_down [of pg e] by auto
qed

lemma pre_extend_ok:
  assumes "pi_inv s" "fits s b new_begin (en s b)" "new_begin < bgn s b"
  shows "\<exists>s'. pre_extend_bigalloc b new_begin s = Inr s' \<and> pi_inv s' \<and>
    rebounded s b new_begin (en s b) s'"
proof -
  let ?lo = "bgn s b" and ?e = "en s b" and ?pg = "PAGENUM (bgn s b)"
  obtain ch where w: "tree_ok s" "links_ok s ch" "index_ok s" using pi_invE [OF assms(1)] .
  have ub: "used s b" using assms(2) by (simp add: fits_def)
  define s1 where "s1 = upd b (\<lambda>r. r\<lparr>ba_begin := new_begin\<rparr>) s"
  have r1: "rebounded s b new_begin ?e s1" by (simp add: s1_def rebounded_begin)
  have w1: "tree_ok s1" "links_ok s1 ch" "used s1 b"
    using tree_rebound [OF w(1) r1 assms(2)] links_rebound [OF w(1,2) r1 assms(2)]
      rebounded_used [OF r1 assms(2)] ub by auto
  have "desc s1 b = desc s b" by (rule desc_rebound [OF r1 assms(2)])
  then have under: "is_one_or_more_levels_under s1 (pageindex s1 ?pg) b =
      Inr (pageindex s ?pg \<in> desc s b - {b})"
    using is_under_ok [OF w1] by (simp add: s1_def)
  define whole where "whole \<longleftrightarrow> PAGENUM ?e > ?pg \<and> pageindex s ?pg \<notin> desc s b - {b}"
  define lim where "lim = (if whole then page_up ?lo else page_down ?lo)"
  define s' where "s' = s1\<lparr>pageindex := fill (page_up new_begin) b (lim - page_up new_begin) (pageindex s)\<rparr>"
  note pages = begin_pages [OF used_bounds(3) [OF w(1) ub] whole_def
      mapped_below_aligned [OF w(1,3) ub] lim_def]
  have "b < 2 ^ 16" "lim - page_up new_begin \<le> biggest_sane s1 div 2 ^ 12"
    using used_bounds(2) [OF w(1) ub] NBIGALLOCS_16 pages(2) page_count_sane [of ?e new_begin s]
      assms(2) by (auto simp: fits_def s1_def)
  then have ev: "pre_extend_bigalloc b new_begin s = Inr s'"
    using memset_bigalloc_ok [of b "lim - page_up new_begin" s1 "page_up new_begin"] under assms(3)
    unfolding pre_extend_bigalloc_def Let_def s1_def [symmetric]
    by (auto simp: s1_def s'_def lim_def whole_def page_up_def page_down_def PAGE_DIST_diff)
  have r: "rebounded s b new_begin ?e s'"
    unfolding rebounded_def by (intro exI [of _ "pageindex s'"]) (simp add: s'_def s1_def upd_def)
  have "pi_inv s'"
  proof (rule inv_rebound [OF assms(1) r assms(2)])
    fix pg
    have sp: "spans s b pg \<longleftrightarrow> ?lo \<le> pg * 4096 \<and> (pg + 1) * 4096 \<le> ?e" using ub by (simp add: spans_def)
    show "pageindex s' pg = (if spans s' b pg \<and> \<not> spans s b pg then b
        else if spans s b pg \<and> \<not> spans s' b pg then par s b else pageindex s pg)"
      unfolding spans_rebound [OF r assms(2)] sp
      using pages(1) [of new_begin pg] assms(3) by (auto simp: s'_def fill_def)
  qed
  then show ?thesis using ev r by blast
qed

text \<open>
  C9. Moving the beginning of a big allocation, out or in, succeeds and keeps
  the state consistent when the new range fits; a truncation must leave the
  page boundary at or above the new beginning inside the allocation.
\<close>

theorem move_beginning_correct:
  assumes "pi_inv s" "fits s b new_begin (en s b)"
  shows "(new_begin < bgn s b \<longrightarrow>
      (\<exists>s'. pre_extend_bigalloc b new_begin s = Inr s' \<and> pi_inv s' \<and>
        rebounded s b new_begin (en s b) s')) \<and>
    (bgn s b \<le> new_begin \<and> ROUND_UP new_begin PAGE_SIZE \<le> en s b \<longrightarrow>
      (\<exists>s'. truncate_bigalloc_at_beginning b new_begin s = Inr s' \<and> pi_inv s' \<and>
        rebounded s b new_begin (en s b) s'))"
  using pre_extend_ok [OF assms] truncate_beginning_ok [OF assms] by blast

end
