(* ===== verification/Pageindex_Laws.thy ===== *)
theory Pageindex_Laws
  imports Pageindex_Bounds
begin

text \<open>
  The page index as its clients see it: an interface of nested allocations with
  a lookup by address, its laws, their proof for \<open>find_deepest_bigalloc\<close>,
  and what follows for creation and deletion.  Also the searches whose code does
  not do what it sets out to do.
\<close>

section \<open>The interface\<close>

text \<open>
  A set of live allocations, each holding some addresses and ordered by
  nesting; a lookup returns the innermost one holding an address.
\<close>

locale nested_allocations =
  fixes inv :: "'s \<Rightarrow> bool"
    and live :: "'s \<Rightarrow> 'b \<Rightarrow> bool"
    and holds :: "'s \<Rightarrow> 'b \<Rightarrow> addr \<Rightarrow> bool"
    and above :: "'s \<Rightarrow> 'b \<Rightarrow> 'b \<Rightarrow> bool"
    and lookup :: "'s \<Rightarrow> addr \<Rightarrow> 'b option"
  assumes lookup_some: "inv s \<Longrightarrow> live s i \<Longrightarrow> holds s i a \<Longrightarrow>
      \<exists>b. lookup s a = Some b \<and> live s b \<and> holds s b a \<and> above s i b"
    and above_antisym: "inv s \<Longrightarrow> above s i j \<Longrightarrow> above s j i \<Longrightarrow> i = j"
    and lookup_none: "inv s \<Longrightarrow> lookup s a = Some b \<Longrightarrow> live s b \<and> holds s b a"
begin

lemma lookup_innermost:
  assumes "inv s" "live s b" "holds s b a" "\<And>i. live s i \<Longrightarrow> holds s i a \<Longrightarrow> above s i b"
  shows "lookup s a = Some b"
  using lookup_some [OF assms(1-3)] assms(4) above_antisym [OF assms(1)] by blast

lemma lookup_None_iff:
  assumes "inv s"
  shows "lookup s a = None \<longleftrightarrow> (\<forall>i. live s i \<longrightarrow> \<not> holds s i a)"
  using lookup_some [OF assms] lookup_none [OF assms] by (metis not_None_eq option.distinct(1))

text \<open>A state with the same innermost holder gives the same answer.\<close>

lemma lookup_transfer:
  assumes "inv s" "inv s'" "lookup s a = Some b" "live s' b" "holds s' b a"
    "\<And>i. live s' i \<Longrightarrow> holds s' i a \<Longrightarrow> live s i \<and> holds s i a"
    "\<And>i. live s i \<Longrightarrow> above s i b \<Longrightarrow> above s' i b"
  shows "lookup s' a = Some b"
proof (rule lookup_innermost [OF assms(2,4,5)])
  fix i assume "live s' i" "holds s' i a"
  then have i: "live s i" "holds s i a" using assms(6) by blast+
  then have "above s i b" using lookup_some [OF assms(1) i] assms(3) by auto
  then show "above s' i b" using assms(7) i by blast
qed

end

text \<open>
  The lookup of the page index, with null as \<open>None\<close>; the handlers do not
  claim an address that no allocation contains.
\<close>

definition no_hooks :: "'s hooks" where
  "no_hooks = \<lparr>h_stack_notify_unindexed = \<lambda>a s. Inr (False, s),
     h_mmap_notify_unindexed = \<lambda>a s. Inr (False, s),
     h_brk_notify = Inr, h_mmap_init = Inr\<rparr>"

definition deepest_lookup :: "'a pi_state_scheme \<Rightarrow> addr \<Rightarrow> nat option" where
  "deepest_lookup s a =
     (case find_deepest_bigalloc no_hooks a s of
        Inl e \<Rightarrow> None | Inr (b, s') \<Rightarrow> if b = 0 then None else Some b)"

lemma deepest_lookup_some:
  assumes "pi_inv s" "used s i" "contains_addr s i a"
  shows "\<exists>b. deepest_lookup s a = Some b \<and> deepest_at s a b"
proof -
  obtain b where b: "find_deepest_bigalloc no_hooks a s = Inr (b, s)" "deepest_at s a b"
    using find_deepest_ok [OF assms] by blast
  have "b \<noteq> 0" using b(2) used_bounds(1) [of s b] assms(1) by (auto simp: deepest_at_def pi_inv_def)
  then show ?thesis using b by (simp add: deepest_lookup_def)
qed

lemma deepest_lookup_none:
  assumes "pi_inv s" "deepest_lookup s a = Some b"
  shows "used s b \<and> contains_addr s b a"
proof (cases "pageindex s (PAGENUM a) = 0")
  case True
  then show ?thesis
    using assms(2)
    by (simp add: deepest_lookup_def find_deepest_bigalloc_def notify_unindexed_address_def no_hooks_def)
next
  case False
  then have "used s (pageindex s (PAGENUM a))" "contains_addr s (pageindex s (PAGENUM a)) a"
    using index_entry [of s a] assms(1) by (auto simp: pi_inv_def)
  then show ?thesis
    using deepest_lookup_some [OF assms(1)] assms(2) by (fastforce simp: deepest_at_def)
qed

interpretation pix: nested_allocations pi_inv BIGALLOC_IN_USE contains_addr anc deepest_lookup
proof
  fix s :: "'a pi_state_scheme" and i j a b
  show "\<exists>b. deepest_lookup s a = Some b \<and> used s b \<and> contains_addr s b a \<and> anc s i b"
    if "pi_inv s" "used s i" "contains_addr s i a"
    using deepest_lookup_some [OF that] that(2,3) by (auto simp: deepest_at_def)
  show "i = j" if "pi_inv s" "anc s i j" "anc s j i"
    using anc_antisym that by (auto simp: pi_inv_def)
  show "used s b \<and> contains_addr s b a" if "pi_inv s" "deepest_lookup s a = Some b"
    by (rule deepest_lookup_none [OF that])
qed

section \<open>Creation, deletion and lookup\<close>

lemma deepest_above: "deepest_at s a b \<Longrightarrow> used s i \<Longrightarrow> contains_addr s i a \<Longrightarrow> anc s i b"
  by (simp add: deepest_at_def)

text \<open>
  C10. After a big allocation has been created in a clear range below a parent,
  every address of the range is found in it, and every address of the parent
  outside the range is found where it was before.
\<close>

theorem new_then_lookup:
  assumes "pi_inv s" "room s b p ptr (ptr + sz)" "find_free_bigalloc s = Inr b"
    "bigalloc_new ptr sz p priv pf al s = Inr (b', s')" "p \<noteq> 0" "contains_addr s p a"
  shows "deepest_lookup s' a =
    (if ptr \<le> a \<and> a < ptr + sz then Some b else deepest_lookup s a)"
proof -
  obtain s2 where s2: "bigalloc_new ptr sz p priv pf al s = Inr (b, s2)" "pi_inv s2"
    "placed s b p ptr (ptr + sz) s2"
    using bigalloc_new_ok [OF assms(1,3,2)] by blast
  then have i': "pi_inv s'" and pl: "placed s b p ptr (ptr + sz) s'" using assms(4) by auto
  have t: "tree_ok s" "tree_ok s'" using assms(1) i' by (auto simp: pi_inv_def)
  note u = placed_used [OF pl assms(2)]
  have f: "contains_addr s' i a = (if i = b then ptr \<le> a \<and> a < ptr + sz else contains_addr s i a)"
    "par s' i = (if i = b then p else par s i)" for i
    using pl by (auto simp: placed_def contains_addr_def)
  have bf: "\<not> used s b" "p \<noteq> b" "used s p" using assms(2,5) by (auto simp: room_def)
  show ?thesis
  proof (cases "ptr \<le> a \<and> a < ptr + sz")
    case True
    have "par s c \<noteq> b" if "used s c" for c using room_no_children(1) [OF t(1) assms(2) that] .
    then have "deepest_at s' a b"
      using True bf by (intro deepestI [OF t(2)]) (auto simp: u f)
    then have "deepest_lookup s' a = Some b"
      by (intro pix.lookup_innermost [OF i']) (auto simp: deepest_at_def)
    then show ?thesis using True by simp
  next
    case False
    obtain d where d: "deepest_lookup s a = Some d" "deepest_at s a d"
      using deepest_lookup_some [OF assms(1) bf(3) assms(6)] by blast
    then have db: "d \<noteq> b" "used s d" "contains_addr s d a" using bf by (auto simp: deepest_at_def)
    have "anc s' i d" if "anc s i d" for i
      using that db(1,2)
    proof induction
      case (anc_step i j)
      then have "par s j \<noteq> b" "used s (par s j)"
        using room_no_children(1) [OF t(1) assms(2)] used_parent(1) [OF t(1)] by blast+
      then show ?case using anc_step anc.anc_step [of s' i j] by (simp add: u f)
    qed (rule anc_refl)
    then have "deepest_lookup s' a = Some d"
      by (intro pix.lookup_transfer [OF assms(1) i' d(1)])
        (use db False in \<open>auto simp: u f split: if_splits\<close>)
    then show ?thesis unfolding if_not_P [OF False] d(1) .
  qed
qed

text \<open>
  After a nested big allocation has been deleted, every address it held is
  found in its parent.
\<close>

lemma delete_then_lookup:
  assumes "pi_inv s" "used s b" "par s b \<noteq> 0" "contains_addr s b a" "bigalloc_del b s = Inr s'"
  shows "deepest_lookup s' a = Some (par s b)"
proof -
  obtain ch where t: "tree_ok s" and l: "links_ok s ch" using pi_invE [OF assms(1)] by blast
  have "b \<noteq> nommap_bigalloc s"
    using nommap_not_under [OF t l anc_refl] assms(2,3) by blast
  then have i': "pi_inv s'" and pr: "pruned s (desc s b) (par s b) s'"
    using bigalloc_del_ok [OF assms(1,2)] assms(5) by auto
  let ?p = "par s b"
  have pd: "?p \<notin> desc s b" by (rule desc_child_parent [OF t assms(2) refl assms(3)])
  have up: "used s ?p" "contains_addr s ?p a"
    using used_parent [OF t assms(2,3)] assms(4) by (auto simp: contains_addr_def)
  note u = pruned_used [OF pr]
  have f: "contains_addr s' i a = contains_addr s i a" "par s' i = par s i" if "i \<notin> desc s b" for i
    using pr that by (auto simp: pruned_def contains_addr_def)
  have "\<not> contains_addr s' c a" if c: "used s' c" "par s' c = ?p" for c
  proof -
    have c': "used s c" "par s c = ?p" "c \<notin> desc s b" using c u f by auto
    then have "c \<noteq> b" using desc_self [OF assms(2)] by blast
    then show ?thesis
      using tree_siblings [OF t c'(1) assms(2) c'(2)] assms(4) f(1) [OF c'(3)]
      by (auto simp: contains_addr_def)
  qed
  then have "deepest_at s' a ?p"
    using u up pd f [OF pd] i' by (intro deepestI) (auto simp: pi_inv_def)
  then show ?thesis
    by (intro pix.lookup_innermost [OF i']) (auto simp: deepest_at_def)
qed

end
