(* ===== verification/Pageindex_Example.thy ===== *)
theory Pageindex_Example
  imports Pageindex_Laws
begin

text \<open>
  A small consistent state, on which the properties of the page index are
  exercised: the private heap (slot 1), a mapping (slot 2), an arena in it that
  ends in the middle of a page (slot 3), and one page in the arena (slot 4).
\<close>

definition ex_slot :: "addr \<Rightarrow> addr \<Rightarrow> nat \<Rightarrow> nat \<Rightarrow> nat \<Rightarrow> nat \<Rightarrow> allocator \<Rightarrow> big_allocation" where
  "ex_slot lo hi fc nx p pv al = empty_bigalloc\<lparr>ba_begin := lo, ba_end := hi,
     first_child := fc, next_sib := nx, parent := p, prev_sib := pv, allocated_by := Some al\<rparr>"

definition ex_slots :: "nat \<Rightarrow> big_allocation" where
  "ex_slots i =
     (if i = 1 then ex_slot 4096 12288 0 2 0 0 A_mmap
      else if i = 2 then ex_slot 65536 131072 3 0 0 1 A_mmap
      else if i = 3 then (ex_slot 69632 83968 4 0 2 0 A_default_lib_malloc)\<lparr>
        suballocator := Some A_generic_small, allocator_private := 7, allocator_private_free := 9\<rparr>
      else if i = 4 then ex_slot 73728 77824 0 0 3 0 A_generic_small
      else empty_bigalloc)"

definition ex_index :: "nat \<Rightarrow> nat" where
  "ex_index pg =
     (if pg = 18 then 4 else if 17 \<le> pg \<and> pg < 20 then 3
      else if 16 \<le> pg \<and> pg < 32 then 2 else if 1 \<le> pg \<and> pg < 3 then 1 else 0)"

definition ex_state :: pi_state where
  "ex_state = \<lparr>big_allocations = ex_slots, pageindex = ex_index, nommap_bigalloc = 1,
     systrap_is_initialized = True, freed = [], biggest_sane = 4294967296\<rparr>"

definition ex_children :: "nat \<Rightarrow> nat list" where
  "ex_children p = (if p = 0 then [1, 2] else if p = 2 then [3] else if p = 3 then [4] else [])"

lemma ex_fields:
  "bgn ex_state i = (if i = 1 then 4096 else if i = 2 then 65536 else if i = 3 then 69632
     else if i = 4 then 73728 else 0)"
  "en ex_state i = (if i = 1 then 12288 else if i = 2 then 131072 else if i = 3 then 83968
     else if i = 4 then 77824 else 0)"
  "par ex_state i = (if i = 3 then 2 else if i = 4 then 3 else 0)"
  "fch ex_state i = (if i = 2 then 3 else if i = 3 then 4 else 0)"
  "nxt ex_state i = (if i = 1 then 2 else 0)"
  "prv ex_state i = (if i = 2 then 1 else 0)"
  "nommap_bigalloc ex_state = 1" "pageindex ex_state = ex_index" "biggest_sane ex_state = 4294967296"
  "systrap_is_initialized ex_state"
  by (simp_all add: ex_state_def ex_slots_def ex_slot_def empty_bigalloc_def)

lemma ex_used: "used ex_state i \<longleftrightarrow> i = 1 \<or> i = 2 \<or> i = 3 \<or> i = 4"
  by (simp add: BIGALLOC_IN_USE_def ex_fields)

lemma ex_tree: "tree_ok ex_state"
proof (rule tree_okI [where d = "\<lambda>i. i"])
  fix i assume "used ex_state i"
  then show "slot_ok ex_state i"
    unfolding ex_used slot_ok_def by (elim disjE) (simp_all add: ex_fields ex_used NBIGALLOCS_def)
qed (auto simp: ex_used ex_fields split: if_splits)

lemma ex_links: "links_ok ex_state ex_children"
proof (rule links_okI)
  fix p assume p: "p = 0 \<or> used ex_state p"
  show "dll (nxt ex_state) (prv ex_state) 0 (ex_children p)"
    using p unfolding ex_used by (elim disjE) (simp_all add: ex_children_def ex_fields)
  show "distinct (ex_children p)" by (simp add: ex_children_def)
  show "set (ex_children p) = {c. used ex_state c \<and> par ex_state c = p}"
    using p unfolding ex_used by (elim disjE) (auto simp: ex_children_def ex_fields)
qed (auto simp: ex_used ex_fields ex_children_def)

lemma ex_index_ok: "index_ok ex_state"
  unfolding index_ok_def
proof (intro allI conjI impI)
  fix pg assume "pageindex ex_state pg \<noteq> 0"
  then show "spans ex_state (pageindex ex_state pg) pg"
    by (auto simp: spans_def ex_used ex_fields ex_index_def split: if_splits)
next
  fix pg c assume "used ex_state c \<and> par ex_state c = pageindex ex_state pg"
  then show "\<not> spans ex_state c pg"
    by (auto simp: spans_def ex_used ex_fields ex_index_def split: if_splits)
qed

lemma ex_inv: "pi_inv ex_state"
  using ex_tree ex_links ex_index_ok by (auto simp: pi_inv_def)

end
