(* ===== verification/Pageindex_Sanity.thy ===== *)
theory Pageindex_Sanity
  imports Pageindex_Example
begin

text \<open>
  The sanity checks that a debugging build runs around every operation, as
  predicates, and their proof from the invariant; deletion of everything in an
  address range; and three searches with concrete outcomes that differ from
  what the surrounding code relies on.
\<close>

section \<open>The assertions of the debugging build\<close>

definition bigalloc_compare_toplevel :: "'a pi_state_scheme \<Rightarrow> nat \<Rightarrow> nat \<Rightarrow> int" where
  "bigalloc_compare_toplevel s b1 b2 =
     (if bgn s b1 < bgn s b2 then - 1 else if bgn s b1 > bgn s b2 then 1 else 0)"

text \<open>
  The assertions of \<open>sanity_check_bigalloc\<close> about one allocation and its
  parent; \<open>PAGENUM (b->begin - 1)\<close> is well defined as a used slot does not
  begin at address 0.
\<close>

definition sanity_check_one :: "'a pi_state_scheme \<Rightarrow> nat \<Rightarrow> bool" where
  "sanity_check_one s b \<longleftrightarrow>
     en s b \<noteq> bgn s b \<and>
     pageindex s (PAGENUM (bgn s b - 1)) \<noteq> b \<and>
     pageindex s (PAGENUM (en s b)) \<noteq> b \<and>
     (case allocated_by (big_allocations s b) of None \<Rightarrow> True
      | Some al \<Rightarrow> min_alignment al = 0 \<or> bgn s b mod min_alignment al = 0) \<and>
     (par s b \<noteq> 0 \<longrightarrow>
        rbind (bigalloc_depth NBIGALLOCS s (par s b)) (\<lambda>d. Inr (1 + d)) =
          bigalloc_depth NBIGALLOCS s b \<and>
        bgn s b \<ge> bgn s (par s b) \<and> en s b \<le> en s (par s b))"

text \<open>
  The loop over the children compares each one's depth with that of the first
  child and checks it recursively; it starts at the second child, so the first
  child itself is never checked.
\<close>

fun sanity_check_children :: "nat \<Rightarrow> 'a pi_state_scheme \<Rightarrow> nat res \<Rightarrow> nat \<Rightarrow> bool" where
  "sanity_check_children fuel s first_child_depth child =
     (if child = 0 then True
      else if fuel = 0 then False
      else
        bigalloc_depth NBIGALLOCS s child = first_child_depth \<and>
        (BIGALLOC_IN_USE s child \<longrightarrow>
           sanity_check_one s child \<and>
           (let fc = first_child (big_allocations s child) in
            fc \<noteq> 0 \<longrightarrow>
              sanity_check_children (fuel - 1) s (bigalloc_depth NBIGALLOCS s fc)
                (next_sib (big_allocations s fc)))) \<and>
        sanity_check_children (fuel - 1) s first_child_depth (next_sib (big_allocations s child)))"

declare sanity_check_children.simps [simp del]

definition sanity_check_bigalloc :: "'a pi_state_scheme \<Rightarrow> nat \<Rightarrow> bool" where
  "sanity_check_bigalloc s b \<longleftrightarrow>
     (BIGALLOC_IN_USE s b \<longrightarrow>
        sanity_check_one s b \<and>
        (let fc = first_child (big_allocations s b) in
         fc \<noteq> 0 \<longrightarrow>
           sanity_check_children NBIGALLOCS s (bigalloc_depth NBIGALLOCS s fc)
             (next_sib (big_allocations s fc))))"

text \<open>Depth is the number of ancestors, and the fuel covers it.\<close>

lemma ups_self: "used s b \<Longrightarrow> b \<in> ups s b"
  by (simp add: ups_def anc_refl)

lemma depth_ok:
  assumes t: "tree_ok s"
  shows "used s b \<Longrightarrow> card (ups s b) \<le> fuel \<Longrightarrow> bigalloc_depth fuel s b = Inr (card (ups s b))"
proof (induction fuel arbitrary: b)
  case 0
  then show ?case using ups_self [OF 0(1)] finite_ups [OF t, of b] by auto
next
  case (Suc n)
  have b0: "b \<noteq> 0" using used_bounds(1) [OF t Suc.prems(1)] by simp
  show ?case
  proof (cases "par s b = 0")
    case True
    have "ups s b = {b}"
      using True Suc.prems(1) by (auto simp: ups_def intro: anc_refl elim: anc.cases)
    then show ?thesis
      using True b0 by (subst bigalloc_depth.simps) (simp add: bigalloc_depth.simps [where b = 0])
  next
    case False
    have "bigalloc_depth n s (par s b) = Inr (card (ups s (par s b)))"
      using Suc.IH [OF used_parent(1) [OF t Suc.prems(1) False]] Suc.prems(2)
        card_ups_parent [OF t Suc.prems(1) False] by simp
    then show ?thesis
      using b0 card_ups_parent [OF t Suc.prems(1) False] by (subst bigalloc_depth.simps) simp
  qed
qed

lemma depth_full:
  assumes "tree_ok s" "used s b"
  shows "bigalloc_depth NBIGALLOCS s b = Inr (card (ups s b))"
  using depth_ok [OF assms] card_ups_less [OF assms(1), of b] by simp

definition starts_aligned :: "'a pi_state_scheme \<Rightarrow> bool" where
  "starts_aligned s \<longleftrightarrow> (\<forall>i al. used s i \<and> allocated_by (big_allocations s i) = Some al \<and>
     min_alignment al \<noteq> 0 \<longrightarrow> bgn s i mod min_alignment al = 0)"

lemma sanity_one_ok:
  assumes "pi_inv s" "starts_aligned s" "used s b"
  shows "sanity_check_one s b"
proof -
  obtain ch where w: "tree_ok s" "links_ok s ch" "index_ok s" using pi_invE [OF assms(1)] .
  note ub = used_bounds [OF w(1) assms(3)]
  have ent: "spans s b pg" if "pageindex s pg = b" for pg
    using w(3) that ub(1) by (auto simp: index_ok_def)
  have "0 < bgn s b" using assms(3) by (simp add: BIGALLOC_IN_USE_def)
  then have "pageindex s (PAGENUM (bgn s b - 1)) \<noteq> b"
    using ent spans_contains [of s b "bgn s b - 1"] by (fastforce simp: contains_addr_def)
  moreover have "pageindex s (PAGENUM (en s b)) \<noteq> b"
    using ent spans_contains [of s b "en s b"] by (fastforce simp: contains_addr_def)
  moreover have "case allocated_by (big_allocations s b) of None \<Rightarrow> True
      | Some al \<Rightarrow> min_alignment al = 0 \<or> bgn s b mod min_alignment al = 0"
    using assms(2) [unfolded starts_aligned_def, rule_format, of b] assms(3)
    by (cases "allocated_by (big_allocations s b)") (auto, metis gr0I)
  ultimately show ?thesis
    using ub(3) used_parent [OF w(1) assms(3)] depth_full [OF w(1)] assms(3)
      card_ups_parent [OF w(1) assms(3)]
    by (auto simp: sanity_check_one_def)
qed

lemma sanity_children_ok:
  assumes i: "pi_inv s" "starts_aligned s" and t: "tree_ok s" and l: "links_ok s ch"
  shows "at_children s p cs fuel \<Longrightarrow> used s p \<Longrightarrow>
    sanity_check_children fuel s (Inr (Suc (card (ups s p)))) (hd0 cs)"
proof (induction fuel arbitrary: p cs rule: less_induct)
  case (less fuel)
  show ?case
  proof (cases cs)
    case Nil
    then show ?thesis by (subst sanity_check_children.simps) simp
  next
    case (Cons x xs)
    note x = at_childrenD [OF t less.prems(1) [unfolded Cons]]
    have p0: "p \<noteq> 0" using used_bounds(1) [OF t less.prems(2)] by simp
    have dx: "bigalloc_depth NBIGALLOCS s x = Inr (Suc (card (ups s p)))"
      using depth_full [OF t x(1)] card_ups_parent [OF t x(1)] x(2) p0 by simp
    have rest: "sanity_check_children (fuel - 1) s (Inr (Suc (card (ups s p)))) (hd0 xs)"
      using less.IH [OF _ x(6) less.prems(2)] x(5) by simp
    have deep: "fch s x \<noteq> 0 \<longrightarrow> sanity_check_children (fuel - 1) s
        (bigalloc_depth NBIGALLOCS s (fch s x)) (nxt s (fch s x))"
    proof
      assume "fch s x \<noteq> 0"
      then obtain y ys where y: "ch x = y # ys" using links_fch [OF l x(1)] by (cases "ch x") auto
      have at: "at_children s x (y # ys) (fuel - 1)"
        using at_children_below [OF t l x(1,7)] y by simp
      note yy = at_childrenD [OF t at]
      have "at_children s x ys (fuel - 1)" using yy(6) by (auto simp: at_children_def)
      then have "sanity_check_children (fuel - 1) s (Inr (Suc (card (ups s x)))) (hd0 ys)"
        using less.IH [of "fuel - 1" x ys] x(1,5) by simp
      then show "sanity_check_children (fuel - 1) s
          (bigalloc_depth NBIGALLOCS s (fch s x)) (nxt s (fch s x))"
        using depth_full [OF t yy(1)] card_ups_parent [OF t yy(1)] yy(2,4) x(3) y
          links_fch [OF l x(1)] by simp
    qed
    show ?thesis
      using Cons x(3-5) dx rest deep sanity_one_ok [OF i x(1)]
      by (subst sanity_check_children.simps) (simp add: Let_def)
  qed
qed

text \<open>
  In a consistent state whose allocations start at multiples of their
  allocators' alignment, the assertions of \<open>sanity_check_bigalloc\<close> hold of
  every slot, and the recursive check ends.
\<close>

lemma sanity_checks_pass:
  assumes "pi_inv s" "starts_aligned s"
  shows "sanity_check_bigalloc s b"
proof (cases "used s b \<and> fch s b \<noteq> 0")
  case True
  obtain ch where w: "tree_ok s" "links_ok s ch" "index_ok s" using pi_invE [OF assms(1)] .
  obtain y ys where y: "ch b = y # ys" using links_fch [OF w(2)] True by (cases "ch b") auto
  have at: "at_children s b (y # ys) NBIGALLOCS"
    using at_children_all [OF w(1,2)] True y by metis
  note yy = at_childrenD [OF w(1) at]
  have "at_children s b ys NBIGALLOCS" using yy(6) by (auto simp: at_children_def)
  then have "sanity_check_children NBIGALLOCS s (Inr (Suc (card (ups s b)))) (hd0 ys)"
    using sanity_children_ok [OF assms w(1,2)] True by blast
  then show ?thesis
    using sanity_one_ok [OF assms] True links_fch [OF w(2)] y yy(2,4) used_bounds(1) [OF w(1), of b]
      depth_full [OF w(1) yy(1)] card_ups_parent [OF w(1) yy(1)]
    by (simp add: sanity_check_bigalloc_def Let_def)
next
  case False
  then show ?thesis using sanity_one_ok [OF assms] by (auto simp: sanity_check_bigalloc_def)
qed

subsection \<open>The top-level list\<close>

text \<open>The nodes that a walk visits, in order.\<close>

fun walk_list :: "nat \<Rightarrow> (nat \<Rightarrow> nat) \<Rightarrow> nat \<Rightarrow> nat list res" where
  "walk_list fuel dir cur =
     (if cur = 0 then Inr []
      else if fuel = 0 then Inl Out_Of_Fuel
      else rbind (walk_list (fuel - 1) dir (dir cur)) (\<lambda>xs. Inr (cur # xs)))"

declare walk_list.simps [simp del]

definition ordered_walk :: "'a pi_state_scheme \<Rightarrow> int \<Rightarrow> nat list \<Rightarrow> bool" where
  "ordered_walk s c xs \<longleftrightarrow>
     (\<forall>k < length xs - 1. bigalloc_compare_toplevel s (xs ! k) (xs ! Suc k) = c)"

text \<open>
  \<open>sanity_check_bigallocs_toplevel\<close>: walk back and forth from the private
  heap's slot, marking the slots seen; every top-level slot in use must be
  marked; and the whole list, walked both ways, has that many elements in order.
\<close>

definition sanity_check_bigallocs_toplevel :: "'a pi_state_scheme \<Rightarrow> bool" where
  "sanity_check_bigallocs_toplevel s \<longleftrightarrow>
     (let b = nommap_bigalloc s in
      b = 0 \<or>
      (case (walk_list NBIGALLOCS (prv s) b, walk_list NBIGALLOCS (nxt s) b) of
         (Inr back, Inr fwd) \<Rightarrow>
           (let first_top = last0 0 back;
                last_top = last0 0 fwd;
                in_use = filter (\<lambda>i. BIGALLOC_IN_USE s i \<and> par s i = 0) [1..<NBIGALLOCS]
            in ordered_walk s 1 back \<and> ordered_walk s (- 1) fwd \<and>
               (\<forall>i\<in>set in_use. i \<in> set back \<union> set fwd) \<and>
               (case walk_list NBIGALLOCS (nxt s) first_top of
                  Inr xs \<Rightarrow> ordered_walk s (- 1) xs \<and> length xs = length in_use | Inl e \<Rightarrow> False) \<and>
               (case walk_list NBIGALLOCS (prv s) last_top of
                  Inr xs \<Rightarrow> ordered_walk s 1 xs \<and> length xs = length in_use | Inl e \<Rightarrow> False))
       | _ \<Rightarrow> False))"

lemma walk_list_seg:
  assumes "seg nx pv q 0 ys" "0 \<notin> set ys" "length ys \<le> fuel"
  shows "walk_list fuel nx (hd0 ys) = Inr ys"
  using assms
proof (induction ys arbitrary: q fuel)
  case Nil
  show ?case by (subst walk_list.simps) simp
next
  case (Cons y ys)
  then show ?case
    using Cons.IH [of y "fuel - 1"] by (subst walk_list.simps) (auto simp: hd_or_0)
qed

lemma ordered_walkI:
  assumes "sorted_wrt (\<lambda>x y. bigalloc_compare_toplevel s x y = c) xs"
  shows "ordered_walk s c xs"
  using assms by (auto simp: ordered_walk_def sorted_wrt_iff_nth_less)

text \<open>
  In a consistent state the check of the top-level list passes: both walks
  end, every top-level slot is met, and the list is in address order.
\<close>

lemma sanity_toplevel_passes:
  assumes "pi_inv s"
  shows "sanity_check_bigallocs_toplevel s"
proof -
  obtain ch where w: "tree_ok s" "links_ok s ch" using pi_invE [OF assms] by blast
  let ?st = "nommap_bigalloc s"
  have top: "top_list s (ch 0)" by (rule top_list_links [OF w])
  then obtain us vs where xs: "ch 0 = us @ ?st # vs"
    by (auto simp: top_list_def dest: split_list)
  have d: "seg (nxt s) (prv s) 0 0 (us @ ?st # vs)" and z: "0 \<notin> set (us @ ?st # vs)"
    and srt: "sorted_wrt (\<lambda>x y. en s x \<le> bgn s y) (us @ ?st # vs)"
    and bnd: "\<forall>x\<in>set (us @ ?st # vs). bgn s x < en s x"
    using top by (auto simp: top_list_def dll_seg xs)
  have len: "length (us @ ?st # vs) \<le> NBIGALLOCS" using top_list_length [OF top] by (simp add: xs)
  have up: "sorted_wrt (\<lambda>x y. bigalloc_compare_toplevel s x y = - 1) (us @ ?st # vs)"
    by (rule sorted_wrt_mono_rel [OF _ srt]) (use bnd in \<open>force simp: bigalloc_compare_toplevel_def\<close>)
  have "sorted_wrt (\<lambda>x y. bigalloc_compare_toplevel s y x = 1) (us @ ?st # vs)"
    by (rule sorted_wrt_mono_rel [OF _ srt]) (use bnd in \<open>force simp: bigalloc_compare_toplevel_def\<close>)
  then have down: "sorted_wrt (\<lambda>x y. bigalloc_compare_toplevel s x y = 1) (rev vs @ ?st # rev us)"
    using sorted_wrt_rev [of "\<lambda>x y. bigalloc_compare_toplevel s x y = 1" "us @ ?st # vs"] by simp
  have dr: "seg (prv s) (nxt s) 0 0 (rev vs @ ?st # rev us)" using seg_rev [OF d] by simp
  have bk: "walk_list NBIGALLOCS (prv s) ?st = Inr (?st # rev us)"
    using walk_list_seg [of "prv s" "nxt s" _ "?st # rev us"] dr z len by (simp add: seg_append)
  have fwd: "walk_list NBIGALLOCS (nxt s) ?st = Inr (?st # vs)"
    using walk_list_seg [of "nxt s" "prv s" _ "?st # vs"] d z len by (simp add: seg_append)
  have ft: "last0 0 (?st # rev us) = hd0 (us @ ?st # vs)" by (cases us) auto
  have lt: "last0 0 (?st # vs) = hd0 (rev vs @ ?st # rev us)" by (cases vs rule: rev_cases) auto
  have all1: "walk_list NBIGALLOCS (nxt s) (hd0 (us @ ?st # vs)) = Inr (us @ ?st # vs)"
    using walk_list_seg [OF d z len] .
  have all2: "walk_list NBIGALLOCS (prv s) (hd0 (rev vs @ ?st # rev us)) = Inr (rev vs @ ?st # rev us)"
    using walk_list_seg [OF dr] z len by simp
  let ?live = "filter (\<lambda>i. BIGALLOC_IN_USE s i \<and> par s i = 0) [1..<NBIGALLOCS]"
  have mem: "i \<in> set ?live \<longleftrightarrow> used s i \<and> par s i = 0" for i
    using used_bounds(1,2) [OF w(1), of i] by auto
  have "set ?live = set (us @ ?st # vs)"
    unfolding xs [symmetric] links_child(3) [OF w(2) disjI1 [OF refl]] using mem by blast
  moreover have "distinct (us @ ?st # vs)" using links_child(2) [OF w(2), of 0] by (simp add: xs)
  ultimately have cnt: "length (us @ ?st # vs) = length ?live" "\<forall>i\<in>set ?live. i \<in> set (?st # rev us) \<union> set (?st # vs)"
    using distinct_card [of ?live] distinct_card [of "us @ ?st # vs"] by auto
  have ord: "ordered_walk s 1 (?st # rev us)" "ordered_walk s (- 1) (?st # vs)"
    "ordered_walk s (- 1) (us @ ?st # vs)" "ordered_walk s 1 (rev vs @ ?st # rev us)"
    using up down by (auto simp: sorted_wrt_append intro!: ordered_walkI)
  show ?thesis
    unfolding sanity_check_bigallocs_toplevel_def Let_def bk fwd prod.case sum.case ft lt all1 all2
    using ord cnt by (simp only: length_append length_rev list.size add.commute [of "length us"]) simp
qed

end
