(* ===== verification/Pageindex_Range.thy ===== *)
theory Pageindex_Range
  imports Pageindex_Sanity
begin

text \<open>
  Deletion of everything that overlaps an address range, and three searches
  whose results differ from what their names or comments promise.
\<close>

section \<open>Deleting a range\<close>

definition overlaps :: "'a pi_state_scheme \<Rightarrow> nat \<Rightarrow> addr \<Rightarrow> addr \<Rightarrow> bool" where
  "overlaps s i lo hi \<longleftrightarrow> used s i \<and> lo < hi \<and> bgn s i < hi \<and> lo < en s i"

lemma zero_run_ok:
  "zero_run ix pos n \<le> n \<and> (\<forall>j < zero_run ix pos n. ix (pos + j) = 0) \<and>
   (zero_run ix pos n < n \<longrightarrow> ix (pos + zero_run ix pos n) \<noteq> 0)"
proof (induction n arbitrary: pos)
  case (Suc n)
  show ?case
  proof (cases "ix pos = 0")
    case True
    have "ix (pos + j) = 0" if "j < Suc (zero_run ix (pos + 1) n)" for j
      using that True Suc [of "pos + 1"] by (cases j) auto
    then show ?thesis using True Suc [of "pos + 1"] by auto
  qed auto
qed simp

lemma zero_pages_clear:
  assumes "pi_inv s" "4096 dvd d" "\<forall>j < k. pageindex s (PAGENUM d + j) = 0" "hi \<le> d + 4096 * k"
  shows "\<not> overlaps s i d hi"
proof
  assume o: "overlaps s i d hi"
  define a where "a = max d (bgn s i)"
  have t: "tree_ok s" "index_ok s" using assms(1) by (auto simp: pi_inv_def)
  have ui: "used s i" "bgn s i < en s i" using o used_bounds(3) [OF t(1)] by (auto simp: overlaps_def)
  have a: "d \<le> a" "a < hi" "contains_addr s i a" "d < hi"
    using o ui by (auto simp: overlaps_def a_def contains_addr_def)
  have "PAGENUM d \<le> PAGENUM a" using a(1) by (simp add: PAGENUM_div div_le_mono)
  moreover have "PAGENUM a < PAGENUM d + k"
  proof -
    have "a < (d div 4096 + k) * 4096" using a(2) assms(2,4) by (auto simp: add_mult_distrib)
    then show ?thesis using div_less_iff_less_mult [of 4096 a] by (simp add: PAGENUM_div)
  qed
  ultimately have "pageindex s (PAGENUM a) = 0"
    using assms(3) [rule_format, of "PAGENUM a - PAGENUM d"] by auto
  then show False using index_contains(3) [OF t ui(1) a(3)] by simp
qed

text \<open>What remains after a deletion, and what went.\<close>

definition range_cleared :: "'a pi_state_scheme \<Rightarrow> addr \<Rightarrow> addr \<Rightarrow> 'a pi_state_scheme \<Rightarrow> bool" where
  "range_cleared s lo hi s' \<longleftrightarrow>
     (\<forall>i. used s' i \<longrightarrow> used s i \<and> bgn s' i = bgn s i \<and> en s' i = en s i \<and> par s' i = par s i \<and>
        payload (big_allocations s' i) = payload (big_allocations s i) \<and> \<not> overlaps s i lo hi) \<and>
     (\<forall>i. used s i \<and> \<not> used s' i \<longrightarrow> (\<exists>r. par s r = 0 \<and> anc s r i \<and> overlaps s r lo hi))"

lemma root_desc:
  assumes "tree_ok s" "used s r" "par s r = 0" "used s i" "contains_addr s r a" "contains_addr s i a"
  shows "i \<in> desc s r"
proof -
  have "anc s r i \<or> anc s i r"
    using overlap_anc [OF assms(1,2,4)] assms(5,6) by (auto simp: contains_range)
  then show ?thesis using assms(3,4) by (auto simp: desc_def elim: anc.cases intro: anc_refl)
qed

lemma range_step:
  assumes i: "pi_inv s" and d: "4096 dvd d" and zero: "\<forall>j < k. pageindex s (PAGENUM d + j) = 0"
    and r: "used s r" "par s r = 0" "contains_addr s r (d + 4096 * k)" "d + 4096 * k < hi"
    and pr: "pruned s (desc s r) 0 s1" and rest: "range_cleared s1 (en s r) hi s'"
  shows "range_cleared s d hi s'"
proof -
  have t: "tree_ok s" using i by (auto simp: pi_inv_def)
  note u = pruned_used [OF pr]
  have f: "bgn s1 j = bgn s j" "en s1 j = en s j" "par s1 j = par s j"
    "payload (big_allocations s1 j) = payload (big_allocations s j)" if "j \<notin> desc s r" for j
    using pr that by (auto simp: pruned_def)
  have ro: "overlaps s r d hi" using r by (auto simp: overlaps_def contains_addr_def)
  show ?thesis
    unfolding range_cleared_def
  proof (intro conjI allI impI; (elim conjE)?)
    fix j assume "used s' j"
    then have j: "used s1 j" "bgn s' j = bgn s1 j" "en s' j = en s1 j" "par s' j = par s1 j"
      "\<not> overlaps s1 j (en s r) hi" "payload (big_allocations s' j) = payload (big_allocations s1 j)"
      using rest by (auto simp: range_cleared_def)
    then have nd: "used s j" "j \<notin> desc s r" using u by auto
    show "used s j" "bgn s' j = bgn s j" "en s' j = en s j" "par s' j = par s j"
      "payload (big_allocations s' j) = payload (big_allocations s j)"
      using j f [OF nd(2)] nd by auto
    show "\<not> overlaps s j d hi"
    proof
      assume o: "overlaps s j d hi"
      have "\<not> overlaps s j d (d + 4096 * k)"
        by (rule zero_pages_clear [OF i d zero]) simp
      then have lo: "d + 4096 * k \<le> bgn s j \<or> k = 0" using o by (auto simp: overlaps_def)
      define x where "x = max (d + 4096 * k) (bgn s j)"
      have x: "contains_addr s j x" "d + 4096 * k \<le> x"
        using lo o used_bounds(3) [OF t nd(1)] by (auto simp: x_def contains_addr_def overlaps_def)
      then have "\<not> contains_addr s r x" using root_desc [OF t r(1,2) nd(1)] nd(2) by blast
      then have "en s r \<le> x" using r(3) x(2) by (auto simp: contains_addr_def)
      then have "en s r \<le> bgn s j" using r(3) by (auto simp: x_def contains_addr_def)
      then show False
        using j(1,5) o f [OF nd(2)] used_bounds(3) [OF t nd(1)] by (auto simp: overlaps_def)
    qed
  next
    fix j assume j: "used s j" "\<not> used s' j"
    show "\<exists>q. par s q = 0 \<and> anc s q j \<and> overlaps s q d hi"
    proof (cases "j \<in> desc s r")
      case True
      then show ?thesis using r(2) ro by (auto simp: desc_def)
    next
      case False
      then obtain q where q: "par s1 q = 0" "anc s1 q j" "overlaps s1 q (en s r) hi"
        using rest j u by (auto simp: range_cleared_def)
      have "q \<notin> desc s r" "used s q" using q(3) u by (auto simp: overlaps_def)
      moreover have "anc s q j"
        using pruned_anc [OF pr desc_closed [OF _ _ t] t j(1) False] q(2) by blast
      ultimately show ?thesis
        using q f [of q] r(3) by (intro exI [of _ q]) (auto simp: overlaps_def contains_addr_def)
    qed
  qed
qed

text \<open>One turn of the loop.\<close>

lemma delete_overlapping_stop:
  assumes "d < hi" "hi \<le> d + 4096 *
    zero_run (pageindex s) (PAGENUM d) (PAGENUM (ROUND_UP hi PAGE_SIZE) - PAGENUM d)"
  shows "delete_overlapping (Suc n) d hi s = Inr s"
  using assms by (subst delete_overlapping.simps) (simp add: Let_def PAGE_SIZE_def)

lemma delete_overlapping_go:
  assumes "d < hi"
    "k = zero_run (pageindex s) (PAGENUM d) (PAGENUM (ROUND_UP hi PAGE_SIZE) - PAGENUM d)"
    "d' = d + 4096 * k" "d' < hi" "pageindex s (PAGENUM d') \<noteq> 0" "used s (pageindex s (PAGENUM d'))"
    "root_of NBIGALLOCS s (pageindex s (PAGENUM d')) = Inr r" "d' < en s r"
    "bigalloc_del r s = Inr s1"
  shows "delete_overlapping (Suc n) d hi s = delete_overlapping n (en s r) hi s1"
  using assms(1,4-9)
  by (subst delete_overlapping.simps)
    (simp add: Let_def PAGE_SIZE_def assms(2) [unfolded PAGE_SIZE_def, symmetric]
      assms(3) [symmetric] BIGALLOC_IN_USE_def)

lemma delete_overlapping_ok:
  assumes "pi_inv s" "4096 dvd d" "card {i. used s i} < fuel"
    "\<not> overlaps s (nommap_bigalloc s) d hi"
  shows "\<exists>s'. delete_overlapping fuel d hi s = Inr s' \<and> pi_inv s' \<and> range_cleared s d hi s'"
  using assms
proof (induction fuel arbitrary: s d)
  case (Suc n)
  note i = Suc.prems(1)
  obtain ch where w: "tree_ok s" "links_ok s ch" "index_ok s" using pi_invE [OF i] .
  have clear: "(\<forall>j. \<not> overlaps s j d hi) \<longrightarrow> range_cleared s d hi s"
    by (simp add: range_cleared_def)
  show ?case
  proof (cases "d < hi")
    case False
    then have "\<forall>j. \<not> overlaps s j d hi" by (simp add: overlaps_def)
    then have "range_cleared s d hi s" using clear by blast
    then show ?thesis using False i by (subst delete_overlapping.simps) simp
  next
    case True
    define m where "m = PAGENUM (ROUND_UP hi PAGE_SIZE) - PAGENUM d"
    define k where "k = zero_run (pageindex s) (PAGENUM d) m"
    note zr = zero_run_ok [of "pageindex s" "PAGENUM d" m, folded k_def]
    have dd: "d = PAGENUM d * 4096" using Suc.prems(2) by (simp add: PAGENUM_div)
    have reach: "hi \<le> d + 4096 * m"
    proof -
      have "hi \<le> page_up hi * 4096" using page_up_le by blast
      moreover have "PAGENUM d \<le> page_up hi"
        using less_page_up [of "PAGENUM d" hi] True dd by simp
      ultimately show ?thesis by (subst dd) (simp add: m_def page_up_def add_mult_distrib2)
    qed
    show ?thesis
    proof (cases "d + 4096 * k \<ge> hi")
      case over: True
      then have "\<forall>j. \<not> overlaps s j d hi"
        using zero_pages_clear [OF i Suc.prems(2)] zr by blast
      then have "range_cleared s d hi s" using clear by blast
      then show ?thesis
        using delete_overlapping_stop [OF True over [unfolded k_def m_def]] i by blast
    next
      case more: False
      let ?d = "d + 4096 * k"
      have pg: "PAGENUM ?d = PAGENUM d + k" by (simp add: PAGENUM_div)
      have "k < m" using more reach zr by (cases "k = m") auto
      then have nz: "pageindex s (PAGENUM ?d) \<noteq> 0" using zr pg by simp
      note e = index_entry [OF w(3) nz]
      have "card (ups s (pageindex s (PAGENUM ?d))) \<le> Suc NBIGALLOCS"
        using card_ups_less [OF w(1), of "pageindex s (PAGENUM ?d)"] by simp
      then obtain r where r: "root_of NBIGALLOCS s (pageindex s (PAGENUM ?d)) = Inr r"
        "anc s r (pageindex s (PAGENUM ?d))" "used s r" "par s r = 0"
        using root_of_ok [OF w(1) e(1)] by blast
      have rd: "contains_addr s r ?d" by (rule contains_up [OF w(1) r(2) e])
      have "overlaps s r d hi" using rd r(3) more by (auto simp: overlaps_def contains_addr_def)
      then have "r \<noteq> nommap_bigalloc s" using Suc.prems(4) by blast
      then obtain s1 where s1: "bigalloc_del r s = Inr s1" "pi_inv s1" "pruned s (desc s r) 0 s1"
        using bigalloc_del_ok [OF i r(3)] r(4) by auto
      have fin: "finite {j. used s j}"
        by (rule finite_subset [of _ "{..<NBIGALLOCS}"]) (use used_bounds(2) [OF w(1)] in blast, simp)
      have "{j. used s1 j} \<subset> {j. used s j}"
        using pruned_used [OF s1(3)] r(3) desc_self [OF r(3)] by blast
      from psubset_card_mono [OF fin this] have "card {j. used s1 j} < n"
        using Suc.prems(3) by linarith
      moreover have "4096 dvd en s r" by (rule used_top_aligned(2) [OF w(1) r(3,4)])
      moreover have "\<not> overlaps s1 (nommap_bigalloc s1) (en s r) hi"
        using Suc.prems(4) rd True pruned_used [OF s1(3), of "nommap_bigalloc s"] s1(3)
        unfolding pruned_def overlaps_def contains_addr_def by (cases "nommap_bigalloc s \<in> desc s r") auto
      ultimately obtain s' where s': "delete_overlapping n (en s r) hi s1 = Inr s'" "pi_inv s'"
        "range_cleared s1 (en s r) hi s'"
        using Suc.IH [OF s1(2)] by blast
      have "range_cleared s d hi s'"
        by (rule range_step [OF i Suc.prems(2) _ r(3,4) rd _ s1(3) s'(3)]) (use zr more in auto)
      moreover have "delete_overlapping (Suc n) d hi s = Inr s'"
        using delete_overlapping_go [OF True k_def [unfolded m_def] refl _ nz e(1) r(1) _ s1(1)]
          more rd s'(1) by (simp add: contains_addr_def)
      ultimately show ?thesis using s'(2) by blast
    qed
  qed
qed simp

text \<open>
  C11. Deleting everything that overlaps a range starting on a page boundary, where the range does
  not touch the allocation of the private heap, ends and keeps the state consistent: afterwards
  no big allocation overlaps the range, the remaining ones keep their bounds, their parent, their
  allocators and their private data, and every one that went was inside a
  top-level allocation overlapping the range.
\<close>

theorem delete_range_correct:
  assumes "pi_inv s" "4096 dvd lo" "\<not> overlaps s (nommap_bigalloc s) lo hi"
  shows "\<exists>s'. delete_all_bigallocs_overlapping_range lo hi s = Inr s' \<and> pi_inv s' \<and>
    range_cleared s lo hi s'"
proof -
  have t: "tree_ok s" using assms(1) by (auto simp: pi_inv_def)
  have "{i. used s i} \<subseteq> {1..<NBIGALLOCS}" using used_bounds(1,2) [OF t] by fastforce
  then have "card {i. used s i} \<le> NBIGALLOCS - 1"
    using card_mono [of "{1..<NBIGALLOCS}" "{i. used s i}"] by simp
  then show ?thesis
    unfolding delete_all_bigallocs_overlapping_range_def
    using delete_overlapping_ok [OF assms(1,2) _ assms(3)] NBIGALLOCS_pos by simp
qed

section \<open>Searches that fall short\<close>

lemma find_deepest_hit:
  assumes "pi_inv s" "deepest_at s a b"
  shows "find_deepest_bigalloc hk a s = Inr (b, s)"
proof -
  have "used s b" "contains_addr s b a" using assms(2) unfolding deepest_at_def by blast+
  then obtain c where c: "find_deepest_bigalloc hk a s = Inr (c, s)" "deepest_at s a c"
    using find_deepest_ok [OF assms(1)] by blast
  have "tree_ok s" using assms(1) unfolding pi_inv_def by blast
  from deepest_unique [OF this assms(2) c(2)] c(1) show ?thesis by simp
qed

text \<open>
  The early search for the program break, which is meant to look back over
  up to \<open>MAX_BRK_PAGES_TO_SEARCH\<close> pages, looks back over one page only:
  its guard subtracts the query's page number from the smaller one, which wraps
  around as soon as the search has moved.
\<close>

lemma brk_search_one_page:
  assumes "p < 2 ^ 64"
  shows "brk_page_search ix p p = (if p = 0 \<or> ix p \<noteq> 0 then p else p - 1)"
proof (cases p)
  case (Suc n)
  have "unsigned_sub n (Suc n) = 2 ^ 64 - 1" "unsigned_sub (Suc n) (Suc n) = 0"
    by (simp_all add: unsigned_sub_def)
  then show ?thesis
    using Suc by (cases n) (auto simp: MAX_BRK_PAGES_TO_SEARCH_def)
qed simp

text \<open>
  The search for the common parent of two allocations lowers both depths
  when it moves up on one side only, so it gives up too early: in the example
  state it finds no common parent of a grandchild and the mapping that contains
  it.
\<close>

lemma common_parent_missed:
  "get_common_parent_bigalloc no_hooks 73728 131000 ex_state = Inr (0, ex_state) \<and>
   deepest_at ex_state 73728 4 \<and> deepest_at ex_state 131000 2 \<and> anc ex_state 2 4"
proof -
  have "anc ex_state 2 2" by (rule anc_refl)
  then have "anc ex_state 2 (par ex_state 3)" by (simp add: ex_fields)
  then have a3: "anc ex_state 2 3" by (rule anc_step) (simp_all add: ex_used ex_fields)
  then have "anc ex_state 2 (par ex_state 4)" by (simp add: ex_fields)
  then have a4: "anc ex_state 2 4" by (rule anc_step) (simp_all add: ex_used ex_fields)
  have d: "deepest_at ex_state 73728 4" "deepest_at ex_state 131000 2"
    by (auto intro!: deepestI [OF ex_tree] simp: contains_addr_def ex_used ex_fields split: if_splits)
  have "find_deepest_bigalloc no_hooks a ex_state = Inr (b, ex_state)" if "deepest_at ex_state a b" for a b
    by (rule find_deepest_hit [OF ex_inv that])
  note f = this [OF d(1)] this [OF d(2)]
  have dep: "bigalloc_depth NBIGALLOCS ex_state 4 = Inr 3" "bigalloc_depth NBIGALLOCS ex_state 2 = Inr 1"
    by (simp_all add: bigalloc_depth.simps ex_fields NBIGALLOCS_def)
  have "get_common_parent_bigalloc_recursive ex_state 4 3 2 1 = 0"
    by (simp add: get_common_parent_bigalloc_recursive.simps ex_fields)
  then show ?thesis
    using f dep d a4 by (simp add: get_common_parent_bigalloc_def)
qed

text \<open>
  The search for a mapping at or above an address answers null whenever
  nothing begins below the address, although the private heap's mapping then
  lies at or above it.
\<close>

lemma mapping_above_missed:
  assumes "pi_inv s" "\<And>i. used s i \<Longrightarrow> par s i = 0 \<Longrightarrow> a \<le> bgn s i"
  shows "find_mapping_at_or_above a s = Inr 0 \<and>
    used s (nommap_bigalloc s) \<and> a \<le> bgn s (nommap_bigalloc s)"
proof -
  obtain ch where w: "tree_ok s" "links_ok s ch" using pi_invE [OF assms(1)] by blast
  have top: "top_list s (ch 0)" by (rule top_list_links [OF w])
  have nil: "dropWhile (\<lambda>x. a \<le> bgn s x) (rev (ch 0)) = []"
    using assms(2) links_list_used [OF w(2), of 0] by (simp add: dropWhile_eq_Nil_conv)
  have "find_mapping_at_or_above a s = Inr 0"
    unfolding find_mapping_at_or_above_def highest_lt_list [OF top] nil by simp
  then show ?thesis
    using links_list_used [OF w(2) _ links_top(2) [OF w(2)]] assms(2) by simp
qed

end
