(* ===== verification/Pageindex_Witness.thy ===== *)
theory Pageindex_Witness
  imports Pageindex_Range
begin

text \<open>
  The properties of the page index at concrete inputs: each theorem here applies
  one property to the example state and discharges its hypotheses there.
\<close>

lemmas ex_simps = ex_used ex_fields contains_addr_def NBIGALLOCS_def

lemma ex_anc:
  "anc ex_state 2 3" "anc ex_state 3 4" "anc ex_state 2 4"
proof -
  show a: "anc ex_state 2 3" "anc ex_state 3 4"
    using anc_child [of ex_state 3] anc_child [of ex_state 4] by (simp_all add: ex_simps)
  show "anc ex_state 2 4" by (rule anc_trans [OF a(2,1)])
qed

lemma ex_deepest:
  "deepest_at ex_state 74000 4" "deepest_at ex_state 90000 2" "deepest_at ex_state 90099 2"
  by (auto intro!: deepestI [OF ex_tree] simp: ex_simps split: if_splits)

lemma find_free_from_pos:
  "0 < n \<Longrightarrow> find_free_from n s p = (if \<not> used s p then Inr p else find_free_from (n - 1) s (p + 1))"
  by (cases n) simp_all

lemma ex_free: "find_free_bigalloc ex_state = Inr 5"
  by (simp add: find_free_bigalloc_def NBIGALLOCS_def ex_used find_free_from_pos)

theorem find_deepest_witness:
  "find_deepest_bigalloc no_hooks 74000 ex_state = Inr (4, ex_state)"
proof -
  obtain b where "find_deepest_bigalloc no_hooks 74000 ex_state = Inr (b, ex_state)"
    "deepest_at ex_state 74000 b"
    using find_deepest_correct [OF ex_inv, of 2 74000 no_hooks] by (auto simp: ex_simps)
  then show ?thesis using deepest_unique [OF ex_tree _ ex_deepest(1)] by blast
qed

theorem leaf_allocator_witness:
  "leaf_allocator_for 74000 ex_state = Inr (Some A_generic_small, 4)"
  using leaf_allocator_correct [OF ex_inv ex_deepest(1)]
  by (simp add: ex_state_def ex_slots_def ex_slot_def empty_bigalloc_def)

lemma ex_allocated_by:
  "allocated_by (big_allocations ex_state i) =
     (if i = 1 \<or> i = 2 then Some A_mmap else if i = 3 then Some A_default_lib_malloc
      else if i = 4 then Some A_generic_small else None)"
  by (simp add: ex_state_def ex_slots_def ex_slot_def empty_bigalloc_def)

theorem find_from_root_witness:
  "find_bigalloc_recursive no_hooks 0 74000 A_default_lib_malloc False ex_state = Inr (3, ex_state)"
proof -
  let ?K = "{k. used ex_state k \<and> contains_addr ex_state k 74000 \<and>
    allocator_matches ex_state A_default_lib_malloc False k}"
  have K: "?K = {3}"
    by (auto simp: ex_simps allocator_matches_def ex_allocated_by split: if_splits)
  have "used ex_state 4" "contains_addr ex_state 4 74000" by (simp_all add: ex_simps)
  from find_from_root_correct [OF ex_inv this, of no_hooks A_default_lib_malloc False]
  obtain r where "find_bigalloc_recursive no_hooks 0 74000 A_default_lib_malloc False ex_state =
      Inr (r, ex_state)" "outermost ex_state {3} r"
    unfolding K by blast
  then show ?thesis by (simp add: outermost_def split: if_splits)
qed

theorem new_bigalloc_nested_witness:
  "\<exists>b s'. new_bigalloc no_hooks 90000 100 7 9 0 (Some A_generic_small) ex_state = Inr (b, s') \<and>
     pi_inv s' \<and> bgn s' b = 90000 \<and> en s' b = 90100 \<and> par s' b = 2"
proof -
  have "en ex_state c \<le> 90000 \<or> 90000 + 100 \<le> bgn ex_state c"
    if "used ex_state c" "par ex_state c = 2" for c
    using that by (auto simp: ex_simps split: if_splits)
  then obtain b s' where
    "new_bigalloc no_hooks 90000 100 7 9 0 (Some A_generic_small) ex_state = Inr (b, s')"
    "pi_inv s'" "placed ex_state b 2 90000 (90000 + 100) s'"
    using new_bigalloc_nested [OF ex_inv, of 5 100 2 90000 0 no_hooks 7 9 "Some A_generic_small"]
      ex_deepest(2,3) by (auto simp: ex_simps)
  then show ?thesis by (auto simp: placed_def)
qed

theorem new_bigalloc_top_witness:
  "\<exists>b s'. new_bigalloc no_hooks 20480 8192 0 0 0 (Some A_mmap) ex_state = Inr (b, s') \<and>
     pi_inv s' \<and> bgn s' b = 20480 \<and> en s' b = 28672 \<and> par s' b = 0"
proof -
  have clear: "en ex_state i \<le> 20480 \<or> 20480 + 8192 \<le> bgn ex_state i" if "used ex_state i" for i
    using that by (auto simp: ex_simps split: if_splits)
  have "notify_unindexed_address no_hooks a ex_state = Inr (False, ex_state)" for a
    by (simp add: notify_unindexed_address_def no_hooks_def)
  then obtain b s' where
    "new_bigalloc no_hooks 20480 8192 0 0 0 (Some A_mmap) ex_state = Inr (b, s')"
    "pi_inv s'" "placed ex_state b 0 20480 (20480 + 8192) s'"
    using new_bigalloc_top [OF ex_inv, of 5 8192 20480 no_hooks False False 0 0 "Some A_mmap"]
      clear by (auto simp: ex_simps)
  then show ?thesis by (auto simp: placed_def)
qed

lemma ex_desc: "3 \<in> desc ex_state 3" "4 \<in> desc ex_state 3" "2 \<notin> desc ex_state 3"
proof -
  show "3 \<in> desc ex_state 3" "4 \<in> desc ex_state 3"
    using ex_anc(2) by (simp_all add: desc_def anc_refl ex_used)
  show "2 \<notin> desc ex_state 3"
    using anc_antisym [OF ex_tree ex_anc(1)] by (auto simp: desc_def)
qed

theorem bigalloc_del_witness:
  "\<exists>s'. bigalloc_del 3 ex_state = Inr s' \<and> pi_inv s' \<and>
     \<not> used s' 3 \<and> \<not> used s' 4 \<and> used s' 2 \<and> pageindex s' 18 = 2"
proof -
  obtain s' where s': "bigalloc_del 3 ex_state = Inr s'" "pi_inv s'"
    "pruned ex_state (desc ex_state 3) 2 s'"
    using bigalloc_del_correct [OF ex_inv, of 3] by (auto simp: ex_simps)
  have "pageindex s' 18 = 2" using s'(3) ex_desc by (simp add: pruned_def ex_fields ex_index_def)
  then show ?thesis using s' pruned_used [OF s'(3)] ex_desc by (auto simp: ex_used)
qed

lemma ex_fits:
  "fits ex_state 3 69632 90112" "fits ex_state 3 66000 83968" "fits ex_state 3 70000 83968"
  by (auto simp: fits_def ex_used ex_fields split: if_splits)

theorem adjust_end_witness:
  "\<exists>s'. adjust_bigalloc_end 3 90112 ex_state = Inr s' \<and> pi_inv s' \<and> en s' 3 = 90112"
proof -
  obtain s' where "adjust_bigalloc_end 3 90112 ex_state = Inr s'" "pi_inv s'"
    "rebounded ex_state 3 69632 90112 s'"
    using adjust_end_correct [OF ex_inv, of 3 90112] ex_fits(1)
    by (auto simp: ex_fields ROUND_DOWN_def PAGE_SIZE_def)
  then show ?thesis using rebounded_fields(2) [of ex_state 3 69632 90112 s' 3] by auto
qed

theorem move_beginning_witness:
  "(\<exists>s'. pre_extend_bigalloc 3 66000 ex_state = Inr s' \<and> pi_inv s' \<and>
      rebounded ex_state 3 66000 83968 s') \<and>
   (\<exists>s'. truncate_bigalloc_at_beginning 3 70000 ex_state = Inr s' \<and> pi_inv s' \<and>
      rebounded ex_state 3 70000 83968 s')"
  using move_beginning_correct [OF ex_inv, of 3 66000] move_beginning_correct [OF ex_inv, of 3 70000]
    ex_fits(2,3) by (simp add: ex_fields ROUND_UP_def PAGE_SIZE_def)

lemma ex_room: "room ex_state 5 2 90000 90100" "room ex_state 5 2 84100 84200"
  by (auto simp: room_def ex_simps split: if_splits)

theorem new_then_lookup_witness:
  "\<exists>s'. bigalloc_new 90000 100 2 0 0 None ex_state = Inr (5, s') \<and>
     deepest_lookup s' 90050 = Some 5 \<and> deepest_lookup s' 95000 = deepest_lookup ex_state 95000"
proof -
  have r: "room ex_state 5 2 90000 (90000 + 100)" using ex_room(1) by simp
  obtain s' where s': "bigalloc_new 90000 100 2 0 0 None ex_state = Inr (5, s')"
    using bigalloc_new_ok [OF ex_inv ex_free r] by blast
  show ?thesis
    using s' new_then_lookup [OF ex_inv r ex_free s', of 90050]
      new_then_lookup [OF ex_inv r ex_free s', of 95000] by (simp add: ex_simps)
qed

lemma ex_aligned: "starts_aligned ex_state"
  by (auto simp: starts_aligned_def ex_allocated_by ex_used ex_fields PAGE_SIZE_def split: if_splits)

theorem delete_range_witness:
  "\<exists>s'. delete_all_bigallocs_overlapping_range 65536 69632 ex_state = Inr s' \<and> pi_inv s' \<and>
     \<not> used s' 2"
proof -
  obtain s' where s': "delete_all_bigallocs_overlapping_range 65536 69632 ex_state = Inr s'" "pi_inv s'"
    "range_cleared ex_state 65536 69632 s'"
    using delete_range_correct [OF ex_inv, of 65536 69632] by (auto simp: overlaps_def ex_fields)
  have "overlaps ex_state 2 65536 69632" by (auto simp: overlaps_def ex_fields ex_used)
  then have "\<not> used s' 2" using s'(3) unfolding range_cleared_def by blast
  then show ?thesis using s' by blast
qed

text \<open>An allocation of a hundred bytes inside page 20, extended to the next page.\<close>

theorem extend_misindexes_witness:
  "\<exists>(s :: pi_state) s'. pi_inv s \<and> bgn s 5 = 84100 \<and> en s 5 = 84200 \<and>
     extend_bigalloc 5 86100 s = Inr s' \<and> pageindex s' 20 = 5 \<and> \<not> index_ok s'"
proof -
  have r: "room ex_state 5 2 84100 (84100 + 100)" using ex_room(2) by simp
  obtain s where s: "pi_inv s" "placed ex_state 5 2 84100 (84100 + 100) s"
    using bigalloc_new_ok [OF ex_inv ex_free r] by blast
  have f: "bgn s 5 = 84100" "en s 5 = 84200" "biggest_sane s = 4294967296"
    using s(2) by (simp_all add: placed_def ex_fields)
  have u: "used s 5" using placed_used [OF s(2) r] by simp
  obtain s' where s': "extend_bigalloc 5 86100 s = Inr s'"
    by (simp add: extend_bigalloc_def memset_bigalloc_def Let_def f PAGE_DIST_diff PAGENUM_def
        ROUND_DOWN_def PAGE_SIZE_def upd_def)
  show ?thesis
    using extend_misindexes [OF u _ _ _ _ s'] s(1) f s'
    by (intro exI [of _ s] exI [of _ s']) (simp add: NBIGALLOCS_def PAGENUM_def ROUND_DOWN_def PAGE_SIZE_def)
qed

end
