(* ===== verification/Range_Cache.thy ===== *)
theory Range_Cache
  imports Linked_Lists "HOL-Library.Word"
begin

text \<open>
  The cache of memory ranges (\<open>include/liballocs_cil_inlines.h\<close>,
  \<open>src/cache.c\<close>): a small table of ranges with a validity mask, threaded by
  a doubly linked list from the most to the least recently used entry.  Index 0 is
  the null entry.  An entry's type is its \<open>uniqtype\<close> pointer.
\<close>

unbundle bit_operations_syntax

section \<open>The operations\<close>

record memrange_cache_entry =
  obj_base :: addr
  obj_limit :: addr
  uniqtype :: nat
  period :: nat
  depth :: int
  prev_mru :: nat
  next_mru :: nat

record memrange_cache =
  validity :: "32 word"
  size_plus_one :: nat
  next_victim :: nat
  head_mru :: nat
  tail_mru :: nat
  entries :: "nat \<Rightarrow> memrange_cache_entry"

definition LIBALLOCS_MEMRANGE_CACHE_MAX_SIZE :: nat where
  "LIBALLOCS_MEMRANGE_CACHE_MAX_SIZE = 8"

definition ool_cache_init :: memrange_cache where
  "ool_cache_init = \<lparr>validity = 0, size_plus_one = 1 + LIBALLOCS_MEMRANGE_CACHE_MAX_SIZE,
     next_victim = 1, head_mru = 0, tail_mru = 0,
     entries = \<lambda>i. \<lparr>obj_base = 0, obj_limit = 0, uniqtype = 0, period = 0, depth = 0,
       prev_mru = 0, next_mru = 0\<rparr>\<rparr>"

definition set_next :: "nat \<Rightarrow> nat \<Rightarrow> memrange_cache \<Rightarrow> memrange_cache" where
  "set_next i n c = c\<lparr>entries := (entries c)(i := (entries c i)\<lparr>next_mru := n\<rparr>)\<rparr>"

definition set_prev :: "nat \<Rightarrow> nat \<Rightarrow> memrange_cache \<Rightarrow> memrange_cache" where
  "set_prev i n c = c\<lparr>entries := (entries c)(i := (entries c i)\<lparr>prev_mru := n\<rparr>)\<rparr>"

text \<open>The test \<open>validity & (1 << (i-1))\<close>.\<close>

definition is_valid :: "memrange_cache \<Rightarrow> nat \<Rightarrow> bool" where
  "is_valid c i \<longleftrightarrow> validity c AND push_bit (i - 1) 1 \<noteq> 0"

text \<open>
  \<open>__liballocs_check_cache_sanity\<close>: one pass over the table and one walk
  along the list in each direction; each gives the mask of what it visited, or
  none if an assertion fails (or the walk does not end).
\<close>

fun visited_linear :: "memrange_cache \<Rightarrow> nat \<Rightarrow> 32 word" where
  "visited_linear c 0 = 0"
| "visited_linear c (Suc i) =
     (if 0 < i \<and> is_valid c i then visited_linear c i OR push_bit (i - 1) 1
      else visited_linear c i)"

fun visited_walk :: "nat \<Rightarrow> memrange_cache \<Rightarrow> (memrange_cache_entry \<Rightarrow> nat) \<Rightarrow> nat \<Rightarrow>
    32 word \<Rightarrow> 32 word option" where
  "visited_walk fuel c dir i visited =
     (if i = 0 then Some visited
      else if fuel = 0 then None
      else if is_valid c i \<and> visited AND push_bit (i - 1) 1 = 0
        then visited_walk (fuel - 1) c dir (dir (entries c i)) (visited OR push_bit (i - 1) 1)
      else None)"

declare visited_walk.simps [simp del]

definition check_cache_sanity :: "memrange_cache \<Rightarrow> bool" where
  "check_cache_sanity c \<longleftrightarrow>
     visited_walk (size_plus_one c) c next_mru (head_mru c) 0 =
       Some (visited_linear c (size_plus_one c)) \<and>
     visited_walk (size_plus_one c) c prev_mru (tail_mru c) 0 =
       Some (visited_linear c (size_plus_one c))"

definition cache_unlink :: "memrange_cache \<Rightarrow> nat \<Rightarrow> memrange_cache" where
  "cache_unlink c i =
     (let c = c\<lparr>validity := validity c AND NOT (push_bit (i - 1) 1), next_victim := i\<rparr>;
          our_next = next_mru (entries c i);
          our_prev = prev_mru (entries c i);
          c = (if our_prev \<noteq> 0 then set_next our_prev our_next c else c);
          c = (if our_next \<noteq> 0 then set_prev our_next our_prev c else c);
          c = (if head_mru c = i then c\<lparr>head_mru := our_next\<rparr> else c);
          c = (if tail_mru c = i then c\<lparr>tail_mru := our_prev\<rparr> else c)
      in c\<lparr>validity := validity c AND NOT (push_bit (i - 1) 1)\<rparr>)"

definition cache_push_head_mru :: "memrange_cache \<Rightarrow> nat \<Rightarrow> memrange_cache" where
  "cache_push_head_mru c i =
     (let c = set_prev i 0 c;
          c = set_next i (head_mru c) c;
          c = (if head_mru c \<noteq> 0 then set_prev (head_mru c) (i mod 256) c else c);
          c = c\<lparr>head_mru := i mod 256\<rparr>;
          c = (if tail_mru c = 0 then c\<lparr>tail_mru := i mod 256\<rparr> else c)
      in c\<lparr>validity := validity c OR push_bit (i - 1) 1\<rparr>)"

definition cache_bump_victim :: "memrange_cache \<Rightarrow> nat \<Rightarrow> memrange_cache" where
  "cache_bump_victim c i =
     (if next_victim c = i \<and> size_plus_one c > 1
      then c\<lparr>next_victim := 1 + (i + 1 - 1) mod (size_plus_one c - 1)\<rparr> else c)"

definition cache_bump_mru :: "memrange_cache \<Rightarrow> nat \<Rightarrow> memrange_cache" where
  "cache_bump_mru c i =
     (if head_mru c \<noteq> i
      then cache_push_head_mru (if is_valid c i then cache_unlink c i else c) i else c)"

text \<open>
  The two hit conditions.  The difference from the base is only used when it is
  not negative.
\<close>

definition entry_hit :: "memrange_cache_entry \<Rightarrow> addr \<Rightarrow> nat \<Rightarrow> nat \<Rightarrow> bool" where
  "entry_hit e obj t require_period \<longleftrightarrow>
     uniqtype e = t \<and> obj_base e \<le> obj \<and> obj < obj_limit e \<and>
     (obj - obj_base e = 0 \<or>
      period e \<noteq> 0 \<and> (require_period = 0 \<or> period e = require_period) \<and>
      (obj - obj_base e) mod period e = 0)"

definition entry_hit_notype :: "memrange_cache_entry \<Rightarrow> addr \<Rightarrow> nat \<Rightarrow> bool" where
  "entry_hit_notype e obj require_period \<longleftrightarrow>
     obj_base e \<le> obj \<and> obj < obj_limit e \<and>
     (obj - obj_base e = 0 \<and> require_period = 0 \<or>
      period e \<noteq> 0 \<and> (require_period = 0 \<or> period e = require_period) \<and>
      (obj - obj_base e) mod period e = 0)"

text \<open>The walk along the recency list to the first hit, which moves to the front.\<close>

fun lookup_walk :: "nat \<Rightarrow> memrange_cache \<Rightarrow> (memrange_cache_entry \<Rightarrow> bool) \<Rightarrow> nat \<Rightarrow>
    (nat \<times> memrange_cache) res" where
  "lookup_walk fuel c hit i =
     (if i = 0 then Inr (0, c)
      else if fuel = 0 then Inl Out_Of_Fuel
      else if is_valid c i \<and> hit (entries c i) then Inr (i, cache_bump_mru c i)
      else lookup_walk (fuel - 1) c hit (next_mru (entries c i)))"

declare lookup_walk.simps [simp del]

definition memrange_cache_lookup :: "memrange_cache \<Rightarrow> addr \<Rightarrow> nat \<Rightarrow> nat \<Rightarrow>
    (nat \<times> memrange_cache) res" where
  "memrange_cache_lookup c obj t require_period =
     lookup_walk (size_plus_one c) c (\<lambda>e. entry_hit e obj t require_period) (head_mru c)"

definition memrange_cache_lookup_notype :: "memrange_cache \<Rightarrow> addr \<Rightarrow> nat \<Rightarrow>
    (nat \<times> memrange_cache) res" where
  "memrange_cache_lookup_notype c obj require_period =
     lookup_walk (size_plus_one c) c (\<lambda>e. entry_hit_notype e obj require_period) (head_mru c)"

definition get_cached_object_type :: "addr \<Rightarrow> memrange_cache \<Rightarrow> (nat \<times> memrange_cache) res" where
  "get_cached_object_type a c =
     rbind (memrange_cache_lookup_notype c a 0) (\<lambda>(found, c).
       Inr (if found \<noteq> 0 then uniqtype (entries c found) else 0, c))"

text \<open>\<open>__builtin_ffs\<close>: one plus the index of the least significant 1-bit, or 0.\<close>

definition builtin_ffs :: "32 word \<Rightarrow> nat" where
  "builtin_ffs w = (case List.find (bit w) [0..<32] of None \<Rightarrow> 0 | Some j \<Rightarrow> j + 1)"

text \<open>
  The depth and the period are those the function receives: the call has converted them to
  \<open>short\<close> and \<open>unsigned short\<close>, and the fields are as wide.
\<close>

definition cache_with_type :: "memrange_cache \<Rightarrow> addr \<Rightarrow> addr \<Rightarrow> nat \<Rightarrow> int \<Rightarrow> nat \<Rightarrow>
    memrange_cache res" where
  "cache_with_type c base limit t d per =
     (let pos = builtin_ffs (NOT (validity c)) in
      if \<not> pos \<le> size_plus_one c then Inl Abort
      else
        let pos = (if pos = size_plus_one c then tail_mru c else pos) in
        if pos = 0 then Inl Abort
        else
          let c = c\<lparr>entries := (entries c)(pos := (entries c pos)\<lparr>obj_base := base,
                    obj_limit := limit, uniqtype := t, period := per, depth := d\<rparr>)\<rparr>
          in Inr (cache_bump_victim (cache_bump_mru c pos) pos))"

text \<open>The loop of \<open>__liballocs_uncache_all\<close>, at index \<open>i\<close>.\<close>

fun uncache_from :: "nat \<Rightarrow> nat \<Rightarrow> addr \<Rightarrow> nat \<Rightarrow> memrange_cache \<Rightarrow> memrange_cache" where
  "uncache_from 0 i allocptr sz c = c"
| "uncache_from (Suc n) i allocptr sz c =
     uncache_from n (i + 1) allocptr sz
       (if is_valid c i \<and> allocptr \<le> obj_base (entries c i) \<and>
           obj_base (entries c i) < allocptr + sz
        then (cache_unlink c i)\<lparr>next_victim := i\<rparr> else c)"

definition uncache_all :: "addr \<Rightarrow> nat \<Rightarrow> memrange_cache \<Rightarrow> memrange_cache" where
  "uncache_all allocptr sz c = uncache_from (size_plus_one c - 1) 1 allocptr sz c"

section \<open>The cache as a list of entries in order of use\<close>

abbreviation "nx c i \<equiv> next_mru (entries c i)"
abbreviation "pv c i \<equiv> prev_mru (entries c i)"

text \<open>
  \<open>mru_list c xs\<close>: the valid entries are \<open>xs\<close>, most recently used
  first, correctly linked, and the mask agrees.
\<close>

definition mru_list :: "memrange_cache \<Rightarrow> nat list \<Rightarrow> bool" where
  "mru_list c xs \<longleftrightarrow>
     seg (nx c) (pv c) 0 0 xs \<and> distinct xs \<and> set xs \<subseteq> {1..<size_plus_one c} \<and>
     (\<forall>j. bit (validity c) j \<longleftrightarrow> Suc j \<in> set xs) \<and>
     head_mru c = hd0 xs \<and> tail_mru c = last0 0 xs \<and>
     1 < size_plus_one c \<and> size_plus_one c \<le> 32 \<and>
     0 < next_victim c \<and> next_victim c < size_plus_one c"

text \<open>What an entry caches, without its links.\<close>

definition range_of :: "memrange_cache_entry \<Rightarrow> addr \<times> addr \<times> nat \<times> nat \<times> int" where
  "range_of e = (obj_base e, obj_limit e, uniqtype e, period e, depth e)"

lemma mask_bit: "(w :: 32 word) AND push_bit n 1 \<noteq> 0 \<longleftrightarrow> bit w n"
proof
  assume "w AND push_bit n 1 \<noteq> 0"
  then obtain m where "bit (w AND push_bit n 1) m" by (auto simp: bit_eq_iff)
  then show "bit w n" by (auto simp: bit_simps)
next
  assume b: "bit w n"
  then have "bit (w AND push_bit n 1) n" using bit_imp_le_length [OF b] by (auto simp: bit_simps)
  then show "w AND push_bit n 1 \<noteq> 0" by auto
qed

lemma is_valid_bit: "is_valid c i \<longleftrightarrow> bit (validity c) (i - 1)"
  unfolding is_valid_def mask_bit ..

lemma valid_in_list: "mru_list c xs \<Longrightarrow> 0 < i \<Longrightarrow> is_valid c i \<longleftrightarrow> i \<in> set xs"
  by (simp add: is_valid_bit mru_list_def)

lemma set_link_simps [simp]:
  "validity (set_next i n c) = validity c" "validity (set_prev i n c) = validity c"
  "size_plus_one (set_next i n c) = size_plus_one c" "size_plus_one (set_prev i n c) = size_plus_one c"
  "next_victim (set_next i n c) = next_victim c" "next_victim (set_prev i n c) = next_victim c"
  "head_mru (set_next i n c) = head_mru c" "head_mru (set_prev i n c) = head_mru c"
  "tail_mru (set_next i n c) = tail_mru c" "tail_mru (set_prev i n c) = tail_mru c"
  "range_of (entries (set_next i n c) j) = range_of (entries c j)"
  "range_of (entries (set_prev i n c) j) = range_of (entries c j)"
  "nx (set_next i n c) j = (if j = i then n else nx c j)" "nx (set_prev i n c) j = nx c j"
  "pv (set_prev i n c) j = (if j = i then n else pv c j)" "pv (set_next i n c) j = pv c j"
  by (simp_all add: set_next_def set_prev_def range_of_def)

lemma unlink_fields:
  "validity (cache_unlink c i) = validity c AND NOT (push_bit (i - 1) 1)"
  "size_plus_one (cache_unlink c i) = size_plus_one c" "next_victim (cache_unlink c i) = i"
  "head_mru (cache_unlink c i) = (if head_mru c = i then nx c i else head_mru c)"
  "tail_mru (cache_unlink c i) = (if tail_mru c = i then pv c i else tail_mru c)"
  "range_of (entries (cache_unlink c i) j) = range_of (entries c j)"
  "nx (cache_unlink c i) j = (if pv c i \<noteq> 0 \<and> j = pv c i then nx c i else nx c j)"
  "pv (cache_unlink c i) j = (if nx c i \<noteq> 0 \<and> j = nx c i then pv c i else pv c j)"
  by (auto simp: cache_unlink_def Let_def and.assoc)

lemma mru_listD:
  assumes "mru_list c xs"
  shows "seg (nx c) (pv c) 0 0 xs" "distinct xs" "set xs \<subseteq> {1..<size_plus_one c}"
    "bit (validity c) j \<longleftrightarrow> Suc j \<in> set xs" "head_mru c = hd0 xs" "tail_mru c = last0 0 xs"
    "1 < size_plus_one c" "size_plus_one c \<le> 32"
    "0 < next_victim c" "next_victim c < size_plus_one c" "0 \<notin> set xs"
  using assms by (auto simp: mru_list_def)

lemma mru_listI:
  assumes "seg (nx c) (pv c) 0 0 xs" "distinct xs" "set xs \<subseteq> {1..<size_plus_one c}"
    "\<And>j. bit (validity c) j \<longleftrightarrow> Suc j \<in> set xs" "head_mru c = hd0 xs" "tail_mru c = last0 0 xs"
    "1 < size_plus_one c" "size_plus_one c \<le> 32"
    "0 < next_victim c" "next_victim c < size_plus_one c"
  shows "mru_list c xs"
  using assms by (simp add: mru_list_def)

lemma unlink_list:
  assumes "mru_list c (xs @ i # ys)"
  shows "mru_list (cache_unlink c i) (xs @ ys)"
proof -
  note m = mru_listD [OF assms]
  have s: "seg (nx c) (pv c) 0 i xs" "seg (nx c) (pv c) i 0 ys" "pv c i = last0 0 xs" "nx c i = hd0 ys"
    using m(1) by (simp_all add: seg_append hd_or_0)
  have z: "0 \<notin> set xs" "0 \<notin> set ys" "0 < i" "i < size_plus_one c" using m(3) by auto
  have e: "last0 0 xs = 0 \<longleftrightarrow> xs = []" "hd0 ys = 0 \<longleftrightarrow> ys = []"
    by (simp_all add: last0_eq_0 hd0_eq_0 z)
  have i: "i \<notin> set xs" "i \<notin> set ys" using m(2) by auto
  show ?thesis
  proof (rule mru_listI)
    show "seg (nx (cache_unlink c i)) (pv (cache_unlink c i)) 0 0 (xs @ ys)"
      by (rule seg_join [OF s(1,2)]) (use m(2) in \<open>simp_all add: unlink_fields s e\<close>)
    show "bit (validity (cache_unlink c i)) j \<longleftrightarrow> Suc j \<in> set (xs @ ys)" for j
      using m(4) [of j] i z(3) by (auto simp: unlink_fields bit_simps dest: bit_imp_le_length)
    show "head_mru (cache_unlink c i) = hd0 (xs @ ys)"
      using m(5) i by (cases xs) (auto simp: unlink_fields s)
    show "tail_mru (cache_unlink c i) = last0 0 (xs @ ys)"
      using m(6) i last0_in [of ys i] by (cases ys) (auto simp: unlink_fields s)
  qed (use m z in \<open>simp_all add: unlink_fields\<close>)
qed

lemma push_fields:
  assumes "head_mru c \<noteq> i" "i < 256"
  shows "validity (cache_push_head_mru c i) = validity c OR push_bit (i - 1) 1"
    "size_plus_one (cache_push_head_mru c i) = size_plus_one c"
    "next_victim (cache_push_head_mru c i) = next_victim c"
    "head_mru (cache_push_head_mru c i) = i"
    "tail_mru (cache_push_head_mru c i) = (if tail_mru c = 0 then i else tail_mru c)"
    "range_of (entries (cache_push_head_mru c i) j) = range_of (entries c j)"
    "nx (cache_push_head_mru c i) j = (if j = i then head_mru c else nx c j)"
    "pv (cache_push_head_mru c i) j =
       (if head_mru c \<noteq> 0 \<and> j = head_mru c then i else if j = i then 0 else pv c j)"
  using assms by (auto simp: cache_push_head_mru_def Let_def)

lemma push_list:
  assumes "mru_list c xs" "i \<notin> set xs" "0 < i" "i < size_plus_one c"
  shows "mru_list (cache_push_head_mru c i) (i # xs)"
proof -
  note m = mru_listD [OF assms(1)]
  note z = m(11) and h = m(5)
  have i256: "i < 256" using m(8) assms(4) by simp
  have hi: "head_mru c \<noteq> i" using h hd0_mem [of xs] assms(2,3) by (cases "xs = []") auto
  note f = push_fields [OF hi i256]
  have s: "seg (nx (cache_push_head_mru c i)) (pv (cache_push_head_mru c i)) i 0 xs"
  proof (cases xs)
    case (Cons x ys)
    have "seg (nx (cache_push_head_mru c i)) (pv (cache_push_head_mru c i)) i 0 xs =
        seg (nx c) ((pv c)(x := i)) i 0 xs"
      by (rule seg_cong) (use assms(2) z Cons in \<open>auto simp: f h\<close>)
    then show ?thesis
      using seg_set_start [of "nx c" "pv c" 0 0 x ys i] m(1,2) Cons by simp
  qed simp
  show ?thesis
  proof (rule mru_listI)
    show "seg (nx (cache_push_head_mru c i)) (pv (cache_push_head_mru c i)) 0 0 (i # xs)"
      using s hi by (simp add: f h hd_or_0)
    have "j < 32" if "Suc j = i" for j using that m(8) assms(4) by simp
    then show "bit (validity (cache_push_head_mru c i)) j \<longleftrightarrow> Suc j \<in> set (i # xs)" for j
      using m(4) [of j] assms(3) by (auto simp: f bit_simps)
    show "tail_mru (cache_push_head_mru c i) = last0 0 (i # xs)"
      using m(6) last0_eq_0 [OF z] by (cases xs) (auto simp: f)
  qed (use m assms in \<open>simp_all add: f\<close>)
qed

lemma bump_mru_list:
  assumes "mru_list c xs" "0 < i" "i < size_plus_one c"
  shows "mru_list (cache_bump_mru c i) (i # remove1 i xs)"
    "range_of (entries (cache_bump_mru c i) j) = range_of (entries c j)"
    "size_plus_one (cache_bump_mru c i) = size_plus_one c"
proof -
  note h = mru_listD(5) [OF assms(1)]
  have i256: "i < 256" using mru_listD(8) [OF assms(1)] assms(3) by simp
  have "mru_list (cache_bump_mru c i) (i # remove1 i xs) \<and>
    range_of (entries (cache_bump_mru c i) j) = range_of (entries c j) \<and>
    size_plus_one (cache_bump_mru c i) = size_plus_one c"
  proof (cases "head_mru c = i")
    case True
    then have "xs = i # remove1 i xs" using h assms(2) by (cases xs) auto
    then show ?thesis using True assms(1) by (simp add: cache_bump_mru_def)
  next
    case ne: False
    show ?thesis
    proof (cases "i \<in> set xs")
      case True
      then obtain ys zs where s: "xs = ys @ i # zs" "i \<notin> set ys" by (meson split_list_first)
      have d: "distinct xs" by (rule mru_listD(2) [OF assms(1)])
      have u: "mru_list (cache_unlink c i) (remove1 i xs)"
        using unlink_list [of c ys i zs] assms(1) s by (simp add: remove1_append)
      have "i \<notin> set (remove1 i xs)" using d by simp
      moreover have "head_mru (cache_unlink c i) \<noteq> i" using ne by (simp add: unlink_fields)
      ultimately show ?thesis
        using push_list [OF u _ assms(2)] assms(3) ne valid_in_list [OF assms(1,2)] True
        by (simp add: cache_bump_mru_def push_fields [OF _ i256] unlink_fields)
    next
      case False
      then show ?thesis
        using push_list [OF assms(1) False assms(2,3)] ne valid_in_list [OF assms(1,2)]
        by (simp add: cache_bump_mru_def push_fields [OF ne i256] remove1_idem)
    qed
  qed
  then show "mru_list (cache_bump_mru c i) (i # remove1 i xs)"
    "range_of (entries (cache_bump_mru c i) j) = range_of (entries c j)"
    "size_plus_one (cache_bump_mru c i) = size_plus_one c" by blast+
qed

lemma bump_victim_list:
  assumes "mru_list c xs" "0 < i" "i < size_plus_one c"
  shows "mru_list (cache_bump_victim c i) xs"
    "entries (cache_bump_victim c i) = entries c"
proof -
  note m = mru_listD [OF assms(1)]
  have "i mod (size_plus_one c - 1) < size_plus_one c - 1" using m(7) by simp
  then have "1 + i mod (size_plus_one c - 1) < size_plus_one c" by simp
  then show "mru_list (cache_bump_victim c i) xs"
    using m by (intro mru_listI) (simp_all add: cache_bump_victim_def)
  show "entries (cache_bump_victim c i) = entries c" by (simp add: cache_bump_victim_def)
qed

lemma mru_length:
  assumes "mru_list c xs"
  shows "length xs < size_plus_one c" "length xs = size_plus_one c - 1 \<longleftrightarrow> set xs = {1..<size_plus_one c}"
proof -
  note m = mru_listD [OF assms]
  have l: "length xs = card (set xs)" using m(2) by (simp add: distinct_card)
  have "card (set xs) \<le> size_plus_one c - 1" using card_mono [OF _ m(3)] by simp
  then show "length xs < size_plus_one c" using l m(7) by simp
  show "length xs = size_plus_one c - 1 \<longleftrightarrow> set xs = {1..<size_plus_one c}"
    using card_subset_eq [OF _ m(3)] by (auto simp: l)
qed

section \<open>Lookup\<close>

lemma lookup_walk_ok:
  assumes "seg (nx c) (pv c) p 0 ys" "0 \<notin> set ys" "\<forall>y\<in>set ys. is_valid c y" "length ys \<le> fuel"
  shows "lookup_walk fuel c hit (hd0 ys) =
    Inr (case List.find (\<lambda>y. hit (entries c y)) ys of None \<Rightarrow> (0, c) | Some i \<Rightarrow> (i, cache_bump_mru c i))"
  using assms
proof (induction ys arbitrary: p fuel)
  case Nil
  show ?case by (subst lookup_walk.simps) simp
next
  case (Cons y ys)
  then show ?case
    using Cons.IH [of y "fuel - 1"] by (subst lookup_walk.simps) (auto simp: hd_or_0)
qed

lemma lookup_list:
  assumes "mru_list c xs"
  shows "lookup_walk (size_plus_one c) c hit (head_mru c) =
    Inr (case List.find (\<lambda>y. hit (entries c y)) xs of None \<Rightarrow> (0, c) | Some i \<Rightarrow> (i, cache_bump_mru c i))"
proof -
  note m = mru_listD [OF assms]
  have "\<forall>y\<in>set xs. is_valid c y"
    using valid_in_list [OF assms] m(11) by (metis neq0_conv)
  then show ?thesis
    using lookup_walk_ok [OF m(1,11)] mru_length(1) [OF assms] m(5) by simp
qed

lemma entry_hit_range:
  "range_of e = range_of e' \<Longrightarrow> entry_hit e obj t r = entry_hit e' obj t r"
  by (simp add: range_of_def entry_hit_def)

section \<open>Insertion\<close>

lemma ffs_ok:
  assumes "mru_list c xs"
  defines "pos \<equiv> builtin_ffs (NOT (validity c))"
  shows "0 < pos" "pos \<le> size_plus_one c" "pos \<notin> set xs" "\<And>j. 0 < j \<Longrightarrow> j < pos \<Longrightarrow> j \<in> set xs"
proof -
  note m = mru_listD [OF assms(1)]
  let ?n = "size_plus_one c" and ?w = "NOT (validity c)"
  have b: "bit ?w j \<longleftrightarrow> Suc j \<notin> set xs" if "j < 32" for j
    using m(4) [of j] that by (simp add: bit_simps)
  have last: "bit ?w (?n - 1)" using b [of "?n - 1"] m(3,7,8) by auto
  then have "List.find (bit ?w) [0..<32] \<noteq> None"
    using m(8) m(7) by (auto simp: find_None_iff intro!: exI [of _ "?n - 1"])
  then obtain k where k: "List.find (bit ?w) [0..<32] = Some k" by blast
  then have kk: "k < 32" "bit ?w k" "\<And>j. j < k \<Longrightarrow> \<not> bit ?w j"
    by (auto simp: find_Some_iff)
  have pos: "pos = Suc k" using k by (simp add: pos_def builtin_ffs_def)
  show "0 < pos" by (simp add: pos)
  have "k \<le> ?n - 1" using kk(3) last by (meson not_less)
  then show "pos \<le> ?n" using m(7) by (simp add: pos)
  show "pos \<notin> set xs" using b [OF kk(1)] kk(2) by (simp add: pos)
  show "j \<in> set xs" if "0 < j" "j < pos" for j
    using kk(1) kk(3) [of "j - 1"] b [of "j - 1"] that by (simp add: pos)
qed

lemma insert_entry_list:
  assumes "mru_list c xs"
  shows "mru_list (c\<lparr>entries := (entries c)(i := (entries c i)\<lparr>obj_base := b, obj_limit := l,
    uniqtype := t, period := p, depth := d\<rparr>)\<rparr>) xs" (is "mru_list ?c xs")
proof -
  note m = mru_listD [OF assms]
  have "nx ?c = nx c" "pv ?c = pv c" by auto
  then show ?thesis using m by (intro mru_listI) simp_all
qed

lemma insert_list:
  assumes "mru_list c xs"
  shows "\<exists>pos c'. cache_with_type c b l t d p = Inr c' \<and> mru_list c' (pos # remove1 pos xs) \<and>
    size_plus_one c' = size_plus_one c \<and> range_of (entries c' pos) = (b, l, t, p, d) \<and>
    (\<forall>j. j \<noteq> pos \<longrightarrow> range_of (entries c' j) = range_of (entries c j)) \<and>
    (if length xs < size_plus_one c - 1 then pos \<notin> set xs else xs \<noteq> [] \<and> pos = last xs)"
proof -
  note m = mru_listD [OF assms] and f = ffs_ok [OF assms]
  let ?f = "builtin_ffs (NOT (validity c))" and ?n = "size_plus_one c"
  define pos where "pos = (if ?f = ?n then tail_mru c else ?f)"
  have pos: "0 < pos \<and> pos < ?n \<and> (if length xs < ?n - 1 then pos \<notin> set xs else xs \<noteq> [] \<and> pos = last xs)"
  proof (cases "?f = ?n")
    case True
    then have full: "set xs = {1..<?n}" using f(4) m(3) by fastforce
    then have ne: "xs \<noteq> []" using m(7) by auto
    then have "last0 0 xs = last xs" by (induction xs rule: rev_induct) auto
    then have "pos = last xs" "pos \<in> set xs" using True m(6) ne by (simp_all add: pos_def)
    then show ?thesis using mru_length(2) [OF assms] full ne by auto
  next
    case False
    then have "pos = ?f" "?f < ?n" using f(2) by (auto simp: pos_def)
    moreover have "length xs \<noteq> ?n - 1" using mru_length(2) [OF assms] f(1,3) \<open>?f < ?n\<close> by auto
    ultimately show ?thesis using f(1,3) mru_length(1) [OF assms] by auto
  qed
  define c1 where "c1 = c\<lparr>entries := (entries c)(pos := (entries c pos)\<lparr>obj_base := b,
    obj_limit := l, uniqtype := t, period := p, depth := d\<rparr>)\<rparr>"
  have c1: "mru_list c1 xs" "size_plus_one c1 = ?n" unfolding c1_def using insert_entry_list [OF assms] by simp_all
  have r: "range_of (entries c1 j) = (if j = pos then (b, l, t, p, d) else range_of (entries c j))" for j
    by (simp add: c1_def range_of_def)
  note bump = bump_mru_list [OF c1(1), of pos]
  have "cache_with_type c b l t d p = Inr (cache_bump_victim (cache_bump_mru c1 pos) pos)"
    using f(2) pos by (auto simp: cache_with_type_def Let_def c1_def pos_def)
  then show ?thesis
    using bump_victim_list [OF bump(1), of pos] bump pos c1(2) r
    by (intro exI [of _ pos]) (auto simp: cache_bump_victim_def)
qed

section \<open>Invalidation\<close>

lemma uncache_from_list:
  assumes "mru_list c xs" "0 < i" "i + n = size_plus_one c"
  shows "mru_list (uncache_from n i a sz c)
      (filter (\<lambda>x. \<not> (i \<le> x \<and> a \<le> obj_base (entries c x) \<and> obj_base (entries c x) < a + sz)) xs) \<and>
    (\<forall>j. range_of (entries (uncache_from n i a sz c) j) = range_of (entries c j)) \<and>
    size_plus_one (uncache_from n i a sz c) = size_plus_one c"
  using assms
proof (induction n arbitrary: c i xs)
  case 0
  then have "x < i" if "x \<in> set xs" for x using mru_listD(3) [of c xs] that by auto
  then have "filter (\<lambda>x. \<not> (i \<le> x \<and> a \<le> obj_base (entries c x) \<and> obj_base (entries c x) < a + sz)) xs = xs"
    by (intro filter_True) (auto dest: leD)
  then show ?case using 0 by simp
next
  case (Suc n)
  let ?in = "\<lambda>x. a \<le> obj_base (entries c x) \<and> obj_base (entries c x) < a + sz"
  define c' where "c' = (if is_valid c i \<and> ?in i then (cache_unlink c i)\<lparr>next_victim := i\<rparr> else c)"
  define ys where "ys = (if ?in i then remove1 i xs else xs)"
  have rg: "range_of (entries c' j) = range_of (entries c j)" for j by (simp add: c'_def unlink_fields)
  then have ob: "obj_base (entries c' j) = obj_base (entries c j)" for j
    by (metis range_of_def prod.inject)
  have "next_victim (cache_unlink c i) = i" by (simp add: unlink_fields)
  then have "(cache_unlink c i)\<lparr>next_victim := i\<rparr> = cache_unlink c i" by simp
  moreover have "mru_list (cache_unlink c i) (remove1 i xs)" if "i \<in> set xs"
    using split_list_first [OF that] unlink_list Suc.prems(1) by (auto simp: remove1_append)
  ultimately have ys: "mru_list c' ys"
    using valid_in_list [OF Suc.prems(1,2)] Suc.prems(1) by (auto simp: c'_def ys_def remove1_idem)
  have "remove1 i xs = filter (\<lambda>x. i \<noteq> x) xs"
    using mru_listD(2) [OF Suc.prems(1)] by (simp add: distinct_remove1_removeAll removeAll_filter_not_eq)
  moreover have after: "Suc i \<le> x \<longleftrightarrow> i \<le> x \<and> x \<noteq> i" for x by auto
  ultimately have "filter (\<lambda>x. \<not> (Suc i \<le> x \<and> ?in x)) ys = filter (\<lambda>x. \<not> (i \<le> x \<and> ?in x)) xs"
    by (auto simp: ys_def after intro!: filter_cong)
  moreover have "size_plus_one c' = size_plus_one c" by (simp add: c'_def unlink_fields)
  ultimately show ?case
    using Suc.IH [OF ys, of "Suc i"] Suc.prems rg by (simp add: ob c'_def [symmetric])
qed

section \<open>The contract of a recency cache\<close>

text \<open>
  What a client of the cache may rely on: a bounded list of ranges, most recently
  used first; insertion puts a range in front and drops what exceeds the
  capacity, and a lookup finds the first range that satisfies the condition and
  moves it to the front.
\<close>

definition move_to_front :: "('r \<Rightarrow> bool) \<Rightarrow> 'r list \<Rightarrow> 'r list" where
  "move_to_front P L = (case List.find P L of None \<Rightarrow> L | Some r \<Rightarrow> r # remove1 r L)"

locale recency_cache =
  fixes ok :: "'c \<Rightarrow> bool" and capacity :: "'c \<Rightarrow> nat" and ranges :: "'c \<Rightarrow> 'r list"
    and ins :: "'r \<Rightarrow> 'c \<Rightarrow> 'c res" and look :: "('r \<Rightarrow> bool) \<Rightarrow> 'c \<Rightarrow> ('r option \<times> 'c) res"
  assumes bounded: "ok c \<Longrightarrow> 0 < capacity c \<and> length (ranges c) \<le> capacity c"
    and ins_ranges: "ok c \<Longrightarrow> \<exists>c'. ins r c = Inr c' \<and> ok c' \<and> capacity c' = capacity c \<and>
      ranges c' = r # take (capacity c - 1) (ranges c)"
    and look_ranges: "ok c \<Longrightarrow> \<exists>c'. look P c = Inr (List.find P (ranges c), c') \<and> ok c' \<and>
      capacity c' = capacity c \<and> ranges c' = move_to_front P (ranges c)"
begin

lemma insert_then_look:
  assumes "ok c" "ins r c = Inr c1" "P r"
  shows "\<exists>c2. look P c1 = Inr (Some r, c2)"
proof -
  have "ok c1" "ranges c1 = r # take (capacity c - 1) (ranges c)"
    using ins_ranges [OF assms(1), of r] assms(2) by auto
  then show ?thesis using look_ranges [of c1 P] assms(3) by auto
qed

fun ins_all :: "'r list \<Rightarrow> 'c \<Rightarrow> 'c res" where
  "ins_all [] c = Inr c"
| "ins_all (r # rs) c = rbind (ins r c) (ins_all rs)"

lemma ins_all_ok:
  assumes "ok c"
  shows "\<exists>c'. ins_all rs c = Inr c' \<and> ok c' \<and> capacity c' = capacity c \<and>
    ranges c' = take (capacity c) (rev rs @ ranges c)"
  using assms
proof (induction rs arbitrary: c)
  case Nil
  then show ?case using bounded [of c] by simp
next
  case (Cons r rs)
  obtain c1 where c1: "ins r c = Inr c1" "ok c1" "capacity c1 = capacity c"
    "ranges c1 = r # take (capacity c - 1) (ranges c)" using ins_ranges [OF Cons.prems, of r] by blast
  have "take (capacity c) (rev rs @ r # take (capacity c - 1) (ranges c)) =
      take (capacity c) (rev rs @ r # ranges c)"
    by (cases "capacity c - length rs") (simp_all add: take_Cons')
  then show ?case using c1 Cons.IH [OF c1(2)] by auto
qed

lemma survives:
  assumes "ok c" "ins r c = Inr c1" "length rs < capacity c" "ins_all rs c1 = Inr c2"
  shows "r \<in> set (ranges c2)"
proof -
  have c1: "ok c1" "capacity c1 = capacity c" "ranges c1 = r # take (capacity c - 1) (ranges c)"
    using ins_ranges [OF assms(1), of r] assms(2) by auto
  then have "ranges c2 = take (capacity c) (rev rs @ ranges c1)"
    using ins_all_ok [OF c1(1), of rs] assms(4) by auto
  then show ?thesis using c1 assms(3) by (simp add: take_Cons')
qed

end

section \<open>The range cache meets the contract\<close>

definition cache_ok :: "memrange_cache \<Rightarrow> bool" where
  "cache_ok c \<longleftrightarrow> (\<exists>xs. mru_list c xs)"

fun recency :: "nat \<Rightarrow> memrange_cache \<Rightarrow> nat \<Rightarrow> nat list" where
  "recency 0 c i = []"
| "recency (Suc n) c i = (if i = 0 then [] else i # recency n c (nx c i))"

definition cache_ranges :: "memrange_cache \<Rightarrow> (addr \<times> addr \<times> nat \<times> nat \<times> int) list" where
  "cache_ranges c = map (\<lambda>i. range_of (entries c i)) (recency (size_plus_one c) c (head_mru c))"

definition cache_range :: "addr \<times> addr \<times> nat \<times> nat \<times> int \<Rightarrow> memrange_cache \<Rightarrow> memrange_cache res" where
  "cache_range r c = (case r of (b, l, t, p, d) \<Rightarrow> cache_with_type c b l t d p)"

definition lookup_range :: "(addr \<times> addr \<times> nat \<times> nat \<times> int \<Rightarrow> bool) \<Rightarrow> memrange_cache \<Rightarrow>
    ((addr \<times> addr \<times> nat \<times> nat \<times> int) option \<times> memrange_cache) res" where
  "lookup_range P c =
     rbind (lookup_walk (size_plus_one c) c (\<lambda>e. P (range_of e)) (head_mru c)) (\<lambda>(i, c').
       Inr (if i = 0 then None else Some (range_of (entries c' i)), c'))"

lemma recency_seg:
  "seg (nx c) (pv c) p 0 xs \<Longrightarrow> 0 \<notin> set xs \<Longrightarrow> length xs \<le> n \<Longrightarrow> recency n c (hd0 xs) = xs"
proof (induction xs arbitrary: p n)
  case Nil
  then show ?case by (cases n) auto
next
  case (Cons x xs)
  then show ?case by (cases n) (auto simp: hd_or_0)
qed

lemma cache_ranges_list:
  assumes "mru_list c xs"
  shows "cache_ranges c = map (\<lambda>i. range_of (entries c i)) xs"
  using recency_seg [OF mru_listD(1,11) [OF assms]] mru_length(1) [OF assms] mru_listD(5) [OF assms]
  by (simp add: cache_ranges_def)

lemma remove1_last: "distinct xs \<Longrightarrow> xs \<noteq> [] \<Longrightarrow> remove1 (last xs) xs = butlast xs"
  by (induction xs) auto

lemma cache_insert_ok:
  assumes "cache_ok c"
  shows "\<exists>c'. cache_range r c = Inr c' \<and> cache_ok c' \<and> size_plus_one c' = size_plus_one c \<and>
    cache_ranges c' = r # take (size_plus_one c - 1 - 1) (cache_ranges c)"
proof -
  obtain xs where xs: "mru_list c xs" using assms by (auto simp: cache_ok_def)
  obtain b l t p d where r: "r = (b, l, t, p, d)" by (cases r)
  obtain pos c' where c': "cache_with_type c b l t d p = Inr c'" "mru_list c' (pos # remove1 pos xs)"
    "size_plus_one c' = size_plus_one c" "range_of (entries c' pos) = r"
    "\<And>j. j \<noteq> pos \<Longrightarrow> range_of (entries c' j) = range_of (entries c j)"
    "if length xs < size_plus_one c - 1 then pos \<notin> set xs else xs \<noteq> [] \<and> pos = last xs"
    using insert_list [OF xs, of b l t d p] r by blast
  note d = mru_listD(2) [OF xs] and len = mru_length(1) [OF xs]
  have "remove1 pos xs = take (size_plus_one c - 1 - 1) xs"
  proof (cases "length xs < size_plus_one c - 1")
    case True
    then show ?thesis using c'(6) by (simp add: remove1_idem)
  next
    case False
    then have "length xs = size_plus_one c - 1" using len by simp
    then show ?thesis using c'(6) False d by (simp add: remove1_last butlast_conv_take)
  qed
  moreover have "map (\<lambda>i. range_of (entries c' i)) (remove1 pos xs) =
      map (\<lambda>i. range_of (entries c i)) (remove1 pos xs)"
    using d c'(5) by (intro map_cong) auto
  ultimately show ?thesis
    using c' cache_ranges_list [OF xs] cache_ranges_list [OF c'(2)]
    by (auto simp: cache_range_def r cache_ok_def take_map)
qed

lemma find_map: "List.find P (map f xs) = map_option f (List.find (\<lambda>x. P (f x)) xs)"
  by (induction xs) auto

lemma map_remove1_find:
  assumes "List.find (\<lambda>x. P (f x)) xs = Some i"
  shows "map f (remove1 i xs) = remove1 (f i) (map f xs)"
proof -
  have "P (f i)" using assms by (auto simp: find_Some_iff)
  then show ?thesis using assms by (induction xs) (auto split: if_splits)
qed

lemma cache_lookup_ok:
  assumes "cache_ok c"
  shows "\<exists>c'. lookup_range P c = Inr (List.find P (cache_ranges c), c') \<and> cache_ok c' \<and>
    size_plus_one c' = size_plus_one c \<and> cache_ranges c' = move_to_front P (cache_ranges c)"
proof -
  obtain xs where xs: "mru_list c xs" using assms by (auto simp: cache_ok_def)
  let ?f = "\<lambda>i. range_of (entries c i)"
  show ?thesis
  proof (cases "List.find (\<lambda>i. P (?f i)) xs")
    case None
    then show ?thesis
      using lookup_list [OF xs, of "\<lambda>e. P (range_of e)"] cache_ranges_list [OF xs] assms
      by (simp add: lookup_range_def find_map move_to_front_def)
  next
    case (Some i)
    then have i: "i \<in> set xs" by (auto simp: find_Some_iff)
    then have "0 < i" "i < size_plus_one c" using mru_listD(3) [OF xs] by auto
    note b = bump_mru_list [OF xs this]
    have "cache_ranges (cache_bump_mru c i) = ?f i # map ?f (remove1 i xs)"
      using cache_ranges_list [OF b(1)] by (simp add: b(2))
    then show ?thesis
      using lookup_list [OF xs, of "\<lambda>e. P (range_of e)"] cache_ranges_list [OF xs] Some b \<open>0 < i\<close>
        map_remove1_find [of P ?f, OF Some]
      by (auto simp: lookup_range_def find_map move_to_front_def cache_ok_def)
  qed
qed

interpretation range_cache: recency_cache cache_ok "\<lambda>c. size_plus_one c - 1" cache_ranges
  cache_range lookup_range
proof
  show "0 < size_plus_one c - 1 \<and> length (cache_ranges c) \<le> size_plus_one c - 1" if "cache_ok c" for c
    using that mru_length(1) mru_listD(7) cache_ranges_list by (fastforce simp: cache_ok_def)
next
  fix c :: memrange_cache and r assume "cache_ok c"
  from cache_insert_ok [OF this, of r]
  show "\<exists>c'. cache_range r c = Inr c' \<and> cache_ok c' \<and> size_plus_one c' - 1 = size_plus_one c - 1 \<and>
    cache_ranges c' = r # take (size_plus_one c - 1 - 1) (cache_ranges c)" by auto
next
  fix c :: memrange_cache and P assume "cache_ok c"
  from cache_lookup_ok [OF this, of P]
  show "\<exists>c'. lookup_range P c = Inr (List.find P (cache_ranges c), c') \<and> cache_ok c' \<and>
    size_plus_one c' - 1 = size_plus_one c - 1 \<and> cache_ranges c' = move_to_front P (cache_ranges c)"
    by auto
qed

section \<open>The assertions of the sanity check\<close>

lemma visited_linear_bit:
  "n \<le> 32 \<Longrightarrow> bit (visited_linear c n) j \<longleftrightarrow> Suc j < n \<and> is_valid c (Suc j)"
proof (induction n)
  case (Suc n)
  then show ?case by (auto simp: bit_simps less_Suc_eq)
qed simp

lemma visited_walk_ok:
  assumes "seg (\<lambda>i. dir (entries c i)) bk p 0 ys" "0 \<notin> set ys" "distinct ys"
    "\<forall>y\<in>set ys. is_valid c y \<and> y \<le> 32" "length ys \<le> fuel" "\<forall>y\<in>set ys. \<not> bit visited (y - 1)"
  shows "\<exists>w. visited_walk fuel c dir (hd0 ys) visited = Some w \<and>
    (\<forall>j. bit w j \<longleftrightarrow> bit visited j \<or> Suc j \<in> set ys)"
  using assms
proof (induction ys arbitrary: p fuel visited)
  case Nil
  show ?case by (subst visited_walk.simps) simp
next
  case (Cons y ys)
  define v where "v = visited OR push_bit (y - 1) 1"
  have y: "0 < y" "y \<le> 32" "y \<notin> set ys" "fuel \<noteq> 0" "is_valid c y" "length ys \<le> fuel - 1"
    "visited AND push_bit (y - 1) 1 = 0"
    using Cons.prems mask_bit [of visited "y - 1"] by auto
  have b: "bit v j \<longleftrightarrow> bit visited j \<or> Suc j = y" for j using y(1,2) by (auto simp: v_def bit_simps)
  have "\<forall>z\<in>set ys. \<not> bit v (z - 1)"
  proof
    fix z assume z: "z \<in> set ys"
    then have "0 < z" "z \<noteq> y" "\<not> bit visited (z - 1)"
      using Cons.prems(2,6) y(3) by (metis gr0I list.set_intros(2))+
    then show "\<not> bit v (z - 1)" using b [of "z - 1"] by auto
  qed
  then obtain w where w: "visited_walk (fuel - 1) c dir (hd0 ys) v = Some w"
    "\<forall>j. bit w j \<longleftrightarrow> bit v j \<or> Suc j \<in> set ys"
    using Cons.IH [of y "fuel - 1" v] Cons.prems y(6) by auto
  have "visited_walk fuel c dir y visited = Some w"
    using y w(1) Cons.prems(1) unfolding v_def
    by (subst visited_walk.simps) (simp add: hd_or_0 del: push_bit_of_1)
  then show ?case using w(2) b by auto
qed

lemma sanity_holds:
  assumes "cache_ok c"
  shows "check_cache_sanity c"
proof -
  obtain xs where xs: "mru_list c xs" using assms by (auto simp: cache_ok_def)
  note m = mru_listD [OF xs]
  let ?v = "visited_linear c (size_plus_one c)"
  have v: "bit ?v j \<longleftrightarrow> Suc j \<in> set xs" for j
    using visited_linear_bit [OF m(8)] valid_in_list [OF xs, of "Suc j"] m(3) by auto
  have valid: "\<forall>y\<in>set xs. is_valid c y \<and> y \<le> 32"
  proof
    fix y assume y: "y \<in> set xs"
    then have "0 < y" "y < size_plus_one c" using m(3) by auto
    then show "is_valid c y \<and> y \<le> 32" using valid_in_list [OF xs] m(8) y by simp
  qed
  have len: "length xs \<le> size_plus_one c" using mru_length(1) [OF xs] by simp
  have e: "w = ?v" if "\<forall>j. bit w j \<longleftrightarrow> Suc j \<in> set xs" for w :: "32 word"
    using that v by (auto intro!: bit_eqI)
  have r: "hd0 (rev xs) = last0 0 xs" by (induction xs rule: rev_induct) auto
  have "visited_walk (size_plus_one c) c next_mru (hd0 xs) 0 = Some ?v"
    using visited_walk_ok [OF m(1,11,2) valid len, of 0] e by auto
  moreover have "visited_walk (size_plus_one c) c prev_mru (hd0 (rev xs)) 0 = Some ?v"
    using visited_walk_ok [of prev_mru c "nx c" 0 "rev xs" "size_plus_one c" 0]
      seg_rev [OF m(1)] m(2,11) valid len e by auto
  ultimately show ?thesis by (simp add: check_cache_sanity_def m(5,6) r)
qed

section \<open>Properties\<close>

definition range_hit :: "addr \<Rightarrow> nat \<Rightarrow> nat \<Rightarrow> addr \<times> addr \<times> nat \<times> nat \<times> int \<Rightarrow> bool" where
  "range_hit obj t require_period = (\<lambda>(b, l, t', p, d).
     t' = t \<and> b \<le> obj \<and> obj < l \<and>
     (obj = b \<or> p \<noteq> 0 \<and> (require_period = 0 \<or> p = require_period) \<and> p dvd obj - b))"

lemma entry_hit_range_hit: "entry_hit e obj t r = range_hit obj t r (range_of e)"
  by (auto simp: entry_hit_def range_hit_def range_of_def dvd_eq_mod_eq_0)

lemma lookup_lookup_range:
  "lookup_range (range_hit obj t r) c = rbind (memrange_cache_lookup c obj t r) (\<lambda>(i, c').
     Inr (if i = 0 then None else Some (range_of (entries c' i)), c'))"
  by (simp add: lookup_range_def memrange_cache_lookup_def entry_hit_range_hit)

lemma cache_init_ok: "cache_ok ool_cache_init" "cache_ranges ool_cache_init = []"
proof -
  have "mru_list ool_cache_init []"
    by (simp add: mru_list_def ool_cache_init_def LIBALLOCS_MEMRANGE_CACHE_MAX_SIZE_def)
  then show "cache_ok ool_cache_init" "cache_ranges ool_cache_init = []"
    using cache_ranges_list by (auto simp: cache_ok_def)
qed

text \<open>
  C12. Caching a range always succeeds and implements least-recently-used
  replacement: the range becomes the most recent one and, if the table was full,
  exactly the least recently used range is dropped.
\<close>

theorem cache_replaces_lru:
  assumes "cache_ok c"
  shows "\<exists>c'. cache_with_type c b l t d p = Inr c' \<and> cache_ok c' \<and>
    cache_ranges c' = (b, l, t, p, d) # take (size_plus_one c - 2) (cache_ranges c)"
  using cache_insert_ok [OF assms, of "(b, l, t, p, d)"]
  by (auto simp: cache_range_def numeral_2_eq_2)

theorem cache_replaces_lru_witness:
  "\<exists>c'. cache_with_type ool_cache_init 4096 4196 5 0 4 = Inr c' \<and> cache_ranges c' = [(4096, 4196, 5, 4, 0)]"
  using cache_replaces_lru [OF cache_init_ok(1), of 4096 4196 5 0 4] cache_init_ok(2) by auto

text \<open>
  C13. A lookup ends and finds the most recently used range that has the type,
  contains the address and has it at a multiple of its period; the range found
  moves to the front and nothing else changes.
\<close>

theorem lookup_finds_most_recent:
  assumes "cache_ok c"
  shows "\<exists>i c'. memrange_cache_lookup c obj t r = Inr (i, c') \<and> cache_ok c' \<and>
    (if i = 0 then None else Some (range_of (entries c' i))) =
      List.find (range_hit obj t r) (cache_ranges c) \<and>
    cache_ranges c' = move_to_front (range_hit obj t r) (cache_ranges c)"
proof -
  obtain c' where c': "lookup_range (range_hit obj t r) c =
      Inr (List.find (range_hit obj t r) (cache_ranges c), c')"
    "cache_ok c'" "cache_ranges c' = move_to_front (range_hit obj t r) (cache_ranges c)"
    using cache_lookup_ok [OF assms] by blast
  obtain i where "memrange_cache_lookup c obj t r = Inr (i, c')"
    "(if i = 0 then None else Some (range_of (entries c' i))) =
       List.find (range_hit obj t r) (cache_ranges c)"
    using c'(1) unfolding lookup_lookup_range rbind_eq_Inr by (auto simp del: find_None_iff)
  then show ?thesis using c'(2,3) by blast
qed

theorem lookup_finds_most_recent_witness:
  "\<exists>c'. memrange_cache_lookup ool_cache_init 4096 5 0 = Inr (0, c') \<and> cache_ranges c' = []"
  using lookup_finds_most_recent [OF cache_init_ok(1), of 4096 5 0]
  by (auto simp: cache_init_ok(2) move_to_front_def split: if_splits)

text \<open>
  A range that has just been cached is found: looking up any address in it, at
  a multiple of its period, with its type, gives an entry that holds the range.
\<close>

lemma cached_range_found:
  assumes "cache_ok c" "cache_with_type c b l t d p = Inr c1" "b \<le> obj" "obj < l"
    "obj = b \<or> p \<noteq> 0 \<and> p dvd obj - b"
  shows "\<exists>i c2. memrange_cache_lookup c1 obj t 0 = Inr (i, c2) \<and> i \<noteq> 0 \<and>
    range_of (entries c2 i) = (b, l, t, p, d)"
proof -
  have "range_hit obj t 0 (b, l, t, p, d)" using assms(3-5) by (simp add: range_hit_def)
  then obtain c2 where "lookup_range (range_hit obj t 0) c1 = Inr (Some (b, l, t, p, d), c2)"
    using range_cache.insert_then_look [OF assms(1), of "(b, l, t, p, d)" c1] assms(2)
    by (auto simp: cache_range_def)
  then show ?thesis
    unfolding lookup_lookup_range by (auto simp: rbind_eq_Inr split: if_splits)
qed

text \<open>
  C14. Invalidation removes from the cache exactly the ranges that begin in the
  given region and keeps the order of the others.
\<close>

theorem uncache_removes:
  assumes "cache_ok c"
  shows "cache_ok (uncache_all a sz c) \<and>
    cache_ranges (uncache_all a sz c) =
      filter (\<lambda>(b, _). \<not> (a \<le> b \<and> b < a + sz)) (cache_ranges c)"
proof -
  obtain xs where xs: "mru_list c xs" using assms by (auto simp: cache_ok_def)
  let ?in = "\<lambda>x. a \<le> obj_base (entries c x) \<and> obj_base (entries c x) < a + sz"
  let ?c = "uncache_all a sz c"
  have u: "mru_list ?c (filter (\<lambda>x. \<not> (1 \<le> x \<and> ?in x)) xs)"
    "\<And>j. range_of (entries ?c j) = range_of (entries c j)"
    using uncache_from_list [OF xs, of 1 "size_plus_one c - 1" a sz] mru_listD(7) [OF xs]
    by (auto simp: uncache_all_def)
  have "filter (\<lambda>x. \<not> (1 \<le> x \<and> ?in x)) xs = filter (\<lambda>x. \<not> ?in x) xs"
    using mru_listD(3) [OF xs] by (intro filter_cong) auto
  then have "cache_ranges ?c = map (\<lambda>i. range_of (entries c i)) (filter (\<lambda>x. \<not> ?in x) xs)"
    using cache_ranges_list [OF u(1)] u(2) by simp
  then show ?thesis
    using u(1) by (auto simp: cache_ok_def cache_ranges_list [OF xs] filter_map comp_def range_of_def)
qed

theorem uncache_removes_witness:
  "\<exists>c1. cache_with_type ool_cache_init 4096 4196 5 0 4 = Inr c1 \<and>
     cache_ranges (uncache_all 4096 100 c1) = []"
proof -
  obtain c1 where c1: "cache_with_type ool_cache_init 4096 4196 5 0 4 = Inr c1" "cache_ok c1"
    "cache_ranges c1 = [(4096, 4196, 5, 4, 0)]"
    using cache_insert_ok [OF cache_init_ok(1), of "(4096, 4196, 5, 4, 0)"] cache_init_ok(2)
    by (auto simp: cache_range_def)
  then show ?thesis using uncache_removes [OF c1(2), of 4096 100] by auto
qed

end
