(* ===== verification/Memtable.thy ===== *)
theory Memtable
  imports LA_Prelude "HOL-Library.Word" "HOL-Library.Signed_Division"
begin

text \<open>
  Memory tables (\<open>include/memtable.h\<close>): a linear table with one entry per
  fixed-size region of an address range.  Addresses and sizes are 64-bit words.
  The difference of two pointers is signed, and so is its quotient by an
  \<open>unsigned\<close>; the products are unsigned.  \<open>integer_log2\<close> (of the
  \<open>bitops.h\<close> of librunt), \<open>mmap\<close> and \<open>munmap\<close> are parameters.
\<close>

type_synonym word64 = "64 word"
type_synonym word32 = "32 word"

section \<open>The operations\<close>

text \<open>The signed quotient of a pointer difference by an \<open>unsigned\<close>.\<close>

definition ptrdiff_div :: "word64 \<Rightarrow> word32 \<Rightarrow> word64" where
  "ptrdiff_div d n = word_of_int (sint d sdiv uint n)"

text \<open>The arguments shared by all operations.\<close>

record memtable_shape =
  entry_size_in_bytes :: word32
  entry_coverage_in_bytes :: word32
  addr_begin :: word64
  addr_end :: word64

definition memtable_mapping_size :: "(word32 \<Rightarrow> nat) \<Rightarrow> memtable_shape \<Rightarrow> word64" where
  "memtable_mapping_size integer_log2 m =
     (let log2_coverage = integer_log2 (entry_coverage_in_bytes m);
          range_size = addr_end m - addr_begin m;
          full_as_size_shift = 64;
          full_as_nentries_shift = full_as_size_shift - log2_coverage;
          nentries = (if range_size = 0 then push_bit full_as_nentries_shift 1
                      else range_size div ucast (entry_coverage_in_bytes m))
      in nentries * ucast (entry_size_in_bytes m))"

text \<open>
  \<open>mmap\<close> takes the placement, the length and whether the placement is fixed;
  the protection and the other flags are constant.
\<close>

definition memtable_new_at_addr :: "(word32 \<Rightarrow> nat) \<Rightarrow> (word64 \<Rightarrow> word64 \<Rightarrow> bool \<Rightarrow> word64) \<Rightarrow>
    memtable_shape \<Rightarrow> word64 \<Rightarrow> word64" where
  "memtable_new_at_addr integer_log2 mmap m placement_addr =
     mmap placement_addr (memtable_mapping_size integer_log2 m) (placement_addr \<noteq> 0)"

definition memtable_new :: "(word32 \<Rightarrow> nat) \<Rightarrow> (word64 \<Rightarrow> word64 \<Rightarrow> bool \<Rightarrow> word64) \<Rightarrow>
    memtable_shape \<Rightarrow> word64" where
  "memtable_new integer_log2 mmap m = memtable_new_at_addr integer_log2 mmap m 0"

definition memtable_index :: "word64 \<Rightarrow> memtable_shape \<Rightarrow> word64 \<Rightarrow> word64" where
  "memtable_index memtable m index = memtable + ucast (entry_size_in_bytes m) * index"

definition memtable_addr :: "word64 \<Rightarrow> memtable_shape \<Rightarrow> word64 \<Rightarrow> word64" where
  "memtable_addr memtable m a =
     memtable_index memtable m (ptrdiff_div (a - addr_begin m) (entry_coverage_in_bytes m))"

definition memtable_entry_range_base :: "word64 \<Rightarrow> memtable_shape \<Rightarrow> word64 \<Rightarrow> word64" where
  "memtable_entry_range_base memtable m memtable_entry_ptr =
     ptrdiff_div (memtable_entry_ptr - memtable) (entry_size_in_bytes m) *
       ucast (entry_coverage_in_bytes m) + addr_begin m"

definition memtable_addr_range_base :: "word64 \<Rightarrow> memtable_shape \<Rightarrow> word64 \<Rightarrow> word64" where
  "memtable_addr_range_base memtable m a =
     memtable_entry_range_base memtable m (memtable_addr memtable m a)"

definition memtable_addr_range_offset :: "word64 \<Rightarrow> memtable_shape \<Rightarrow> word64 \<Rightarrow> word64" where
  "memtable_addr_range_offset memtable m a = a - memtable_addr_range_base memtable m a"

definition memtable_free :: "(word32 \<Rightarrow> nat) \<Rightarrow> (word64 \<Rightarrow> word64 \<Rightarrow> int) \<Rightarrow> word64 \<Rightarrow>
    memtable_shape \<Rightarrow> int" where
  "memtable_free integer_log2 munmap memtable m =
     munmap memtable (memtable_mapping_size integer_log2 m)"

section \<open>No wrap-around in range\<close>

lemma sint_small:
  assumes "unat (w :: word64) < 2 ^ 63" shows "sint w = uint w"
proof -
  have "int (unat w) < int (2 ^ 63)" using assms by (simp only: of_nat_less_iff)
  moreover have "- (2 ^ 63) \<le> uint w" using uint_ge_0 [of w] by (rule order_trans [rotated]) simp
  ultimately show ?thesis by (simp add: sint_uint signed_take_bit_int_eq_self)
qed

lemma ptrdiff_div_small:
  assumes "unat d < 2 ^ 63" "0 < unat n"
  shows "ptrdiff_div d n = of_nat (unat d div unat n)"
proof -
  have pos: "0 < uint n" using assms(2) by (metis of_nat_0_less_iff of_nat_unat)
  have "sint d sdiv uint n = uint d div uint n"
    using pos unfolding sint_small [OF assms(1)] signed_divide_int_def
    by (auto simp: sgn_if)
  also have "... = int (unat d div unat n)" by (simp add: zdiv_int)
  finally show ?thesis by (simp add: ptrdiff_div_def)
qed

lemma unat_diff: "(b :: word64) \<le> a \<Longrightarrow> unat (a - b) = unat a - unat b"
  by (rule unat_sub)

lemma ucast_of_nat: "(ucast (w :: word32) :: word64) = of_nat (unat w)"
  by (simp add: unsigned_word_eqI word_eq_iff_unsigned)

text \<open>A range, an entry size and a coverage for which the table fits in half the address space.\<close>

definition shape_ok :: "memtable_shape \<Rightarrow> bool" where
  "shape_ok m \<longleftrightarrow> 0 < entry_coverage_in_bytes m \<and> 0 < entry_size_in_bytes m \<and>
     addr_begin m < addr_end m \<and> unat (addr_end m) - unat (addr_begin m) < 2 ^ 63 \<and>
     unat (entry_coverage_in_bytes m) dvd unat (addr_end m) - unat (addr_begin m) \<and>
     (unat (addr_end m) - unat (addr_begin m)) div unat (entry_coverage_in_bytes m) *
       unat (entry_size_in_bytes m) < 2 ^ 63"

lemma unat_bound: "unat (a :: word64) < 2 ^ 64" "unat (b :: word32) < 2 ^ 32"
  by (rule order_less_le_trans [OF unsigned_less], simp)+

lemma unat_small: "x < 2 ^ 64 \<Longrightarrow> unat (of_nat x :: word64) = x"
  by (simp add: unat_of_nat)

lemma unat_small_mult: "x * y < 2 ^ 64 \<Longrightarrow> unat (of_nat x * of_nat y :: word64) = x * y"
  using unat_small [of "x * y"] by (simp only: of_nat_mult)

lemma entry_offset:
  assumes "shape_ok m" "addr_begin m \<le> a" "a < addr_end m"
  defines "i \<equiv> (unat a - unat (addr_begin m)) div unat (entry_coverage_in_bytes m)"
  shows "unat (memtable_addr t m a - t) = unat (entry_size_in_bytes m) * i"
    "i < (unat (addr_end m) - unat (addr_begin m)) div unat (entry_coverage_in_bytes m)"
proof -
  let ?c = "unat (entry_coverage_in_bytes m)" and ?e = "unat (entry_size_in_bytes m)"
  have c: "0 < ?c" "0 < ?e" using assms(1) by (auto simp: shape_ok_def word_less_nat_alt)
  have lt: "unat a - unat (addr_begin m) < unat (addr_end m) - unat (addr_begin m)"
    using assms(2,3) by (simp add: word_less_nat_alt word_le_nat_alt)
  obtain k where k: "unat (addr_end m) - unat (addr_begin m) = ?c * k"
    using assms(1) by (auto simp: shape_ok_def elim: dvdE)
  show i: "i < (unat (addr_end m) - unat (addr_begin m)) div ?c"
    using lt c(1) unfolding k i_def by (simp add: less_mult_imp_div_less mult.commute)
  have d: "unat (a - addr_begin m) < 2 ^ 63" "unat (a - addr_begin m) = unat a - unat (addr_begin m)"
    using lt assms(1) unat_diff [OF assms(2)] by (auto simp: shape_ok_def)
  have "(unat (addr_end m) - unat (addr_begin m)) div ?c * ?e < 2 ^ 63"
    using assms(1) unfolding shape_ok_def by blast
  moreover have "i * ?e \<le> (unat (addr_end m) - unat (addr_begin m)) div ?c * ?e"
    using i by (intro mult_right_mono) auto
  ultimately have "?e * i < 2 ^ 63" by (simp only: mult.commute [of ?e] le_less_trans)
  then have "unat (of_nat ?e * of_nat i :: word64) = ?e * i"
    by (intro unat_small_mult) simp
  moreover have "memtable_addr t m a - t = of_nat ?e * of_nat i"
    unfolding memtable_addr_def memtable_index_def ptrdiff_div_small [OF d(1) c(1)] d(2) i_def
      ucast_of_nat by simp
  ultimately show "unat (memtable_addr t m a - t) = ?e * i" by simp
qed

section \<open>Properties\<close>

text \<open>
  C15. The entry of an address in a table's range lies inside the table's mapping,
  and the base of the region that the entry covers is the last multiple of the
  coverage, counted from the beginning of the range, at or below the address: the
  map from addresses to entries and the map back are inverse.
\<close>

theorem entry_covers_addr:
  assumes "shape_ok m" "addr_begin m \<le> a" "a < addr_end m"
  shows "unat (memtable_addr t m a - t) + unat (entry_size_in_bytes m)
      \<le> unat (memtable_mapping_size lg m) \<and>
    unat (memtable_addr_range_base t m a) =
      unat a - (unat a - unat (addr_begin m)) mod unat (entry_coverage_in_bytes m) \<and>
    unat (memtable_addr_range_offset t m a) =
      (unat a - unat (addr_begin m)) mod unat (entry_coverage_in_bytes m)"
proof -
  let ?c = "unat (entry_coverage_in_bytes m)" and ?e = "unat (entry_size_in_bytes m)"
  let ?n = "(unat (addr_end m) - unat (addr_begin m)) div ?c"
  let ?d = "unat a - unat (addr_begin m)"
  note o = entry_offset [OF assms]
  have c: "0 < ?c" "0 < ?e" using assms(1) by (auto simp: shape_ok_def word_less_nat_alt)
  have ne: "?n * ?e < 2 ^ 63" using assms(1) unfolding shape_ok_def by blast
  have "?d div ?c * ?e + ?e \<le> ?n * ?e"
    using o(2) by (metis Suc_leI add.commute mult_Suc mult_right_mono zero_le)
  moreover have "unat (memtable_mapping_size lg m) = ?n * ?e"
  proof -
    let ?q = "(addr_end m - addr_begin m) div ucast (entry_coverage_in_bytes m)"
    have "addr_end m - addr_begin m \<noteq> 0"
      "unat (addr_end m - addr_begin m) = unat (addr_end m) - unat (addr_begin m)"
      using assms(1) unat_diff [of "addr_begin m" "addr_end m"] by (auto simp: shape_ok_def)
    moreover have "unat (ucast (entry_coverage_in_bytes m) :: word64) = ?c"
      unfolding ucast_of_nat using unat_bound(2) [of "entry_coverage_in_bytes m"]
      by (intro unat_small) simp
    ultimately have q: "unat ?q = ?n" and s: "memtable_mapping_size lg m = ?q * ucast (entry_size_in_bytes m)"
      by (simp_all add: unat_div_distrib memtable_mapping_size_def)
    have "?q = of_nat (unat ?q)" by simp
    then have "?q = of_nat ?n" unfolding q .
    then have "memtable_mapping_size lg m = of_nat ?n * of_nat ?e" by (simp only: s ucast_of_nat)
    then show ?thesis using unat_small_mult [of ?n ?e] ne by simp
  qed
  ultimately have inside: "unat (memtable_addr t m a - t) + ?e \<le> unat (memtable_mapping_size lg m)"
    unfolding o(1) by (simp add: mult.commute)
  have small: "unat (memtable_addr t m a - t) < 2 ^ 63"
    using inside ne \<open>unat (memtable_mapping_size lg m) = ?n * ?e\<close> by linarith
  have ba: "unat (addr_begin m) \<le> unat a" using assms(2) by (simp add: word_le_nat_alt)
  have le: "?d div ?c * ?c \<le> ?d" by simp
  have "memtable_addr_range_base t m a = of_nat (?d div ?c * ?c + unat (addr_begin m))"
    unfolding memtable_addr_range_base_def memtable_entry_range_base_def
      ptrdiff_div_small [OF small c(2)] o(1) ucast_of_nat using c(2) by simp
  moreover have "?d div ?c * ?c + unat (addr_begin m) = unat a - ?d mod ?c"
    using ba div_mult_mod_eq [of ?d ?c] by linarith
  ultimately have base: "unat (memtable_addr_range_base t m a) = unat a - ?d mod ?c"
    using unat_small [of "unat a - ?d mod ?c"] unat_bound(1) [of a] by simp
  moreover have "unat (memtable_addr_range_offset t m a) = ?d mod ?c"
  proof -
    have "?d mod ?c \<le> unat a" using ba by (meson diff_le_self mod_less_eq_dividend order_trans)
    moreover have "memtable_addr_range_base t m a \<le> a" using base by (simp add: word_le_nat_alt)
    ultimately show ?thesis using base by (simp add: memtable_addr_range_offset_def unat_diff)
  qed
  ultimately show ?thesis using inside by blast
qed

theorem entry_covers_addr_witness:
  "unat (memtable_addr_range_base 1048576 \<lparr>entry_size_in_bytes = 8, entry_coverage_in_bytes = 4096,
     addr_begin = 65536, addr_end = 131072\<rparr> 70000) = 69632"
  using entry_covers_addr [of "\<lparr>entry_size_in_bytes = 8, entry_coverage_in_bytes = 4096,
     addr_begin = 65536, addr_end = 131072\<rparr>" 70000 1048576 "\<lambda>_. 12"]
  by (simp add: shape_ok_def)

end
