(* ===== verification/Uniqtypes.thy ===== *)
theory Uniqtypes
  imports LA_Prelude
begin

text \<open>
  What the run-time reads of a type descriptor.  The descriptors and the macros
  that read them belong to libuniqtype, which is not part of this repository, so
  they are a parameter: a record of functions on descriptor addresses (0 is the
  null descriptor).
\<close>

datatype ut_kind = VOID | ARRAY | BASE | ENUMERATION | COMPOSITE | ADDRESS | SUBPROGRAM | SUBRANGE

record ut_ops =
  ut_kind :: "nat \<Rightarrow> ut_kind"                  \<comment> \<open>\<open>UNIQTYPE_KIND\<close>\<close>
  ut_size :: "nat \<Rightarrow> nat"                      \<comment> \<open>\<open>UNIQTYPE_SIZE_IN_BYTES\<close>\<close>
  ut_is_pointer :: "nat \<Rightarrow> bool"               \<comment> \<open>\<open>UNIQTYPE_IS_POINTER_TYPE\<close>\<close>
  ut_pointee :: "nat \<Rightarrow> nat"                   \<comment> \<open>\<open>UNIQTYPE_POINTEE_TYPE\<close>\<close>
  ut_element :: "nat \<Rightarrow> nat"                   \<comment> \<open>\<open>UNIQTYPE_ARRAY_ELEMENT_TYPE\<close>\<close>
  ut_length :: "nat \<Rightarrow> nat"                    \<comment> \<open>\<open>UNIQTYPE_ARRAY_LENGTH\<close>\<close>
  ut_members :: "nat \<Rightarrow> (nat \<times> nat) list"       \<comment> \<open>the members' types and offsets, in order\<close>
  ut_has_subobjects :: "nat \<Rightarrow> bool"           \<comment> \<open>\<open>UNIQTYPE_HAS_SUBOBJECTS\<close>\<close>
  ut_subobjects :: "nat \<Rightarrow> (nat \<times> nat) list"    \<comment> \<open>what \<open>UNIQTYPE_FOR_EACH_SUBOBJECT\<close> visits\<close>

end
