(* ===== verification/Bfs.thy ===== *)
theory Bfs
  imports Uniqtypes Linked_Lists "HOL-Library.Monad_Syntax" "HOL-Library.Tree"
begin

text \<open>
  The breadth-first walk of the object graph (\<open>src/uniqtype-bfs.c\<close>,
  \<open>include/uniqtype-bfs.h\<close>): the linked queue of nodes, the maps kept with
  \<open>tsearch\<close>, the adjacency list of an object, and the walk.

  A loop that does not return, and a recursion into a type that contains itself,
  have the value \<open>None\<close>.  The trees of \<open>tsearch\<close> are binary trees searched
  by the sign of \<open>compar\<close>; how an insertion rebalances them is left open by POSIX and is
  a parameter that gives the rotations.  Memory does not run out, and is a function from
  addresses to the pointers stored there.  Messages to the standard error stream and
  the debug file are left out.
\<close>

section \<open>The queue of nodes\<close>

record node_rec =
  n_obj :: nat
  n_t :: nat
  n_next :: nat

text \<open>
  A tree of \<open>tsearch\<close>: its nodes hold a \<open>struct pair\<close> and what the library keeps
  there for balancing.
\<close>

type_synonym treemap = "((nat \<times> nat) \<times> nat) tree"

text \<open>
  The nodes allocated so far (0 is the null pointer), the next fresh node, the nodes
  freed, the work queue, the three maps, and the calls of \<open>on_blacken\<close>.
\<close>

record bfs_state =
  nodes :: "nat \<Rightarrow> node_rec"
  fresh :: nat
  freed_nodes :: "nat list"
  q_head :: nat
  q_tail :: nat
  colours :: treemap
  distances :: treemap
  predecessors :: treemap
  blackened :: "(nat \<times> nat) list"

definition set_n_next :: "nat \<Rightarrow> nat \<Rightarrow> bfs_state \<Rightarrow> bfs_state" where
  "set_n_next i n s = s\<lparr>nodes := (nodes s)(i := (nodes s i)\<lparr>n_next := n\<rparr>)\<rparr>"

definition node_queue_push_tail :: "nat \<times> nat \<Rightarrow> nat \<Rightarrow> bfs_state \<Rightarrow> (nat \<times> nat) \<times> bfs_state" where
  "node_queue_push_tail q to_enqueue s =
     (let (old_head_node, old_tail_node) = q in
      if old_tail_node \<noteq> 0
      then ((old_head_node, to_enqueue), set_n_next old_tail_node to_enqueue s)
      else ((to_enqueue, to_enqueue), s))"

definition node_queue_pop_head :: "nat \<times> nat \<Rightarrow> bfs_state \<Rightarrow> nat \<times> (nat \<times> nat) \<times> bfs_state" where
  "node_queue_pop_head q s =
     (let (old_head_node, old_tail_node) = q in
      if old_head_node \<noteq> 0
      then let h = n_next (nodes s old_head_node)
           in (old_head_node, (h, if h = 0 then 0 else old_tail_node), set_n_next old_head_node 0 s)
      else (0, q, s))"

definition node_queue_empty :: "nat \<times> nat \<Rightarrow> bool" where
  "node_queue_empty q \<longleftrightarrow> fst q = 0"

definition make_node :: "nat \<Rightarrow> nat \<Rightarrow> bfs_state \<Rightarrow> nat \<times> bfs_state" where
  "make_node obj t s =
     (fresh s, s\<lparr>nodes := (nodes s)(fresh s := \<lparr>n_obj = obj, n_t = t, n_next = 0\<rparr>),
        fresh := fresh s + 1\<rparr>)"

section \<open>The maps\<close>

datatype node_colour = WHITE | GREY | BLACK

fun colour_num :: "node_colour \<Rightarrow> nat" where
  "colour_num WHITE = 0"
| "colour_num GREY = 1"
| "colour_num BLACK = 2"

text \<open>The difference of the keys, returned as an \<open>int\<close> of 32 bits.\<close>

definition compar :: "nat \<Rightarrow> nat \<Rightarrow> int" where
  "compar key1 key2 = signed_take_bit 31 (int key1 - int key2)"

text \<open>\<open>tfind\<close>, and the assignment through the node that it finds.\<close>

fun tfind :: "nat \<Rightarrow> treemap \<Rightarrow> (nat \<times> nat) option" where
  "tfind key Leaf = None"
| "tfind key (Node l (p, m) r) =
     (if compar key (fst p) = 0 then Some p
      else if compar key (fst p) < 0 then tfind key l else tfind key r)"

fun assign_found :: "nat \<Rightarrow> nat \<Rightarrow> treemap \<Rightarrow> treemap" where
  "assign_found key val Leaf = Leaf"
| "assign_found key val (Node l (p, m) r) =
     (if compar key (fst p) = 0 then Node l ((fst p, val), m) r
      else if compar key (fst p) < 0 then Node (assign_found key val l) (p, m) r
      else Node l (p, m) (assign_found key val r))"

text \<open>
  \<open>tsearch\<close> for a key that is not there: a new leaf where the search ended, then
  rotations at nodes given by their path from the root and changes of what the library
  keeps at a node.
\<close>

datatype balance_step = Rotate_Left "bool list" | Rotate_Right "bool list" | Mark "bool list" nat

fun rotate_left :: "'a tree \<Rightarrow> 'a tree" where
  "rotate_left (Node a x (Node b y c)) = Node (Node a x b) y c"
| "rotate_left t = t"

fun rotate_right :: "'a tree \<Rightarrow> 'a tree" where
  "rotate_right (Node (Node a x b) y c) = Node a x (Node b y c)"
| "rotate_right t = t"

fun set_mark :: "nat \<Rightarrow> treemap \<Rightarrow> treemap" where
  "set_mark n Leaf = Leaf"
| "set_mark n (Node l (p, m) r) = Node l (p, n) r"

fun at_path :: "bool list \<Rightarrow> ('a tree \<Rightarrow> 'a tree) \<Rightarrow> 'a tree \<Rightarrow> 'a tree" where
  "at_path [] f t = f t"
| "at_path (d # ds) f Leaf = Leaf"
| "at_path (d # ds) f (Node l x r) =
     (if d then Node l x (at_path ds f r) else Node (at_path ds f l) x r)"

fun balance :: "balance_step \<Rightarrow> treemap \<Rightarrow> treemap" where
  "balance (Rotate_Left ds) t = at_path ds rotate_left t"
| "balance (Rotate_Right ds) t = at_path ds rotate_right t"
| "balance (Mark ds n) t = at_path ds (set_mark n) t"

fun add_leaf :: "nat \<times> nat \<Rightarrow> treemap \<Rightarrow> treemap" where
  "add_leaf q Leaf = Node Leaf (q, 0) Leaf"
| "add_leaf q (Node l (p, m) r) =
     (if compar (fst q) (fst p) = 0 then Node l (p, m) r
      else if compar (fst q) (fst p) < 0 then Node (add_leaf q l) (p, m) r
      else Node l (p, m) (add_leaf q r))"

definition tsearch :: "(treemap \<Rightarrow> balance_step list) \<Rightarrow> nat \<times> nat \<Rightarrow> treemap \<Rightarrow> treemap" where
  "tsearch rebalance q root = (let t = add_leaf q root in fold balance (rebalance t) t)"

definition treemap_get :: "treemap \<Rightarrow> nat \<Rightarrow> nat" where
  "treemap_get root key = (case tfind key root of None \<Rightarrow> 0 | Some p \<Rightarrow> snd p)"

definition treemap_set :: "(treemap \<Rightarrow> balance_step list) \<Rightarrow> treemap \<Rightarrow> nat \<Rightarrow> nat \<Rightarrow> treemap" where
  "treemap_set rebalance root key val =
     (case tfind key root of
        Some _ \<Rightarrow> assign_found key val root
      | None \<Rightarrow> tsearch rebalance (key, val) root)"

definition treemap_delete :: "treemap \<Rightarrow> treemap" where
  "treemap_delete root = Leaf"

section \<open>The adjacency list\<close>

text \<open>
  What the walk depends on: the type descriptors, memory, the function that follows
  a pointer, the address of the descriptor of \<open>void *\<close>, and how \<open>tsearch\<close>
  rebalances a tree.
\<close>

record bfs_params =
  ops :: ut_ops
  load_ptr :: "nat \<Rightarrow> nat"
  follow_ptr :: "nat \<times> nat \<Rightarrow> nat \<times> nat"
  pointer_to_void :: nat
  rebalance :: "treemap \<Rightarrow> balance_step list"

definition IS_PLAUSIBLE_POINTER :: "nat \<Rightarrow> bool" where
  "IS_PLAUSIBLE_POINTER p \<longleftrightarrow> p = 0 \<or> p = 2 ^ 64 - 1 \<or> 4194304 \<le> p \<and> p < 0x800000000000"

text \<open>A pointer member: what it points to is made a node at the tail of the list.\<close>

definition visit_pointer :: "bfs_params \<Rightarrow> nat \<Rightarrow> nat \<Rightarrow> nat \<times> nat \<Rightarrow> bfs_state \<Rightarrow>
    (nat \<times> nat) \<times> bfs_state" where
  "visit_pointer P element_type a adj s =
     (let pointed_to_object = load_ptr P a in
      if pointed_to_object \<noteq> 0 \<and> IS_PLAUSIBLE_POINTER pointed_to_object then
        let (ptr, t) = follow_ptr P (pointed_to_object, ut_pointee (ops P) element_type)
        in if ptr \<noteq> 0
           then let (n, s) = make_node ptr t s in node_queue_push_tail adj n s
           else (adj, s)
      else (adj, s))"

text \<open>
  \<open>build_adjacency_list_recursive\<close> and its loop over the subobjects, whose body
  is \<open>visit_one_subobject\<close>; the fuel bounds the nesting of types.
\<close>

fun build_adjacency_list_recursive :: "nat \<Rightarrow> bfs_params \<Rightarrow> nat \<Rightarrow> nat \<Rightarrow> nat \<Rightarrow> nat \<times> nat \<Rightarrow>
    bfs_state \<Rightarrow> ((nat \<times> nat) \<times> bfs_state) option"
  and visit_subobjects :: "nat \<Rightarrow> bfs_params \<Rightarrow> nat \<Rightarrow> nat \<Rightarrow> (nat \<times> nat) list \<Rightarrow> nat \<times> nat \<Rightarrow>
    bfs_state \<Rightarrow> ((nat \<times> nat) \<times> bfs_state) option" where
  "build_adjacency_list_recursive fuel P obj_start start_offset t_at_offset adj s =
     (if t_at_offset = pointer_to_void P then Some (adj, s)
      else if t_at_offset = 0 then Some (adj, s)
      else if \<not> ut_has_subobjects (ops P) t_at_offset then Some (adj, s)
      else case fuel of 0 \<Rightarrow> None
        | Suc n \<Rightarrow> visit_subobjects n P obj_start start_offset
                     (ut_subobjects (ops P) t_at_offset) adj s)"
| "visit_subobjects fuel P obj_start start_offset [] adj s = Some (adj, s)"
| "visit_subobjects fuel P obj_start start_offset ((element_type, memb_offset) # rest) adj s =
     (if ut_is_pointer (ops P) element_type
      then let (adj, s) = visit_pointer P element_type (obj_start + start_offset + memb_offset) adj s
           in visit_subobjects fuel P obj_start start_offset rest adj s
      else if ut_kind (ops P) element_type = COMPOSITE
      then do {
        (adj, s) \<leftarrow> build_adjacency_list_recursive fuel P obj_start
          (start_offset + memb_offset) element_type adj s;
        visit_subobjects fuel P obj_start start_offset rest adj s
      }
      else visit_subobjects fuel P obj_start start_offset rest adj s)"

section \<open>The walk\<close>

text \<open>The loop that enqueues the white neighbours.\<close>

partial_function (option) enqueue_white ::
    "bfs_params \<Rightarrow> nat \<times> nat \<Rightarrow> bfs_state \<Rightarrow> bfs_state option" where
  "enqueue_white P adj s =
     (let (v, adj, s) = node_queue_pop_head adj s in
      if v = 0 then Some s
      else
        let obj = n_obj (nodes s v);
            colour = treemap_get (colours s) obj;
            s = (if colour = colour_num WHITE
                 then
                   let s = s\<lparr>colours := treemap_set (rebalance P) (colours s) obj (colour_num GREY),
                         distances := treemap_set (rebalance P) (distances s) obj
                           (treemap_get (distances s) obj + 1),
                         predecessors := treemap_set (rebalance P) (predecessors s) obj obj\<rparr>;
                       ((h, t), s) = node_queue_push_tail (q_head s, q_tail s) v s
                   in s\<lparr>q_head := h, q_tail := t\<rparr>
                 else s\<lparr>freed_nodes := freed_nodes s @ [v]\<rparr>)
        in enqueue_white P adj s)"

partial_function (option) process_bfs_queue_and_maps ::
    "nat \<Rightarrow> bfs_params \<Rightarrow> bfs_state \<Rightarrow> bfs_state option" where
  "process_bfs_queue_and_maps fuel P s =
     (if node_queue_empty (q_head s, q_tail s) then Some s
      else
        let (u, (h, t), s) = node_queue_pop_head (q_head s, q_tail s) s;
            obj = n_obj (nodes s u);
            s = s\<lparr>q_head := h, q_tail := t,
                  colours := treemap_set (rebalance P) (colours s) obj (colour_num GREY)\<rparr>
        in do {
          (adj, s) \<leftarrow> build_adjacency_list_recursive fuel P obj 0 (n_t (nodes s u)) (0, 0) s;
          s \<leftarrow> enqueue_white P adj s;
          process_bfs_queue_and_maps fuel P
            (s\<lparr>colours := treemap_set (rebalance P) (colours s) obj (colour_num BLACK),
               blackened := blackened s @ [(obj, n_t (nodes s u))],
               freed_nodes := freed_nodes s @ [u]\<rparr>)
        })"

definition process_bfs_queue :: "nat \<Rightarrow> bfs_params \<Rightarrow> bfs_state \<Rightarrow> bfs_state option" where
  "process_bfs_queue fuel P s =
     do {
       s \<leftarrow> process_bfs_queue_and_maps fuel P
              (s\<lparr>colours := Leaf, distances := Leaf, predecessors := Leaf\<rparr>);
       Some (s\<lparr>colours := treemap_delete (colours s), distances := treemap_delete (distances s),
               predecessors := treemap_delete (predecessors s)\<rparr>)
     }"

definition walk_bfs_from_object :: "nat \<Rightarrow> bfs_params \<Rightarrow> nat \<Rightarrow> nat \<Rightarrow> bfs_state \<Rightarrow>
    bfs_state option" where
  "walk_bfs_from_object fuel P object t s =
     (if object = 0 then Some s
      else let (n, s) = make_node object t s;
               ((h, tl), s) = node_queue_push_tail (0, 0) n s
           in process_bfs_queue fuel P (s\<lparr>q_head := h, q_tail := tl\<rparr>))"

end
