(* ===== verification/Bfs_Correct.thy ===== *)
theory Bfs_Correct
  imports Bfs
begin

text \<open>
  Correctness of the breadth-first walk: the linked queue is a FIFO list, the maps
  are maps on addresses that lie within 2 GiB modulo \<open>2 ^ 32\<close> (their comparison
  truncates, and is an order only there) however the trees are rebalanced, and the walk ends having visited each reachable object once.
\<close>

section \<open>The maps\<close>

text \<open>
  Where an address lies, modulo \<open>2 ^ 32\<close>, in the 4 GiB that begin at \<open>c\<close>.
\<close>

definition window_off :: "nat \<Rightarrow> nat \<Rightarrow> int" where
  "window_off c a = (int a - int c) mod 2 ^ 32"

definition in_window :: "nat \<Rightarrow> nat \<Rightarrow> bool" where
  "in_window c a \<longleftrightarrow> window_off c a < 2 ^ 31"

lemma compar_zero: "compar a b = 0 \<longleftrightarrow> a mod 2 ^ 32 = b mod 2 ^ 32"
proof -
  have "compar a b = 0 \<longleftrightarrow> take_bit 32 (int a - int b) = 0"
    using signed_take_bit_eq_iff_take_bit_eq [of 31 "int a - int b" 0] by (simp add: compar_def)
  also have "... \<longleftrightarrow> int a mod 2 ^ 32 = int b mod 2 ^ 32"
    unfolding take_bit_eq_0_iff mod_eq_dvd_iff ..
  also have "... \<longleftrightarrow> int (a mod 2 ^ 32) = int (b mod 2 ^ 32)" unfolding of_nat_mod by simp
  also have "... \<longleftrightarrow> a mod 2 ^ 32 = b mod 2 ^ 32" by (rule of_nat_eq_iff)
  finally show ?thesis .
qed

text \<open>Within 2 GiB the truncated difference is the difference: the comparison is an order.\<close>

lemma compar_window:
  assumes "in_window c a" "in_window c b"
  shows "compar a b = window_off c a - window_off c b"
proof -
  let ?d = "window_off c a - window_off c b"
  have "?d mod 2 ^ 32 = (int a - int b) mod 2 ^ 32"
    unfolding window_off_def mod_diff_eq by simp
  then have "take_bit 32 ?d = take_bit 32 (int a - int b)" unfolding take_bit_eq_mod .
  then have "signed_take_bit 31 ?d = signed_take_bit 31 (int a - int b)"
    using signed_take_bit_eq_iff_take_bit_eq [of 31 ?d "int a - int b"] by simp
  moreover have "signed_take_bit 31 ?d = ?d"
  proof (rule signed_take_bit_int_eq_self)
    have "0 \<le> window_off c a" "0 \<le> window_off c b" by (simp_all add: window_off_def)
    then show "- (2 ^ 31) \<le> ?d" "?d < 2 ^ 31" using assms by (simp_all add: in_window_def)
  qed
  ultimately show ?thesis by (simp add: compar_def)
qed

lemma window_off_eq:
  assumes "in_window c a" "in_window c b"
  shows "window_off c a = window_off c b \<longleftrightarrow> a mod 2 ^ 32 = b mod 2 ^ 32"
  using compar_window [OF assms] compar_zero [of a b] by simp

text \<open>The pairs of a tree in order, and the trees that are sorted.\<close>

abbreviation pairs :: "treemap \<Rightarrow> (nat \<times> nat) list" where
  "pairs t \<equiv> map fst (inorder t)"

definition treemap_inv :: "nat \<Rightarrow> treemap \<Rightarrow> bool" where
  "treemap_inv c t \<longleftrightarrow> (\<forall>p\<in>set (pairs t). in_window c (fst p)) \<and>
     sorted_wrt (\<lambda>p q. window_off c (fst p) < window_off c (fst q)) (pairs t)"

lemma treemap_inv_simps [simp]:
  "treemap_inv c Leaf"
  "treemap_inv c (Node l (p, m) r) \<longleftrightarrow> treemap_inv c l \<and> treemap_inv c r \<and> in_window c (fst p) \<and>
     (\<forall>q\<in>set (pairs l). window_off c (fst q) < window_off c (fst p)) \<and>
     (\<forall>q\<in>set (pairs r). window_off c (fst p) < window_off c (fst q))"
  by (force simp: treemap_inv_def sorted_wrt_append dest: less_trans)+

lemma rotations_inorder [simp]:
  "inorder (rotate_left t) = inorder t" "inorder (rotate_right t) = inorder t"
  by (cases t rule: rotate_left.cases; simp) (cases t rule: rotate_right.cases; simp)

lemma set_mark_pairs [simp]: "pairs (set_mark n t) = pairs t"
  by (cases "(n, t)" rule: set_mark.cases) auto

lemma at_path_pairs:
  assumes "\<And>t. pairs (f t) = pairs t"
  shows "pairs (at_path ds f t) = pairs t"
  using assms by (induction ds f t rule: at_path.induct) auto

lemma balance_pairs [simp]: "pairs (balance b t) = pairs t"
  by (cases b) (simp_all add: at_path_pairs)

lemma rebalanced_pairs [simp]: "pairs (fold balance bs t) = pairs t"
  by (induction bs arbitrary: t) simp_all

lemma tfind_iff:
  assumes "treemap_inv c t" "in_window c k"
  shows "tfind k t = Some p \<longleftrightarrow> p \<in> set (pairs t) \<and> window_off c (fst p) = window_off c k"
  using assms
proof (induction k t rule: tfind.induct)
  case (2 key l q m r)
  have "compar key (fst q) = window_off c key - window_off c (fst q)"
    using 2(3,4) by (intro compar_window) simp_all
  then show ?case using 2 by (cases "window_off c key" "window_off c (fst q)" rule: linorder_cases) auto
qed simp

lemma assign_found_pairs:
  assumes "treemap_inv c t" "in_window c k"
  shows "pairs (assign_found k v t) =
    map (\<lambda>p. if window_off c (fst p) = window_off c k then (fst p, v) else p) (pairs t)"
  using assms
proof (induction k v t rule: assign_found.induct)
  case (2 key v l q m r)
  have "compar key (fst q) = window_off c key - window_off c (fst q)"
    using 2(3,4) by (intro compar_window) simp_all
  then show ?case using 2 by (cases "window_off c key" "window_off c (fst q)" rule: linorder_cases) auto
qed simp

lemma add_leaf_inv:
  assumes "treemap_inv c t" "in_window c (fst q)" "tfind (fst q) t = None"
  shows "treemap_inv c (add_leaf q t) \<and> set (pairs (add_leaf q t)) = insert q (set (pairs t))"
  using assms
proof (induction q t rule: add_leaf.induct)
  case (2 q l p m r)
  have "compar (fst q) (fst p) = window_off c (fst q) - window_off c (fst p)"
    using 2(3,4) by (intro compar_window) simp_all
  then show ?case using 2 by (cases "window_off c (fst q)" "window_off c (fst p)" rule: linorder_cases) auto
qed simp

lemma tsearch_inv:
  assumes "treemap_inv c t" "in_window c (fst q)" "tfind (fst q) t = None"
  shows "treemap_inv c (tsearch rb q t) \<and> set (pairs (tsearch rb q t)) = insert q (set (pairs t))"
  using add_leaf_inv [OF assms] unfolding tsearch_def Let_def treemap_inv_def rebalanced_pairs .

lemma treemap_set_inv:
  assumes "treemap_inv c t" "in_window c k"
  shows "treemap_inv c (treemap_set rb t k v)"
proof (cases "tfind k t")
  case None
  then show ?thesis using tsearch_inv [of c t "(k, v)" rb] assms by (simp add: treemap_set_def)
next
  case (Some p)
  then show ?thesis using assms(1) assign_found_pairs [OF assms, of v]
    by (auto simp: treemap_set_def treemap_inv_def sorted_wrt_map elim!: sorted_wrt_mono_rel [rotated])
qed

lemma treemap_get_Leaf [simp]: "treemap_get Leaf k = 0"
  by (simp add: treemap_get_def)

text \<open>A map of one pair answers for every key that compares equal, near or far.\<close>

lemma treemap_get_single:
  assumes "b mod 2 ^ 32 = a mod 2 ^ 32"
  shows "treemap_get (treemap_set rb Leaf a v) b = v"
proof -
  define t where "t = treemap_set rb Leaf a v"
  have "pairs t = [(a, v)]" by (simp only: t_def treemap_set_def tsearch_def Let_def rebalanced_pairs tfind.simps option.case) simp
  then obtain l p m r where n: "t = Node l (p, m) r" "pairs l @ p # pairs r = [(a, v)]"
    by (cases t) auto
  then have "p = (a, v)" by (cases "inorder l") auto
  then show ?thesis using assms n(1) by (simp add: t_def [symmetric] treemap_get_def compar_zero)
qed

lemma treemap_get_found:
  assumes "treemap_inv c t" "in_window c k" "(k', v) \<in> set (pairs t)" "window_off c k' = window_off c k"
  shows "treemap_get t k = v"
  using tfind_iff [OF assms(1,2), of "(k', v)"] assms(3,4) by (simp add: treemap_get_def)

lemma treemap_get_cong:
  assumes "treemap_inv c t" "treemap_inv c t'" "in_window c k"
    "\<And>p. window_off c (fst p) = window_off c k \<Longrightarrow> p \<in> set (pairs t') \<longleftrightarrow> p \<in> set (pairs t)"
  shows "treemap_get t' k = treemap_get t k"
proof -
  have "tfind k t' = Some p \<longleftrightarrow> tfind k t = Some p" for p
    unfolding tfind_iff [OF assms(2,3)] tfind_iff [OF assms(1,3)] using assms(4) by blast
  then have "tfind k t' = tfind k t" by (metis not_None_eq)
  then show ?thesis by (simp add: treemap_get_def)
qed

lemma treemap_get_set:
  assumes "treemap_inv c t" "in_window c k" "in_window c k'"
  shows "treemap_get (treemap_set rb t k v) k' =
    (if k mod 2 ^ 32 = k' mod 2 ^ 32 then v else treemap_get t k')"
proof -
  let ?t = "treemap_set rb t k v"
  have i: "treemap_inv c ?t" by (rule treemap_set_inv [OF assms(1,2)])
  have "(\<exists>q. window_off c q = window_off c k \<and> (q, v) \<in> set (pairs ?t)) \<and>
      (\<forall>p. window_off c (fst p) \<noteq> window_off c k \<longrightarrow> p \<in> set (pairs ?t) \<longleftrightarrow> p \<in> set (pairs t))"
  proof (cases "tfind k t")
    case None
    then show ?thesis using tsearch_inv [of c t "(k, v)" rb] assms by (auto simp: treemap_set_def)
  next
    case (Some p)
    have p: "p \<in> set (pairs t)" "window_off c (fst p) = window_off c k"
      using tfind_iff [OF assms(1,2)] Some by blast+
    have e: "set (pairs ?t) =
        (\<lambda>p. if window_off c (fst p) = window_off c k then (fst p, v) else p) ` set (pairs t)"
      using Some assign_found_pairs [OF assms(1,2), of v] by (simp only: treemap_set_def option.case set_map)
    have "(fst p, v) \<in> set (pairs ?t)" unfolding e by (rule image_eqI [OF _ p(1)]) (simp add: p(2))
    moreover have "q \<in> set (pairs ?t) \<longleftrightarrow> q \<in> set (pairs t)" if "window_off c (fst q) \<noteq> window_off c k" for q
      unfolding e using that by (force simp del: set_map)
    ultimately show ?thesis using p(2) by blast
  qed
  then show ?thesis
    using treemap_get_found [OF i assms(3)] treemap_get_cong [OF assms(1) i assms(3)]
      window_off_eq [OF assms(2,3)] by metis
qed

text \<open>What the walk needs of its maps.\<close>

locale keyed_map =
  fixes get :: "'m \<Rightarrow> 'k \<Rightarrow> 'v" and put :: "'m \<Rightarrow> 'k \<Rightarrow> 'v \<Rightarrow> 'm" and cls :: "'k \<Rightarrow> 'c"
    and inv :: "'m \<Rightarrow> bool" and adm :: "'k \<Rightarrow> bool"
  assumes put_inv: "inv m \<Longrightarrow> adm k \<Longrightarrow> inv (put m k v)"
    and get_put: "inv m \<Longrightarrow> adm k \<Longrightarrow> adm k' \<Longrightarrow>
      get (put m k v) k' = (if cls k = cls k' then v else get m k')"
begin

lemma put_all_inv:
  "inv m \<Longrightarrow> list_all adm ks \<Longrightarrow> inv (fold (\<lambda>k m. put m k v) ks m)"
  by (induction ks arbitrary: m) (auto simp: put_inv)

lemma get_put_all:
  "inv m \<Longrightarrow> list_all adm ks \<Longrightarrow> adm k' \<Longrightarrow>
     get (fold (\<lambda>k m. put m k v) ks m) k' = (if cls k' \<in> cls ` set ks then v else get m k')"
  by (induction ks arbitrary: m) (auto simp: get_put put_inv)

end

interpretation treemap: keyed_map treemap_get "treemap_set rb" "\<lambda>a. a mod 2 ^ 32" "treemap_inv c" "in_window c"
  for rb c
  by unfold_locales (rule treemap_set_inv treemap_get_set; assumption)+

section \<open>The queue is a list\<close>

fun chain :: "(nat \<Rightarrow> nat) \<Rightarrow> nat list \<Rightarrow> bool" where
  "chain nx [] = True"
| "chain nx (x # xs) = (nx x = hd0 xs \<and> chain nx xs)"

lemma chain_cong: "(\<And>x. x \<in> set xs \<Longrightarrow> nx x = nx' x) \<Longrightarrow> chain nx xs = chain nx' xs"
  by (induction xs) auto

lemma chain_snoc:
  assumes "chain nx xs" "distinct xs" "xs \<noteq> []" "n \<notin> set xs" "nx n = 0"
  shows "chain (nx(last0 0 xs := n)) (xs @ [n])"
proof -
  have "chain (nx(last0 d xs := n)) (xs @ [n])" for d
    using assms
  proof (induction xs arbitrary: d)
    case (Cons x xs)
    show ?case
    proof (cases xs)
      case (Cons y ys)
      have "last0 x xs \<noteq> x" using last0_in [of xs x] Cons.prems Cons by auto
      then show ?thesis using Cons.IH [of x] Cons.prems Cons by simp
    qed (use Cons.prems in simp)
  qed simp
  then show ?thesis .
qed

abbreviation "succ_of s i \<equiv> n_next (nodes s i)"

definition content :: "bfs_state \<Rightarrow> nat \<Rightarrow> nat \<times> nat" where
  "content s i = (n_obj (nodes s i), n_t (nodes s i))"

definition queue_of :: "bfs_state \<Rightarrow> nat \<times> nat \<Rightarrow> nat list \<Rightarrow> bool" where
  "queue_of s q xs \<longleftrightarrow> chain (succ_of s) xs \<and> q = (hd0 xs, last0 0 xs) \<and> distinct xs \<and>
     (\<forall>x\<in>set xs. 0 < x \<and> x < fresh s)"

lemma set_n_next_simps [simp]:
  "fresh (set_n_next i n s) = fresh s" "q_head (set_n_next i n s) = q_head s"
  "q_tail (set_n_next i n s) = q_tail s" "colours (set_n_next i n s) = colours s"
  "blackened (set_n_next i n s) = blackened s" "content (set_n_next i n s) j = content s j"
  "succ_of (set_n_next i n s) j = (if j = i then n else succ_of s j)"
  by (simp_all add: set_n_next_def content_def)

lemma queue_frame:
  assumes "queue_of s q xs" "\<And>x. x \<in> set xs \<Longrightarrow> succ_of s' x = succ_of s x" "fresh s \<le> fresh s'"
  shows "queue_of s' q xs"
  using assms chain_cong [of xs "succ_of s'" "succ_of s"] by (fastforce simp: queue_of_def)

lemma push_ok:
  assumes "queue_of s q xs" "0 < n" "n < fresh s" "n \<notin> set xs" "succ_of s n = 0"
    "node_queue_push_tail q n s = (q', s')"
  shows "queue_of s' q' (xs @ [n])" "s' = s \<or> xs \<noteq> [] \<and> s' = set_n_next (last0 0 xs) n s"
proof -
  have q: "q = (hd0 xs, last0 0 xs)" and z: "0 \<notin> set xs" using assms(1) by (auto simp: queue_of_def)
  have e: "last0 0 xs = 0 \<longleftrightarrow> xs = []" using last0_eq_0 [OF z] .
  have "queue_of s' q' (xs @ [n]) \<and> (s' = s \<or> xs \<noteq> [] \<and> s' = set_n_next (last0 0 xs) n s)"
  proof (cases "xs = []")
    case True
    then have "s' = s" "q' = (n, n)" using assms(6) q e by (auto simp: node_queue_push_tail_def)
    then show ?thesis using True assms(2,3,5) by (simp add: queue_of_def)
  next
    case False
    then have s': "s' = set_n_next (last0 0 xs) n s" "q' = (hd0 xs, n)"
      using assms(6) q e by (auto simp: node_queue_push_tail_def)
    have "succ_of s' = (succ_of s)(last0 0 xs := n)" using s' by auto
    then have "chain (succ_of s') (xs @ [n])"
      using chain_snoc [of "succ_of s" xs n] assms False by (simp add: queue_of_def)
    moreover have "hd0 (xs @ [n]) = hd0 xs" using False by (cases xs) auto
    ultimately show ?thesis using assms s' False by (auto simp: queue_of_def)
  qed
  then show "queue_of s' q' (xs @ [n])" "s' = s \<or> xs \<noteq> [] \<and> s' = set_n_next (last0 0 xs) n s"
    by blast+
qed

lemma pop_ok:
  assumes "queue_of s q (x # xs)"
  shows "\<exists>q'. node_queue_pop_head q s = (x, q', set_n_next x 0 s) \<and> queue_of (set_n_next x 0 s) q' xs"
proof -
  have q: "q = (x, last0 x xs)" "succ_of s x = hd0 xs" "0 < x" "x \<notin> set xs" and z: "0 \<notin> set xs"
    using assms by (auto simp: queue_of_def)
  have "chain (succ_of (set_n_next x 0 s)) xs = chain (succ_of s) xs"
    by (rule chain_cong) (use q(4) in auto)
  moreover have "last0 x xs = last0 0 xs" if "xs \<noteq> []" using that by (cases xs) auto
  ultimately show ?thesis
    using assms q hd0_eq_0 [OF z]
    by (intro exI [of _ "(hd0 xs, last0 0 xs)"]) (auto simp: node_queue_pop_head_def queue_of_def)
qed

lemma pop_empty: "queue_of s q [] \<Longrightarrow> node_queue_pop_head q s = (0, q, s)"
  by (simp add: queue_of_def node_queue_pop_head_def)

section \<open>The adjacency list\<close>

text \<open>The neighbours of an object, as a list.\<close>

definition pointer_target :: "bfs_params \<Rightarrow> nat \<Rightarrow> nat \<Rightarrow> (nat \<times> nat) list" where
  "pointer_target P element_type a =
     (let p = load_ptr P a; n = follow_ptr P (p, ut_pointee (ops P) element_type)
      in if p \<noteq> 0 \<and> IS_PLAUSIBLE_POINTER p \<and> fst n \<noteq> 0 then [n] else [])"

fun succs :: "nat \<Rightarrow> bfs_params \<Rightarrow> nat \<Rightarrow> nat \<Rightarrow> nat \<Rightarrow> (nat \<times> nat) list option"
  and succs_sub :: "nat \<Rightarrow> bfs_params \<Rightarrow> nat \<Rightarrow> nat \<Rightarrow> (nat \<times> nat) list \<Rightarrow> (nat \<times> nat) list option" where
  "succs fuel P obj off t =
     (if t = pointer_to_void P \<or> t = 0 \<or> \<not> ut_has_subobjects (ops P) t then Some []
      else case fuel of 0 \<Rightarrow> None | Suc n \<Rightarrow> succs_sub n P obj off (ut_subobjects (ops P) t))"
| "succs_sub fuel P obj off [] = Some []"
| "succs_sub fuel P obj off ((t, o') # rest) =
     do {
       l \<leftarrow> (if ut_is_pointer (ops P) t then Some (pointer_target P t (obj + off + o'))
            else if ut_kind (ops P) t = COMPOSITE then succs fuel P obj (off + o') t
            else Some []);
       r \<leftarrow> succs_sub fuel P obj off rest;
       Some (l @ r)
     }"

text \<open>\<open>s'\<close> has new nodes, linked behind \<open>xs\<close>, and is otherwise the same.\<close>

definition extends :: "bfs_state \<Rightarrow> nat list \<Rightarrow> bfs_state \<Rightarrow> bool" where
  "extends s xs s' \<longleftrightarrow> fresh s \<le> fresh s' \<and>
     (\<forall>i < fresh s. content s' i = content s i \<and> (i \<notin> set xs \<longrightarrow> succ_of s' i = succ_of s i)) \<and>
     q_head s' = q_head s \<and> q_tail s' = q_tail s \<and> colours s' = colours s \<and> blackened s' = blackened s"

definition grown :: "bfs_state \<Rightarrow> nat list \<Rightarrow> (nat \<times> nat) list \<Rightarrow> nat list \<Rightarrow> nat \<times> nat \<Rightarrow> bfs_state \<Rightarrow> bool" where
  "grown s xs L ys adj s' \<longleftrightarrow> queue_of s' adj (xs @ ys) \<and> map (content s') ys = L \<and>
     set ys \<subseteq> {fresh s..<fresh s'} \<and> extends s xs s'"

lemma grown_refl: "queue_of s adj xs \<Longrightarrow> grown s xs [] [] adj s"
  by (simp add: grown_def extends_def)

lemma grown_none:
  "queue_of s adj xs \<Longrightarrow> \<exists>adj' s' ys. Some (adj, s) = Some (adj', s') \<and> grown s xs [] ys adj' s'"
  using grown_refl by blast

lemma extends_trans:
  assumes "extends s xs s1" "extends s1 (xs @ ys) s2" "set ys \<subseteq> {fresh s..<fresh s1}"
  shows "extends s xs s2"
proof -
  have "i \<notin> set ys" if "i < fresh s" for i using that assms(3) by auto
  then show ?thesis using assms(1,2) by (simp add: extends_def)
qed

lemma grown_trans:
  assumes "grown s xs L ys adj s1" "grown s1 (xs @ ys) M zs adj' s2"
  shows "grown s xs (L @ M) (ys @ zs) adj' s2"
proof -
  have e: "extends s xs s1" "extends s1 (xs @ ys) s2" and y: "set ys \<subseteq> {fresh s..<fresh s1}"
    and z: "set zs \<subseteq> {fresh s1..<fresh s2}" and L: "map (content s1) ys = L" "map (content s2) zs = M"
    and q: "queue_of s2 adj' (xs @ ys @ zs)"
    using assms by (simp_all add: grown_def)
  have "fresh s \<le> fresh s1" "fresh s1 \<le> fresh s2" using e by (simp_all add: extends_def)
  then have "set (ys @ zs) \<subseteq> {fresh s..<fresh s2}" using y z by fastforce
  moreover have "map (content s2) ys = map (content s1) ys"
    using e(2) y by (intro map_cong) (auto simp: extends_def)
  ultimately show ?thesis using extends_trans [OF e y] q L by (simp add: grown_def)
qed

lemma visit_pointer_ok:
  assumes "queue_of s adj xs" "0 < fresh s"
  shows "\<exists>adj' s' ys. visit_pointer P et a adj s = (adj', s') \<and>
    grown s xs (pointer_target P et a) ys adj' s'"
proof (cases "pointer_target P et a")
  case Nil
  then have "visit_pointer P et a adj s = (adj, s)"
    by (auto simp: visit_pointer_def pointer_target_def Let_def split: if_splits prod.splits)
  then show ?thesis using grown_refl [OF assms(1)] Nil by auto
next
  case (Cons n l)
  obtain p t where n: "n = (p, t)" by (cases n)
  define s2 where "s2 = s\<lparr>nodes := (nodes s)(fresh s := \<lparr>n_obj = p, n_t = t, n_next = 0\<rparr>),
        fresh := fresh s + 1\<rparr>"
  have f: "content s2 i = (if i = fresh s then n else content s i)"
    "succ_of s2 i = (if i = fresh s then 0 else succ_of s i)" "fresh s2 = fresh s + 1"
    "q_head s2 = q_head s" "q_tail s2 = q_tail s" "colours s2 = colours s" "blackened s2 = blackened s" for i
    by (simp_all add: s2_def content_def n)
  obtain adj' s' where p: "node_queue_push_tail adj (fresh s) s2 = (adj', s')"
    by (cases "node_queue_push_tail adj (fresh s) s2")
  have l: "l = []" and v: "visit_pointer P et a adj s = (adj', s')"
    using Cons p n
    by (auto simp: visit_pointer_def pointer_target_def Let_def make_node_def s2_def
        split: if_splits prod.splits)
  have x: "fresh s \<notin> set xs" using assms(1) by (auto simp: queue_of_def)
  have q: "queue_of s2 adj xs" by (rule queue_frame [OF assms(1)]) (use x in \<open>auto simp: f\<close>)
  have push: "queue_of s' adj' (xs @ [fresh s])" "s' = s2 \<or> xs \<noteq> [] \<and> s' = set_n_next (last0 0 xs) (fresh s) s2"
    using push_ok [OF q _ _ x _ p] assms(2) by (simp_all add: f)
  have g: "content s' i = content s2 i" "i \<notin> set xs \<Longrightarrow> succ_of s' i = succ_of s2 i" "fresh s' = fresh s2"
    "q_head s' = q_head s2" "q_tail s' = q_tail s2" "colours s' = colours s2" "blackened s' = blackened s2" for i
    using push(2) last0_in [of xs 0] by auto
  have "grown s xs [n] [fresh s] adj' s'"
    using push(1) by (simp add: grown_def extends_def f g)
  then show ?thesis using v Cons l by auto
qed

lemma build_ok:
  "succs fuel P obj off t = Some L \<Longrightarrow> queue_of s adj xs \<Longrightarrow> 0 < fresh s \<Longrightarrow>
     \<exists>adj' s' ys. build_adjacency_list_recursive fuel P obj off t adj s = Some (adj', s') \<and>
       grown s xs L ys adj' s'"
  "succs_sub fuel P obj off subs = Some L \<Longrightarrow> queue_of s adj xs \<Longrightarrow> 0 < fresh s \<Longrightarrow>
     \<exists>adj' s' ys. visit_subobjects fuel P obj off subs adj s = Some (adj', s') \<and>
       grown s xs L ys adj' s'"
proof (induction fuel P obj off t and fuel P obj off subs arbitrary: L s adj xs and L s adj xs
    rule: succs_succs_sub.induct)
  case (1 fuel P obj off t)
  show ?case
  proof (cases "t = pointer_to_void P \<or> t = 0 \<or> \<not> ut_has_subobjects (ops P) t")
    case True
    then have "L = []" "build_adjacency_list_recursive fuel P obj off t adj s = Some (adj, s)"
      using 1(2) by auto
    then show ?thesis using grown_none [OF 1(3)] by simp
  next
    case False
    then obtain n where n: "fuel = Suc n" "succs_sub n P obj off (ut_subobjects (ops P) t) = Some L"
      using 1(2) by (auto split: nat.splits)
    then show ?thesis using 1(1) [OF False n(1,2) 1(3,4)] False by simp
  qed
next
  case (2 fuel P obj off)
  then show ?case using grown_none [OF 2(2)] by simp
next
  case (3 fuel P obj off t o' rest)
  let ?l = "if ut_is_pointer (ops P) t then Some (pointer_target P t (obj + off + o'))
            else if ut_kind (ops P) t = COMPOSITE then succs fuel P obj (off + o') t else Some []"
  obtain l r where lr: "?l = Some l" "succs_sub fuel P obj off rest = Some r" "L = l @ r"
    using 3(3) by (auto split: bind_splits)
  let ?v = "if ut_is_pointer (ops P) t then Some (visit_pointer P t (obj + off + o') adj s)
            else if ut_kind (ops P) t = COMPOSITE
              then build_adjacency_list_recursive fuel P obj (off + o') t adj s else Some (adj, s)"
  have "\<exists>adj' s' ys. ?v = Some (adj', s') \<and> grown s xs l ys adj' s'"
  proof (cases "ut_is_pointer (ops P) t")
    case True
    then show ?thesis using visit_pointer_ok [OF 3(4,5)] lr(1) by auto
  next
    case np: False
    show ?thesis
    proof (cases "ut_kind (ops P) t = COMPOSITE")
      case True
      then show ?thesis using 3(1) [OF np True _ 3(4,5)] lr(1) np by auto
    next
      case False
      then show ?thesis using np lr(1) grown_refl [OF 3(4)] by auto
    qed
  qed
  then obtain adj1 s1 ys where v: "?v = Some (adj1, s1)" "grown s xs l ys adj1 s1" by blast
  have s1: "queue_of s1 adj1 (xs @ ys)" "0 < fresh s1" using v(2) 3(5) by (auto simp: grown_def extends_def)
  obtain adj2 s2 zs where w: "visit_subobjects fuel P obj off rest adj1 s1 = Some (adj2, s2)"
    "grown s1 (xs @ ys) r zs adj2 s2"
    using 3(2) [OF lr(1,2) s1] by blast
  have "visit_subobjects fuel P obj off ((t, o') # rest) adj s = Some (adj2, s2)"
    using v(1) w(1) by (auto split: if_splits)
  then show ?case using grown_trans [OF v(2) w(2)] lr(3) by blast
qed

declare succs.simps [simp del]

section \<open>Enqueueing the white neighbours\<close>

fun whites :: "(treemap \<Rightarrow> balance_step list) \<Rightarrow> treemap \<Rightarrow> (nat \<times> nat) list \<Rightarrow> (nat \<times> nat) list" where
  "whites rb m [] = []"
| "whites rb m (n # L) =
     (if treemap_get m (fst n) = 0 then n # whites rb (treemap_set rb m (fst n) 1) L else whites rb m L)"

abbreviation greyed :: "(treemap \<Rightarrow> balance_step list) \<Rightarrow> (nat \<times> nat) list \<Rightarrow> treemap \<Rightarrow> treemap" where
  "greyed rb W m \<equiv> fold (\<lambda>k m. treemap_set rb m k 1) (map fst W) m"

definition enqueued :: "(treemap \<Rightarrow> balance_step list) \<Rightarrow> bfs_state \<Rightarrow> nat list \<Rightarrow> nat list \<Rightarrow> bfs_state \<Rightarrow> nat list \<Rightarrow> bool" where
  "enqueued rb s ys qs s' zs \<longleftrightarrow> queue_of s' (q_head s', q_tail s') (qs @ zs) \<and> set zs \<subseteq> set ys \<and>
     map (content s) zs = whites rb (colours s) (map (content s) ys) \<and>
     (\<forall>i. content s' i = content s i) \<and> fresh s' = fresh s \<and>
     colours s' = greyed rb (whites rb (colours s) (map (content s) ys)) (colours s) \<and>
     blackened s' = blackened s"

text \<open>One white neighbour: the state after its colour, distance and predecessor are set.\<close>

lemma push_white:
  assumes "queue_of s (q_head s, q_tail s) qs" "queue_of s adj ys" "set ys \<inter> set qs = {}"
    "0 < y" "y < fresh s" "y \<notin> set qs" "y \<notin> set ys" "succ_of s y = 0"
    "node_queue_push_tail (q_head s, q_tail s) y s = ((h, t), s1)"
  defines "s' \<equiv> s1\<lparr>q_head := h, q_tail := t\<rparr>"
  shows "queue_of s' (q_head s', q_tail s') (qs @ [y])" "queue_of s' adj ys"
    "content s' i = content s i" "fresh s' = fresh s" "colours s' = colours s" "blackened s' = blackened s"
proof -
  note p = push_ok [OF assms(1,4-6,8,9)]
  have f: "succ_of s' i = succ_of s1 i" "fresh s' = fresh s1" "content s' i = content s1 i"
    "q_head s' = h" "q_tail s' = t" "colours s' = colours s1" "blackened s' = blackened s1" for i
    by (simp_all add: s'_def content_def)
  have g: "fresh s1 = fresh s" "content s1 i = content s i" "colours s1 = colours s" "blackened s1 = blackened s" for i
    using p(2) by auto
  show "queue_of s' (q_head s', q_tail s') (qs @ [y])"
    using p(1) chain_cong [of "qs @ [y]" "succ_of s'" "succ_of s1"] by (simp add: queue_of_def f)
  have "succ_of s' x = succ_of s x" if "x \<in> set ys" for x
    using p(2) that assms(3,7) last0_in [of qs 0] by (auto simp: f)
  then show "queue_of s' adj ys" by (rule queue_frame [OF assms(2)]) (simp_all add: f g)
  show "content s' i = content s i" "fresh s' = fresh s" "colours s' = colours s" "blackened s' = blackened s"
    by (simp_all add: f g)
qed

text \<open>One round of the loop, at a node that is white and at one that is not.\<close>

definition steps_to :: "bfs_params \<Rightarrow> bfs_state \<Rightarrow> nat \<times> nat \<Rightarrow> nat list \<Rightarrow> nat list \<Rightarrow> treemap \<Rightarrow> bool" where
  "steps_to P s adj ys qs m \<longleftrightarrow> (\<exists>adj1 s1. enqueue_white P adj s = enqueue_white P adj1 s1 \<and>
     queue_of s1 (q_head s1, q_tail s1) qs \<and> queue_of s1 adj1 ys \<and>
     (\<forall>i. content s1 i = content s i) \<and> fresh s1 = fresh s \<and> colours s1 = m \<and>
     blackened s1 = blackened s)"

lemma step_head:
  assumes "queue_of s adj (y # ys)" "queue_of s (q_head s, q_tail s) qs" "set (y # ys) \<inter> set qs = {}"
  obtains adj1 where "node_queue_pop_head adj s = (y, adj1, set_n_next y 0 s)"
    "queue_of (set_n_next y 0 s) adj1 ys" "queue_of (set_n_next y 0 s) (q_head s, q_tail s) qs"
    "0 < y" "y < fresh s" "y \<notin> set ys" "y \<notin> set qs" "set ys \<inter> set qs = {}"
proof -
  have y: "0 < y" "y < fresh s" "y \<notin> set ys" "y \<notin> set qs" "set ys \<inter> set qs = {}"
    using assms by (auto simp: queue_of_def)
  have "queue_of (set_n_next y 0 s) (q_head s, q_tail s) qs"
    by (rule queue_frame [OF assms(2)]) (use y in auto)
  then show ?thesis using pop_ok [OF assms(1)] y that by blast
qed

lemma step_other:
  assumes "queue_of s adj (y # ys)" "queue_of s (q_head s, q_tail s) qs" "set (y # ys) \<inter> set qs = {}"
    "treemap_get (colours s) (fst (content s y)) \<noteq> 0"
  shows "steps_to P s adj ys qs (colours s)"
proof -
  obtain adj1 where pop: "node_queue_pop_head adj s = (y, adj1, set_n_next y 0 s)"
    and q: "queue_of (set_n_next y 0 s) adj1 ys" "queue_of (set_n_next y 0 s) (q_head s, q_tail s) qs" and y: "0 < y"
    using step_head [OF assms(1-3)] by metis
  define s1 where "s1 = (set_n_next y 0 s)\<lparr>freed_nodes := freed_nodes s @ [y]\<rparr>"
  have f: "succ_of s1 i = (if i = y then 0 else succ_of s i)" "fresh s1 = fresh s"
    "q_head s1 = q_head s" "q_tail s1 = q_tail s" "content s1 i = content s i"
    "blackened s1 = blackened s" "colours s1 = colours s" for i
    by (simp_all add: s1_def content_def set_n_next_def)
  have "queue_of s1 (q_head s1, q_tail s1) qs" "queue_of s1 adj1 ys"
    using q by (auto simp: f intro: queue_frame)
  moreover have "enqueue_white P adj s = enqueue_white P adj1 s1"
    using y assms(4)
    by (subst enqueue_white.simps) (simp add: pop s1_def set_n_next_def content_def Let_def)
  ultimately show ?thesis unfolding steps_to_def using f by blast
qed

lemma step_white:
  assumes "queue_of s adj (y # ys)" "queue_of s (q_head s, q_tail s) qs" "set (y # ys) \<inter> set qs = {}"
    "treemap_get (colours s) (fst (content s y)) = 0"
  shows "steps_to P s adj ys (qs @ [y]) (treemap_set (rebalance P) (colours s) (fst (content s y)) 1)"
proof -
  obtain adj1 where pop: "node_queue_pop_head adj s = (y, adj1, set_n_next y 0 s)"
    and q: "queue_of (set_n_next y 0 s) adj1 ys" "queue_of (set_n_next y 0 s) (q_head s, q_tail s) qs"
    and y: "0 < y" "y < fresh s" "y \<notin> set ys" "y \<notin> set qs" "set ys \<inter> set qs = {}"
    using step_head [OF assms(1-3)] by metis
  let ?o = "n_obj (nodes s y)"
  define s1 where "s1 = (set_n_next y 0 s)\<lparr>colours := treemap_set (rebalance P) (colours s) ?o (colour_num GREY),
    distances := treemap_set (rebalance P) (distances s) ?o (treemap_get (distances s) ?o + 1),
    predecessors := treemap_set (rebalance P) (predecessors s) ?o ?o\<rparr>"
  have f: "succ_of s1 i = (if i = y then 0 else succ_of s i)" "fresh s1 = fresh s"
    "q_head s1 = q_head s" "q_tail s1 = q_tail s" "content s1 i = content s i"
    "blackened s1 = blackened s" "colours s1 = treemap_set (rebalance P) (colours s) ?o 1" for i
    by (simp_all add: s1_def content_def set_n_next_def)
  obtain h t s2 where push: "node_queue_push_tail (q_head s1, q_tail s1) y s1 = ((h, t), s2)"
    by (metis surj_pair)
  define s3 where "s3 = s2\<lparr>q_head := h, q_tail := t\<rparr>"
  have q1: "queue_of s1 (q_head s1, q_tail s1) qs" "queue_of s1 adj1 ys"
    using q by (auto simp: f intro: queue_frame)
  note w = push_white [OF q1 y(5,1) _ y(4,3) _ push, folded s3_def]
  have "queue_of s3 (q_head s3, q_tail s3) (qs @ [y])" "queue_of s3 adj1 ys"
    "\<forall>i. content s3 i = content s i" "fresh s3 = fresh s" "colours s3 = treemap_set (rebalance P) (colours s) ?o 1"
    "blackened s3 = blackened s"
    using w y(2) by (simp_all add: f)
  moreover have "enqueue_white P adj s = enqueue_white P adj1 s3"
    using y(1) assms(4) push
    by (subst enqueue_white.simps) (simp add: pop s3_def s1_def set_n_next_def content_def Let_def)
  moreover have "?o = fst (content s y)" by (simp add: content_def)
  ultimately show ?thesis unfolding steps_to_def by metis
qed

lemma enqueue_ok:
  assumes "queue_of s adj ys" "queue_of s (q_head s, q_tail s) qs" "set ys \<inter> set qs = {}"
  shows "\<exists>s' zs. enqueue_white P adj s = Some s' \<and> enqueued (rebalance P) s ys qs s' zs"
  using assms
proof (induction ys arbitrary: s adj qs)
  case Nil
  then show ?case
    by (subst enqueue_white.simps) (auto simp: pop_empty enqueued_def intro!: exI [of _ "[]"])
next
  case (Cons y ys)
  let ?white = "treemap_get (colours s) (fst (content s y)) = 0"
  define qs1 where "qs1 = (if ?white then qs @ [y] else qs)"
  define m where "m = (if ?white then treemap_set (rebalance P) (colours s) (fst (content s y)) 1 else colours s)"
  have "steps_to P s adj ys qs1 m"
    using step_white [OF Cons.prems] step_other [OF Cons.prems] by (simp add: qs1_def m_def)
  then obtain adj1 s1 where s1: "enqueue_white P adj s = enqueue_white P adj1 s1"
    "queue_of s1 (q_head s1, q_tail s1) qs1" "queue_of s1 adj1 ys" "\<And>i. content s1 i = content s i"
    "fresh s1 = fresh s" "colours s1 = m" "blackened s1 = blackened s"
    unfolding steps_to_def by blast
  have "set ys \<inter> set qs1 = {}" using Cons.prems by (auto simp: qs1_def queue_of_def)
  then obtain s' zs where r: "enqueue_white P adj1 s1 = Some s'" "enqueued (rebalance P) s1 ys qs1 s' zs"
    using Cons.IH [OF s1(3,2)] by blast
  have "map (content s1) = map (content s)" using s1(4) by auto
  then have "enqueued (rebalance P) s (y # ys) qs s' (if ?white then y # zs else zs)"
    using r(2) unfolding enqueued_def by (auto simp: s1(4-7) qs1_def m_def)
  then show ?case using s1(1) r(1) by auto
qed

section \<open>The walk\<close>

text \<open>The object graph: the edges and what is reachable.\<close>

definition edges :: "nat \<Rightarrow> bfs_params \<Rightarrow> nat \<times> nat \<Rightarrow> (nat \<times> nat) set" where
  "edges fuel P n = (case succs fuel P (fst n) 0 (snd n) of None \<Rightarrow> {} | Some L \<Rightarrow> set L)"

inductive reach :: "nat \<Rightarrow> bfs_params \<Rightarrow> nat \<times> nat \<Rightarrow> nat \<times> nat \<Rightarrow> bool" for fuel P n where
  reach_refl: "reach fuel P n n"
| reach_step: "reach fuel P n m \<Longrightarrow> k \<in> edges fuel P m \<Longrightarrow> reach fuel P n k"

inductive_cases reachE: "reach fuel P n m"

text \<open>
  A set of nodes closed under edges, whose types are well-founded as far as the
  fuel goes, whose addresses lie, modulo \<open>2 ^ 32\<close>, in the 2 GiB that begin at
  \<open>c\<close> and differ there, and each with one type.
\<close>

definition walkable :: "nat \<Rightarrow> bfs_params \<Rightarrow> nat \<Rightarrow> (nat \<times> nat) set \<Rightarrow> bool" where
  "walkable fuel P c N \<longleftrightarrow>
     (\<forall>n\<in>N. in_window c (fst n)) \<and>
     (\<forall>n\<in>N. succs fuel P (fst n) 0 (snd n) \<noteq> None \<and> edges fuel P n \<subseteq> N) \<and>
     (\<forall>n\<in>N. \<forall>m\<in>N. fst n mod 2 ^ 32 = fst m mod 2 ^ 32 \<longrightarrow> n = m)"

lemma walkable_finite:
  assumes "walkable fuel P c N" shows "finite N"
proof (rule finite_imageD)
  show "finite ((\<lambda>n. fst n mod 2 ^ 32) ` N)"
    by (rule finite_subset [of _ "{..< 2 ^ 32}"]) auto
  show "inj_on (\<lambda>n. fst n mod 2 ^ 32) N" using assms by (auto simp: walkable_def inj_on_def)
qed

lemma walkable_window: "walkable fuel P c N \<Longrightarrow> n \<in> N \<Longrightarrow> in_window c (fst n)"
  by (simp add: walkable_def)

lemma whites_ok:
  assumes "walkable fuel P c N" "set L \<subseteq> N" "treemap_inv c m" "\<And>n. n \<in> N \<Longrightarrow> treemap_get m (fst n) \<noteq> 0 \<longleftrightarrow> n \<in> V"
  shows "set (whites rb m L) = set L - V \<and> distinct (whites rb m L)"
  using assms(2-4)
proof (induction L arbitrary: m V)
  case (Cons n L)
  note w = walkable_window [OF assms(1)]
  have nN: "n \<in> N" using Cons.prems(1) by simp
  show ?case
  proof (cases "n \<in> V")
    case True
    then have "treemap_get m (fst n) \<noteq> 0" using Cons.prems by auto
    then have "whites rb m (n # L) = whites rb m L" by simp
    then show ?thesis using Cons.IH [of m V] Cons.prems True by (auto simp: insert_Diff_if)
  next
    case False
    have "treemap_get (treemap_set rb m (fst n) 1) (fst k) \<noteq> 0 \<longleftrightarrow> k \<in> insert n V" if "k \<in> N" for k
    proof -
      have "fst n mod 2 ^ 32 = fst k mod 2 ^ 32 \<longleftrightarrow> n = k"
        using assms(1) Cons.prems(1) that unfolding walkable_def by (meson list.set_intros(1) subsetD)
      then show ?thesis
        unfolding treemap.get_put [OF Cons.prems(2) w [OF nN] w [OF that]] using Cons.prems(3) [OF that] by simp
    qed
    then have "set (whites rb (treemap_set rb m (fst n) 1) L) = set L - insert n V \<and>
        distinct (whites rb (treemap_set rb m (fst n) 1) L)"
      using Cons.IH [of "treemap_set rb m (fst n) 1" "insert n V"] Cons.prems(1)
        treemap.put_inv [OF Cons.prems(2) w [OF nN]] by auto
    moreover have "treemap_get m (fst n) = 0" using Cons.prems(3) [OF nN] False by simp
    ultimately show ?thesis using False by auto
  qed
qed simp

lemma greyed_get:
  assumes "walkable fuel P c N" "set W \<subseteq> N" "n \<in> N" "treemap_inv c m"
  shows "treemap_inv c (greyed rb W m)" and
    "treemap_get (greyed rb W m) (fst n) = (if n \<in> set W then 1 else treemap_get m (fst n))"
proof -
  have "fst n mod 2 ^ 32 \<in> (\<lambda>a. a mod 2 ^ 32) ` set (map fst W) \<longleftrightarrow> n \<in> set W"
  proof
    assume "fst n mod 2 ^ 32 \<in> (\<lambda>a. a mod 2 ^ 32) ` set (map fst W)"
    then obtain k where k: "k \<in> set W" "fst n mod 2 ^ 32 = fst k mod 2 ^ 32" by auto
    then have "n = k" using assms unfolding walkable_def by (meson subsetD)
    then show "n \<in> set W" using k(1) by simp
  qed (simp add: rev_image_eqI)
  moreover have w: "list_all (in_window c) (map fst W)" "in_window c (fst n)"
    using assms(1-3) by (auto simp: walkable_def list_all_iff)
  ultimately show "treemap_get (greyed rb W m) (fst n) = (if n \<in> set W then 1 else treemap_get m (fst n))"
    using treemap.get_put_all [OF assms(4) w, of rb 1] by simp
  show "treemap_inv c (greyed rb W m)" by (rule treemap.put_all_inv [OF assms(4) w(1)])
qed

text \<open>
  The loop invariant: the blackened nodes \<open>B\<close> and the queued ones \<open>Q\<close>
  partition what has been seen, and the colours say so (whatever the colour of the
  node at the head of the queue).
\<close>

definition bfs_inv :: "nat \<Rightarrow> bfs_params \<Rightarrow> nat \<Rightarrow> (nat \<times> nat) set \<Rightarrow> nat \<times> nat \<Rightarrow> bfs_state \<Rightarrow>
    (nat \<times> nat) list \<Rightarrow> (nat \<times> nat) list \<Rightarrow> bool" where
  "bfs_inv fuel P c N start s B Q \<longleftrightarrow>
     (\<exists>qs. queue_of s (q_head s, q_tail s) qs \<and> map (content s) qs = Q) \<and> 0 < fresh s \<and>
     treemap_inv c (colours s) \<and> blackened s = B \<and> distinct (B @ Q) \<and> set (B @ Q) \<subseteq> N \<and> start \<in> set (B @ Q) \<and>
     (\<forall>n\<in>N. n \<notin> set (take 1 Q) \<longrightarrow> treemap_get (colours s) (fst n) =
        (if n \<in> set B then 2 else if n \<in> set Q then 1 else 0)) \<and>
     (\<forall>n\<in>set B. edges fuel P n \<subseteq> set (B @ Q)) \<and> (\<forall>n\<in>set (B @ Q). reach fuel P start n)"

lemma process_round:
  assumes q: "queue_of s (q_head s, q_tail s) (x # qs)" "content s x = u" and fr: "0 < fresh s"
    and L: "succs fuel P (fst u) 0 (snd u) = Some L"
  defines "m \<equiv> treemap_set (rebalance P) (colours s) (fst u) 1"
  shows "\<exists>s' qs'. process_bfs_queue_and_maps fuel P s = process_bfs_queue_and_maps fuel P s' \<and>
    queue_of s' (q_head s', q_tail s') qs' \<and> map (content s') qs' = map (content s) qs @ whites (rebalance P) m L \<and>
    0 < fresh s' \<and> blackened s' = blackened s @ [u] \<and>
    colours s' = treemap_set (rebalance P) (greyed (rebalance P) (whites (rebalance P) m L) m) (fst u) 2"
proof -
  obtain h t where pop: "node_queue_pop_head (q_head s, q_tail s) s = (x, (h, t), set_n_next x 0 s)"
    "queue_of (set_n_next x 0 s) (h, t) qs" using pop_ok [OF q(1)] by (metis surj_pair)
  define s1 where "s1 = (set_n_next x 0 s)\<lparr>q_head := h, q_tail := t, colours := m\<rparr>"
  have f1: "content s1 i = content s i" "succ_of s1 i = succ_of (set_n_next x 0 s) i" "fresh s1 = fresh s"
    "q_head s1 = h" "q_tail s1 = t" "colours s1 = m" "blackened s1 = blackened s" for i
    by (simp_all add: s1_def content_def set_n_next_def)
  have q1: "queue_of s1 (q_head s1, q_tail s1) qs" using queue_frame [OF pop(2), of s1] f1 by simp
  obtain adj s2 ys where b: "build_adjacency_list_recursive fuel P (fst u) 0 (snd u) (0, 0) s1 = Some (adj, s2)"
    "grown s1 [] L ys adj s2"
    using build_ok(1) [OF L, of s1 "(0, 0)" "[]"] fr f1 by (auto simp: queue_of_def)
  have g: "queue_of s2 adj ys" "map (content s2) ys = L" "set ys \<subseteq> {fresh s..<fresh s2}" "extends s1 [] s2"
    using b(2) f1 by (simp_all add: grown_def)
  have ql: "y < fresh s" if "y \<in> set (x # qs)" for y using q(1) that by (auto simp: queue_of_def)
  have q2: "queue_of s2 (q_head s2, q_tail s2) qs"
    using queue_frame [OF q1, of s2] g(4) ql f1 by (simp add: extends_def)
  have "set ys \<inter> set qs = {}" using g(3) ql by fastforce
  then obtain s3 zs where e: "enqueue_white P adj s2 = Some s3" "enqueued (rebalance P) s2 ys qs s3 zs"
    using enqueue_ok [OF g(1) q2] by blast
  have c: "content s3 i = content s2 i" "content s2 j = content s j" if "j < fresh s" for i j
    using e(2) g(4) f1 that by (simp_all add: enqueued_def extends_def)
  have col: "colours s2 = m" "fresh s \<le> fresh s2" "blackened s2 = blackened s"
    using g(4) f1 by (simp_all add: extends_def)
  define s4 where "s4 = s3\<lparr>colours := treemap_set (rebalance P) (colours s3) (fst u) (colour_num BLACK),
    blackened := blackened s3 @ [u], freed_nodes := freed_nodes s3 @ [x]\<rparr>"
  have f4: "content s4 = content s3" "q_head s4 = q_head s3" "q_tail s4 = q_tail s3" "fresh s4 = fresh s3"
    "queue_of s4 k l = queue_of s3 k l" for k l
    by (auto simp: s4_def content_def fun_eq_iff queue_of_def)
  have "content s3 = content s2" using e(2) by (auto simp: enqueued_def)
  then have "map (content s4) qs = map (content s) qs" "map (content s4) zs = whites (rebalance P) m L"
    using c ql e(2) g(2) col(1) by (auto simp: f4 enqueued_def)
  moreover have "queue_of s4 (q_head s4, q_tail s4) (qs @ zs)" using e(2) by (simp only: f4 enqueued_def)
  moreover have "fresh s4 = fresh s2"
    "blackened s4 = blackened s @ [u]" "colours s4 = treemap_set (rebalance P) (greyed (rebalance P) (whites (rebalance P) m L) m) (fst u) 2"
    using e(2) g(2) col by (auto simp: f4 enqueued_def s4_def)
  moreover have "process_bfs_queue_and_maps fuel P s = process_bfs_queue_and_maps fuel P s4"
  proof -
    have x: "0 < x" "q_head s = x" "x < fresh s" using q(1) by (auto simp: queue_of_def)
    have "content s3 x = u" using c [OF x(3)] q(2) by simp
    then have o: "n_obj (nodes s x) = fst u" "n_t (nodes s x) = snd u" "n_t (nodes s3 x) = snd u"
      using q(2) by (auto simp: content_def)
    have s1': "set_n_next x 0 s\<lparr>q_head := h, q_tail := t, colours := treemap_set (rebalance P) (colours s) (fst u) (Suc 0)\<rparr> = s1"
      by (simp add: s1_def m_def)
    have n1: "n_obj (nodes (set_n_next x 0 s) x) = fst u" "n_t (nodes (set_n_next x 0 s) x) = snd u"
      using o by (simp_all add: s1_def set_n_next_def)
    show ?thesis
      using x b(1) e(1)
      by (subst process_bfs_queue_and_maps.simps)
        (simp add: node_queue_empty_def pop(1) [unfolded x(2)] n1 o s1' s4_def Let_def
          del: build_adjacency_list_recursive.simps)
  qed
  ultimately show ?thesis using fr col(2) by (intro exI [of _ s4] exI [of _ "qs @ zs"]) simp
qed

lemma bfs_step:
  assumes w: "walkable fuel P c N" and i: "bfs_inv fuel P c N start s B (u # Q)"
  shows "\<exists>s' W. process_bfs_queue_and_maps fuel P s = process_bfs_queue_and_maps fuel P s' \<and>
    bfs_inv fuel P c N start s' (B @ [u]) (Q @ W)"
proof -
  obtain xs where xs: "queue_of s (q_head s, q_tail s) xs" "map (content s) xs = u # Q" and fr: "0 < fresh s"
    using i by (auto simp: bfs_inv_def)
  then obtain x qs where x: "xs = x # qs" "content s x = u" "map (content s) qs = Q" by auto
  have B: "blackened s = B" "distinct (B @ u # Q)" "set (B @ u # Q) \<subseteq> N" "start \<in> set (B @ u # Q)"
    and iv: "treemap_inv c (colours s)"
    and col: "\<And>n. n \<in> N \<Longrightarrow> n \<noteq> u \<Longrightarrow> treemap_get (colours s) (fst n) =
        (if n \<in> set B then 2 else if n \<in> set Q then 1 else 0)"
    and cl: "\<And>n. n \<in> set B \<Longrightarrow> edges fuel P n \<subseteq> set (B @ u # Q)"
    and re: "\<And>n. n \<in> set (B @ u # Q) \<Longrightarrow> reach fuel P start n"
    using i by (auto simp: bfs_inv_def)
  have uN: "u \<in> N" using B(3) by simp
  then obtain L where L: "succs fuel P (fst u) 0 (snd u) = Some L" using w by (auto simp: walkable_def)
  then have "edges fuel P u = set L" by (simp add: edges_def)
  moreover have "edges fuel P u \<subseteq> N" using w uN unfolding walkable_def by blast
  ultimately have eL: "edges fuel P u = set L" "set L \<subseteq> N" by simp_all
  define m where "m = treemap_set (rebalance P) (colours s) (fst u) 1"
  define W where "W = whites (rebalance P) m L"
  obtain s' qs' where s': "process_bfs_queue_and_maps fuel P s = process_bfs_queue_and_maps fuel P s'"
    "queue_of s' (q_head s', q_tail s') qs'" "map (content s') qs' = Q @ W" "0 < fresh s'"
    "blackened s' = B @ [u]" "colours s' = treemap_set (rebalance P) (greyed (rebalance P) W m) (fst u) 2"
    using process_round [OF xs(1) [unfolded x(1)] x(2) fr L, folded m_def W_def] x(3) B(1) by auto
  note win = walkable_window [OF w]
  have mi: "treemap_inv c m" unfolding m_def by (rule treemap.put_inv [OF iv win [OF uN]])
  have inj: "fst u mod 2 ^ 32 = fst n mod 2 ^ 32 \<longleftrightarrow> u = n" if "n \<in> N" for n
    using w uN that unfolding walkable_def by metis
  have m: "treemap_get m (fst n) = (if n = u then 1 else if n \<in> set B then 2 else if n \<in> set Q then 1 else 0)"
    if "n \<in> N" for n
    unfolding m_def treemap.get_put [OF iv win [OF uN] win [OF that]] using inj [OF that] col [OF that] by auto
  have "treemap_get m (fst n) \<noteq> 0 \<longleftrightarrow> n \<in> insert u (set B \<union> set Q)" if "n \<in> N" for n using m [OF that] by simp
  from whites_ok [OF w eL(2) mi this]
  have W: "set W = set L - insert u (set B \<union> set Q)" "distinct W" by (simp_all add: W_def)
  have WN: "set W \<subseteq> N" using W eL by auto
  note grey = greyed_get [OF w WN _ mi]
  have c: "treemap_get (colours s') (fst n) =
      (if n \<in> set (B @ [u]) then 2 else if n \<in> set (Q @ W) then 1 else 0)" if "n \<in> N" for n
    unfolding s'(6) treemap.get_put [OF grey(1) [OF uN] win [OF uN] win [OF that]]
    using inj [OF that] grey(2) [OF that] m [OF that] W B(2) by auto
  have "bfs_inv fuel P c N start s' (B @ [u]) (Q @ W)"
    unfolding bfs_inv_def
  proof (intro conjI ballI impI)
    show "\<exists>qs. queue_of s' (q_head s', q_tail s') qs \<and> map (content s') qs = Q @ W" using s'(2,3) by blast
    show "0 < fresh s'" "blackened s' = B @ [u]" by (rule s')+
    show "treemap_inv c (colours s')" unfolding s'(6) by (rule treemap.put_inv [OF grey(1) [OF uN] win [OF uN]])
    show "distinct ((B @ [u]) @ Q @ W)" using B(2) W by auto
    show "set ((B @ [u]) @ Q @ W) \<subseteq> N" using B(3) WN by auto
    show "start \<in> set ((B @ [u]) @ Q @ W)" using B(4) by auto
    show "treemap_get (colours s') (fst n) = (if n \<in> set (B @ [u]) then 2 else if n \<in> set (Q @ W) then 1 else 0)"
      if "n \<in> N" for n by (rule c [OF that])
    show "edges fuel P n \<subseteq> set ((B @ [u]) @ Q @ W)" if "n \<in> set (B @ [u])" for n
      using that cl [of n] W(1) eL(1) by auto
    show "reach fuel P start n" if "n \<in> set ((B @ [u]) @ Q @ W)" for n
      using that re [of n] re [of u] W(1) eL(1) reach_step [of fuel P start u n] by auto
  qed
  then show ?thesis using s'(1) by blast
qed

lemma bfs_end:
  assumes "bfs_inv fuel P c N start s B []"
  shows "process_bfs_queue_and_maps fuel P s = Some s \<and> set B = {n. reach fuel P start n}"
proof -
  have "q_head s = 0" using assms by (auto simp: bfs_inv_def queue_of_def)
  then have "process_bfs_queue_and_maps fuel P s = Some s"
    by (subst process_bfs_queue_and_maps.simps) (simp add: node_queue_empty_def)
  moreover have "n \<in> set B" if "reach fuel P start n" for n
    using that
  proof induction
    case reach_refl
    then show ?case using assms by (simp add: bfs_inv_def)
  next
    case (reach_step m k)
    then show ?case using assms by (auto simp: bfs_inv_def)
  qed
  ultimately show ?thesis using assms by (auto simp: bfs_inv_def)
qed

lemma bfs_run:
  assumes w: "walkable fuel P c N"
  shows "bfs_inv fuel P c N start s B Q \<Longrightarrow> \<exists>s'. process_bfs_queue_and_maps fuel P s = Some s' \<and>
    distinct (blackened s') \<and> set (blackened s') = {n. reach fuel P start n}"
proof (induction "card (N - set B)" arbitrary: s B Q rule: less_induct)
  case less
  show ?case
  proof (cases Q)
    case Nil
    then show ?thesis using bfs_end [of fuel P c N start s B] less.prems by (auto simp: bfs_inv_def)
  next
    case (Cons u Q')
    obtain s' W where s': "process_bfs_queue_and_maps fuel P s = process_bfs_queue_and_maps fuel P s'"
      "bfs_inv fuel P c N start s' (B @ [u]) (Q' @ W)"
      using bfs_step [OF w less.prems [unfolded Cons]] by blast
    have "u \<in> N - set B" using less.prems Cons by (auto simp: bfs_inv_def)
    then have "card (N - set (B @ [u])) < card (N - set B)"
      using walkable_finite [OF w] by (intro psubset_card_mono) auto
    then show ?thesis using less.hyps [OF _ s'(2)] s'(1) by simp
  qed
qed

text \<open>The state in which the queue holds the start of the walk, and how the walk goes on from there.\<close>

definition walk_start :: "nat \<Rightarrow> nat \<Rightarrow> bfs_state \<Rightarrow> bfs_state" where
  "walk_start object t s = s\<lparr>nodes := (nodes s)(fresh s := \<lparr>n_obj = object, n_t = t, n_next = 0\<rparr>),
    fresh := fresh s + 1, q_head := fresh s, q_tail := fresh s, colours := Leaf, distances := Leaf, predecessors := Leaf\<rparr>"

lemma walk_start_queue:
  assumes "0 < fresh s"
  shows "queue_of (walk_start object t s) (q_head (walk_start object t s), q_tail (walk_start object t s)) [fresh s]"
    "content (walk_start object t s) (fresh s) = (object, t)"
  using assms by (simp_all add: walk_start_def queue_of_def content_def)

lemma walk_continues:
  assumes "object \<noteq> 0" "process_bfs_queue_and_maps fuel P (walk_start object t s) = Some s1"
  shows "\<exists>s'. walk_bfs_from_object fuel P object t s = Some s' \<and> blackened s' = blackened s1"
  using assms by (simp add: walk_bfs_from_object_def make_node_def node_queue_push_tail_def process_bfs_queue_def walk_start_def)

text \<open>
  C22. Walking the object graph from an object always returns when the object lies in a set of nodes closed
  under following pointers, whose types are not infinitely nested, no two of which agree in the low 32
  bits of their addresses without being the same node, and whose addresses all lie, in their low 32
  bits, within 2 GiB of each other; every reachable object is then visited exactly once.  This holds however the
  library rebalances the trees.
\<close>

theorem walk_visits_reachable:
  assumes "walkable fuel P c N" "(object, t) \<in> N" "object \<noteq> 0" "0 < fresh s" "blackened s = []"
  shows "\<exists>s'. walk_bfs_from_object fuel P object t s = Some s' \<and> distinct (blackened s') \<and>
    set (blackened s') = {n. reach fuel P (object, t) n}"
proof -
  let ?s = "walk_start object t s"
  have "bfs_inv fuel P c N (object, t) ?s [] [(object, t)]"
    unfolding bfs_inv_def using assms(2,4,5) walk_start_queue [OF assms(4), of object t]
    by (auto simp: walk_start_def intro: reach_refl)
  from bfs_run [OF assms(1) this] show ?thesis using walk_continues [OF assms(3)] by metis
qed

text \<open>
  C23. Two objects whose addresses agree in their low 32 bits are taken for one: if all that an object
  points to is an object a multiple of 4 GiB away, the walk from it ends without visiting
  that object.
\<close>

theorem distant_object_missed:
  assumes "succs fuel P object 0 t = Some [(b, t')]" "b mod 2 ^ 32 = object mod 2 ^ 32"
    and "object \<noteq> 0" "0 < fresh s" "blackened s = []"
  shows "\<exists>s'. walk_bfs_from_object fuel P object t s = Some s' \<and> blackened s' = [(object, t)]"
proof -
  let ?s = "walk_start object t s"
  have f: "0 < fresh ?s" "colours ?s = Leaf" "blackened ?s = []" using assms(5) by (simp_all add: walk_start_def)
  have L: "succs fuel P (fst (object, t)) 0 (snd (object, t)) = Some [(b, t')]" using assms(1) by simp
  have "whites (rebalance P) (treemap_set (rebalance P) Leaf object 1) [(b, t')] = []"
    using treemap_get_single [OF assms(2), of "rebalance P" 1] by simp
  then obtain s1 where s1: "process_bfs_queue_and_maps fuel P ?s = process_bfs_queue_and_maps fuel P s1"
    "queue_of s1 (q_head s1, q_tail s1) []" "blackened s1 = [(object, t)]"
    using process_round [OF walk_start_queue [OF assms(4)] f(1) L] f by auto
  have "process_bfs_queue_and_maps fuel P s1 = Some s1"
    using s1(2) by (subst process_bfs_queue_and_maps.simps) (simp add: node_queue_empty_def queue_of_def)
  then show ?thesis using walk_continues [OF assms(3)] s1 by metis
qed

section \<open>An example\<close>

text \<open>A linked list: objects of type 1, whose first word points to another one.\<close>

definition list_ops :: ut_ops where
  "list_ops = \<lparr>ut_kind = (\<lambda>t. if t = 1 then COMPOSITE else ADDRESS), ut_size = (\<lambda>_. 8), ut_is_pointer = (\<lambda>t. t = 2),
     ut_pointee = (\<lambda>_. 1), ut_element = (\<lambda>_. 0), ut_length = (\<lambda>_. 0), ut_members = (\<lambda>_. [(2, 0)]),
     ut_has_subobjects = (\<lambda>t. t = 1), ut_subobjects = (\<lambda>_. [(2, 0)])\<rparr>"

definition list_params :: "(nat \<Rightarrow> nat) \<Rightarrow> bfs_params" where
  "list_params mem = \<lparr>ops = list_ops, load_ptr = mem, follow_ptr = (\<lambda>x. x), pointer_to_void = 9,
     rebalance = (\<lambda>t. [Rotate_Left [], Mark [] 1])\<rparr>"

definition no_nodes :: bfs_state where
  "no_nodes = \<lparr>nodes = (\<lambda>_. \<lparr>n_obj = 0, n_t = 0, n_next = 0\<rparr>), fresh = 1, freed_nodes = [], q_head = 0, q_tail = 0,
     colours = Leaf, distances = Leaf, predecessors = Leaf, blackened = []\<rparr>"

lemma list_succs:
  "4194304 \<le> mem a \<Longrightarrow> mem a < 0x800000000000 \<Longrightarrow> succs 1 (list_params mem) a 0 1 = Some [(mem a, 1)]"
  by (simp add: succs.simps list_params_def list_ops_def pointer_target_def IS_PLAUSIBLE_POINTER_def Let_def)

theorem walk_visits_reachable_witness:
  "\<exists>s'. walk_bfs_from_object 1 (list_params (\<lambda>a. if a = 4194304 then 4194312 else 4194304)) 4194304 1 no_nodes = Some s' \<and>
     distinct (blackened s') \<and> (4194312, 1) \<in> set (blackened s')"
proof -
  let ?mem = "\<lambda>a::nat. if a = 4194304 then 4194312 else 4194304"
  let ?P = "list_params ?mem" and ?N = "{(4194304, 1), (4194312, 1)} :: (nat \<times> nat) set"
  have s: "succs 1 ?P a 0 1 = Some [(?mem a, 1)]" for a by (rule list_succs) auto
  then have e: "edges 1 ?P (a, 1) = {(?mem a, 1)}" for a by (simp add: edges_def)
  have w: "walkable 1 ?P 0 ?N"
    by (auto simp: walkable_def s e in_window_def window_off_def simp del: One_nat_def)
  have "reach 1 ?P (4194304, 1) (4194312, 1)" using reach_step [OF reach_refl, of "(4194312, 1)" 1 ?P "(4194304, 1)"] e by (simp del: One_nat_def)
  then show ?thesis
    using walk_visits_reachable [OF w, of 4194304 1 no_nodes] by (auto simp: no_nodes_def simp del: One_nat_def)
qed

theorem distant_object_missed_witness:
  "\<exists>s'. walk_bfs_from_object 1 (list_params (\<lambda>_. 4299161600)) 4194304 1 no_nodes = Some s' \<and>
     blackened s' = [(4194304, 1)]"
  using distant_object_missed [OF list_succs [of "\<lambda>_. 4299161600" 4194304], of no_nodes] by (simp add: no_nodes_def)

end
