(* ===== verification/Walk.thy ===== *)
theory Walk
  imports Pageindex Uniqtypes
begin

text \<open>
  The walks over allocations (\<open>src/walk.c\<close>): the children of a big allocation or the subobjects of a
  typed object, the depth-first walk built on it, and the callbacks that find references and
  environment elements.

  A callback changes a state of the client; the table of big allocations is only read.  The walks of the
  allocators are parameters, \<open>None\<close> for an allocator that has none.  The fuel of the
  depth-first walk bounds the depth of nesting.
\<close>

section \<open>Positions in the tree of allocations\<close>

text \<open>
  \<open>bigalloc_or_uniqtype\<close> is a pointer into the table of big allocations or to a descriptor, with flags
  in its low bits; \<open>imposed_flag\<close> is \<open>ALLOC_WALK_BIGALLOC_IMPOSED_CHILDREN\<close>.
\<close>

datatype bou = Bou_Bigalloc nat | Bou_Uniqtype nat

record alloc_tree_pos =
  pos_base :: addr
  bigalloc_or_uniqtype :: bou
  imposed_flag :: bool

record alloc_tree_link =
  container :: alloc_tree_pos
  containee_coord :: nat

datatype alloc_tree_path = Path (to_here: alloc_tree_link) (encl_depth: nat) (encl: "alloc_tree_path option")

text \<open>A callback gets the big allocation, the object, its type and allocation site, and where it was found.\<close>

type_synonym ('p, 's) alloc_cb = "nat \<Rightarrow> addr \<Rightarrow> nat \<Rightarrow> addr \<Rightarrow> 'p \<Rightarrow> 's \<Rightarrow> (int \<times> 's) res"

type_synonym 's walk_ops = "allocator \<Rightarrow>
  (alloc_tree_pos \<Rightarrow> (alloc_tree_link, 's) alloc_cb \<Rightarrow> addr \<Rightarrow> addr \<Rightarrow> 's \<Rightarrow> (int \<times> 's) res) option"

section \<open>One level\<close>

definition walk_suballocations :: "'s walk_ops \<Rightarrow> 'a pi_state_scheme \<Rightarrow> nat \<Rightarrow> (alloc_tree_link, 's) alloc_cb \<Rightarrow>
    addr \<Rightarrow> addr \<Rightarrow> 's \<Rightarrow> (int \<times> 's) res" where
  "walk_suballocations w st b cb range_begin range_end s =
     (case suballocator (big_allocations st b) of
        None \<Rightarrow> Inl Null_Deref
      | Some a \<Rightarrow>
          (case w a of
             None \<Rightarrow> Inl Null_Deref
           | Some f \<Rightarrow> f \<lparr>pos_base = ba_begin (big_allocations st b), bigalloc_or_uniqtype = Bou_Bigalloc b,
                         imposed_flag = False\<rparr> cb range_begin range_end s))"

text \<open>
  The loop over the children: the return value and \<open>walked_up_to\<close>, which moves past every child,
  also one that is skipped.
\<close>

fun walk_imposed :: "nat \<Rightarrow> 's walk_ops \<Rightarrow> 'a pi_state_scheme \<Rightarrow> nat \<Rightarrow> (alloc_tree_link, 's) alloc_cb \<Rightarrow> addr \<Rightarrow>
    nat \<Rightarrow> nat \<Rightarrow> addr \<Rightarrow> 's \<Rightarrow> ((int \<times> addr) \<times> 's) res" where
  "walk_imposed fuel w st b cb maybe_range_end child coord walked_up_to s =
     (if child = 0 then Inr ((0, walked_up_to), s)
      else if fuel = 0 then Inl Out_Of_Fuel
      else
        let c = big_allocations st child;
            next_child = walk_imposed (fuel - 1) w st b cb maybe_range_end (next_sib c) (coord + 1) (ba_end c)
        in if ba_end c \<le> walked_up_to then next_child s
           else if maybe_range_end \<noteq> 0 \<and> ba_begin c > maybe_range_end then next_child s
           else if suballocator (big_allocations st b) = None \<or>
                   allocated_by c \<noteq> suballocator (big_allocations st b) then
             rbind (walk_suballocations w st b cb walked_up_to (ba_begin c) s) (\<lambda>(ret, s).
               if ret \<noteq> 0 then Inr ((ret, walked_up_to), s)
               else rbind (cb b (ba_begin (big_allocations st b)) 0 0
                       \<lparr>container = \<lparr>pos_base = ba_begin (big_allocations st b), bigalloc_or_uniqtype = Bou_Bigalloc b,
                                     imposed_flag = False\<rparr>, containee_coord = coord\<rparr> s) (\<lambda>(ret, s).
                 if ret \<noteq> 0 then Inr ((ret, walked_up_to), s) else next_child s))
           else next_child s)"

declare walk_imposed.simps [simp del]

fun walk_subobjects :: "(alloc_tree_link, 's) alloc_cb \<Rightarrow> alloc_tree_pos \<Rightarrow> (nat \<times> nat) list \<Rightarrow> nat \<Rightarrow> 's \<Rightarrow>
    (int \<times> 's) res" where
  "walk_subobjects cb scope [] i s = Inr (0, s)"
| "walk_subobjects cb scope ((t, offs) # rest) i s =
     rbind (cb 0 (pos_base scope + offs) t 0 \<lparr>container = scope, containee_coord = (i + 1) mod 2 ^ 32\<rparr> s) (\<lambda>(ret, s).
       if ret \<noteq> 0 then Inr (ret, s) else walk_subobjects cb scope rest (i + 1) s)"

definition walk_allocations :: "ut_ops \<Rightarrow> 's walk_ops \<Rightarrow> 'a pi_state_scheme \<Rightarrow> alloc_tree_pos \<Rightarrow>
    (alloc_tree_link, 's) alloc_cb \<Rightarrow> addr \<Rightarrow> addr \<Rightarrow> 's \<Rightarrow> (int \<times> 's) res" where
  "walk_allocations ops w st scope cb maybe_range_begin maybe_range_end s =
     (let walked_up_to = (if maybe_range_begin \<noteq> 0 then maybe_range_begin else pos_base scope) in
      case bigalloc_or_uniqtype scope of
        Bou_Bigalloc b \<Rightarrow>
          rbind (if imposed_flag scope
                 then walk_imposed NBIGALLOCS w st b cb maybe_range_end (first_child (big_allocations st b)) 1
                        walked_up_to s
                 else Inr ((0, walked_up_to), s)) (\<lambda>((ret, walked_up_to), s).
            if ret \<noteq> 0 then Inr (ret, s)
            else walk_suballocations w st b cb walked_up_to
                   (if maybe_range_end \<noteq> 0 then maybe_range_end else ba_end (big_allocations st b)) s)
      | Bou_Uniqtype u \<Rightarrow>
          if u = 0 then Inl Null_Deref
          else if ut_has_subobjects ops u then walk_subobjects cb scope (ut_subobjects ops u) 0 s
          else Inr (0, s))"

section \<open>The depth-first walk\<close>

fun child_at :: "nat \<Rightarrow> 'a pi_state_scheme \<Rightarrow> addr \<Rightarrow> nat \<Rightarrow> nat res" where
  "child_at fuel st obj child =
     (if child = 0 then Inr 0
      else if fuel = 0 then Inl Out_Of_Fuel
      else if ba_begin (big_allocations st child) = obj then Inr child
      else child_at (fuel - 1) st obj (next_sib (big_allocations st child)))"

declare child_at.simps [simp del]

definition bigalloc_of_object :: "'a pi_state_scheme \<Rightarrow> nat \<Rightarrow> addr \<Rightarrow> nat \<Rightarrow> alloc_tree_link \<Rightarrow> nat res" where
  "bigalloc_of_object st maybe_the_allocation obj t link =
     (case bigalloc_or_uniqtype (container link) of
        Bou_Bigalloc b \<Rightarrow>
          if t \<noteq> 0 then
            rbind (child_at NBIGALLOCS st obj (first_child (big_allocations st b))) (\<lambda>child.
              Inr (if child \<noteq> 0 then child else maybe_the_allocation))
          else Inr maybe_the_allocation
      | Bou_Uniqtype _ \<Rightarrow> Inr maybe_the_allocation)"

fun walk_one_df_cb :: "nat \<Rightarrow> ut_ops \<Rightarrow> 's walk_ops \<Rightarrow> 'a pi_state_scheme \<Rightarrow> (alloc_tree_path, 's) alloc_cb \<Rightarrow>
    alloc_tree_path \<Rightarrow> (alloc_tree_link, 's) alloc_cb" where
  "walk_one_df_cb fuel ops w st cb path_to_container maybe_the_allocation obj t allocsite link s =
     rbind (bigalloc_of_object st maybe_the_allocation obj t link) (\<lambda>maybe_the_allocation.
       let path_to_here = Path link (1 + encl_depth path_to_container) (Some path_to_container) in
       rbind (cb maybe_the_allocation obj t allocsite path_to_here s) (\<lambda>(ret, s).
         if ret = -1 then Inr (0, s)
         else if ret \<noteq> 0 then Inr (ret, s)
         else if maybe_the_allocation = 0 \<and> t = 0 then Inr (0, s)
         else if fuel = 0 then Inl Out_Of_Fuel
         else
           walk_allocations ops w st
             \<lparr>pos_base = obj,
              bigalloc_or_uniqtype = (if maybe_the_allocation \<noteq> 0 then Bou_Bigalloc maybe_the_allocation
                                      else Bou_Uniqtype t),
              imposed_flag = False\<rparr>
             (\<lambda>b obj t allocsite link s. walk_one_df_cb (fuel - 1) ops w st cb path_to_here b obj t allocsite link s)
             0 0 s))"

declare walk_one_df_cb.simps [simp del]

definition empty_path :: alloc_tree_path where
  "empty_path = Path \<lparr>container = \<lparr>pos_base = 0, bigalloc_or_uniqtype = Bou_Uniqtype 0, imposed_flag = False\<rparr>,
     containee_coord = 0\<rparr> 0 None"

definition walk_allocations_df :: "nat \<Rightarrow> ut_ops \<Rightarrow> 's walk_ops \<Rightarrow> 'a pi_state_scheme \<Rightarrow> alloc_tree_pos \<Rightarrow>
    (alloc_tree_path, 's) alloc_cb \<Rightarrow> 's \<Rightarrow> (int \<times> 's) res" where
  "walk_allocations_df fuel ops w st under_here cb s =
     walk_allocations ops w st under_here (walk_one_df_cb fuel ops w st cb empty_path) 0 0 s"

section \<open>References and environment\<close>

text \<open>The interpreter's functions and the client's callback are the fields of an environment.\<close>

record walk_refs_state =
  seen_how :: int

record 's refs_env =
  can_interp :: "addr \<Rightarrow> nat \<Rightarrow> alloc_tree_link \<Rightarrow> int"
  may_contain :: "addr \<Rightarrow> nat \<Rightarrow> alloc_tree_link \<Rightarrow> bool"
  ref_cb :: "(alloc_tree_path, 's) alloc_cb"

definition walk_refs_cb :: "'b walk_refs_state_scheme refs_env \<Rightarrow>
    (alloc_tree_path, 'b walk_refs_state_scheme) alloc_cb" where
  "walk_refs_cb env maybe_the_allocation obj t allocsite path s =
     (let how = can_interp env obj t (to_here path) in
      if how \<noteq> 0 then
        rbind (ref_cb env maybe_the_allocation obj t allocsite path (s\<lparr>seen_how := how\<rparr>)) (\<lambda>(ret, s).
          let s = s\<lparr>seen_how := 0\<rparr> in
          if ret \<noteq> 0 then Inr (ret, s) else Inr (-1, s))
      else if \<not> may_contain env obj t (to_here path) then Inr (-1, s)
      else Inr (0, s))"

definition walk_environ_cb :: "(addr \<Rightarrow> nat \<Rightarrow> alloc_tree_link \<Rightarrow> nat) \<Rightarrow>
    (nat \<Rightarrow> (alloc_tree_path, 's) alloc_cb) \<Rightarrow> (alloc_tree_path, 's) alloc_cb" where
  "walk_environ_cb is_environ environ_cb maybe_the_allocation obj t allocsite path s =
     (let maybe_environ_key = is_environ obj t (to_here path) in
      if maybe_environ_key \<noteq> 0 then
        rbind (environ_cb maybe_environ_key maybe_the_allocation obj t allocsite path s) (\<lambda>(ret, s).
          if ret \<noteq> 0 then Inr (ret, s) else Inr (-1, s))
      else Inr (0, s))"

end
