(* ===== verification/Walk_Correct.thy ===== *)
theory Walk_Correct
  imports Walk Pageindex_Example
begin

text \<open>
  The depth-first walk under a typed object is a walk over the tree of its subobjects; with the callback for
  references it reports the outermost references, in order.
\<close>

section \<open>The tree of subobjects\<close>

datatype otree = Node addr nat "otree list"

definition subs :: "ut_ops \<Rightarrow> nat \<Rightarrow> (nat \<times> nat) list" where
  "subs ops t = (if t \<noteq> 0 \<and> ut_has_subobjects ops t then ut_subobjects ops t else [])"

text \<open>The number of levels is the depth of the type's nesting.\<close>

fun tree_of :: "nat \<Rightarrow> ut_ops \<Rightarrow> addr \<Rightarrow> nat \<Rightarrow> otree" where
  "tree_of 0 ops a t = Node a t []"
| "tree_of (Suc n) ops a t = Node a t (map (\<lambda>(t', off). tree_of n ops (a + off) t') (subs ops t))"

definition subs_nested :: "ut_ops \<Rightarrow> (nat \<Rightarrow> nat) \<Rightarrow> bool" where
  "subs_nested ops d \<longleftrightarrow> (\<forall>t. \<forall>(t', off) \<in> set (subs ops t). d t' < d t)"

text \<open>
  A preorder walk: the result 0 goes on, -1 leaves the subtree out, and any other one ends the walk.
\<close>

fun visit :: "(addr \<Rightarrow> nat \<Rightarrow> 's \<Rightarrow> int \<times> 's) \<Rightarrow> otree \<Rightarrow> 's \<Rightarrow> int \<times> 's"
  and visit_list :: "(addr \<Rightarrow> nat \<Rightarrow> 's \<Rightarrow> int \<times> 's) \<Rightarrow> otree list \<Rightarrow> 's \<Rightarrow> int \<times> 's" where
  "visit f (Node a t ts) s =
     (case f a t s of (ret, s) \<Rightarrow>
        if ret = -1 then (0, s) else if ret \<noteq> 0 then (ret, s) else visit_list f ts s)"
| "visit_list f [] s = (0, s)"
| "visit_list f (x # xs) s =
     (case visit f x s of (ret, s) \<Rightarrow> if ret \<noteq> 0 then (ret, s) else visit_list f xs s)"

definition subtrees :: "nat \<Rightarrow> ut_ops \<Rightarrow> addr \<Rightarrow> nat \<Rightarrow> otree list" where
  "subtrees n ops a t = map (\<lambda>(t', off). tree_of n ops (a + off) t') (subs ops t)"

lemma subs_less: "subs_nested ops d \<Longrightarrow> (t', off) \<in> set (subs ops t) \<Longrightarrow> d t' < d t"
  by (fastforce simp: subs_nested_def)

lemma subs_leaf:
  assumes "subs_nested ops d" "d t \<le> 0"
  shows "subs ops t = []"
proof (rule ccontr)
  assume "subs ops t \<noteq> []"
  then have "hd (subs ops t) \<in> set (subs ops t)" by simp
  then show False using subs_less [OF assms(1), of "fst (hd (subs ops t))" "snd (hd (subs ops t))" t] assms(2) by simp
qed

text \<open>More levels than the nesting has make no difference.\<close>

lemma tree_of_more:
  assumes "subs_nested ops d"
  shows "d t \<le> n \<Longrightarrow> n \<le> n' \<Longrightarrow> tree_of n' ops a t = tree_of n ops a t"
proof (induction n arbitrary: n' a t)
  case 0
  then have "subs ops t = []" using subs_leaf [OF assms] by simp
  then show ?case by (cases n') simp_all
next
  case (Suc n)
  then obtain k where k: "n' = Suc k" "n \<le> k" by (cases n') auto
  have "tree_of k ops (a + off) t' = tree_of n ops (a + off) t'" if "(t', off) \<in> set (subs ops t)" for t' off
    using subs_less [OF assms that] Suc.prems(1) by (intro Suc.IH) (simp_all add: k(2))
  then have "map (\<lambda>(t', off). tree_of k ops (a + off) t') (subs ops t) =
      map (\<lambda>(t', off). tree_of n ops (a + off) t') (subs ops t)"
    by (intro map_cong refl) auto
  then show ?case by (simp add: k(1))
qed

section \<open>The walk is a preorder walk\<close>

text \<open>Callbacks that look only at the object and its type.\<close>

definition pure_cb :: "(alloc_tree_path, 's) alloc_cb \<Rightarrow> (addr \<Rightarrow> nat \<Rightarrow> 's \<Rightarrow> int \<times> 's) \<Rightarrow> bool" where
  "pure_cb cb f \<longleftrightarrow> (\<forall>b obj t site path s. cb b obj t site path s = Inr (f obj t s))"

lemma walk_each:
  assumes "\<And>t off link s. (t, off) \<in> set xs \<Longrightarrow> container link = scope \<Longrightarrow>
    cb 0 (pos_base scope + off) t 0 link s = Inr (visit f (g t off) s)"
  shows "walk_subobjects cb scope xs i s = Inr (visit_list f (map (\<lambda>(t, off). g t off) xs) s)"
  using assms
proof (induction xs arbitrary: i s)
  case (Cons x xs)
  obtain t off where x: "x = (t, off)" by (cases x)
  have "cb 0 (pos_base scope + off) t 0 link s = Inr (visit f (g t off) s)" if "container link = scope" for link
    using Cons.prems [of t off link s] that x by simp
  moreover have "walk_subobjects cb scope xs j s = Inr (visit_list f (map (\<lambda>(t, off). g t off) xs) s)" for j s
    by (rule Cons.IH) (use Cons.prems in auto)
  ultimately show ?case by (simp add: x split: prod.split)
qed simp

lemma df_visits:
  assumes "subs_nested ops d" "pure_cb cb f" "d t \<le> fuel" "bigalloc_or_uniqtype (container link) = Bou_Uniqtype u"
  shows "walk_one_df_cb (Suc fuel) ops w st cb path 0 a t site link s = Inr (visit f (tree_of (Suc fuel) ops a t) s)"
  using assms(3,4)
proof (induction fuel arbitrary: path a t site link u s)
  case 0
  then have "subs ops t = []" using subs_leaf [OF assms(1)] by simp
  then show ?case
    using assms(2) 0(2) unfolding pure_cb_def
    by (subst walk_one_df_cb.simps)
      (auto simp: bigalloc_of_object_def Let_def walk_allocations_def subs_def split: prod.splits if_splits)
next
  case (Suc n)
  let ?scope = "\<lparr>pos_base = a, bigalloc_or_uniqtype = Bou_Uniqtype t, imposed_flag = False\<rparr>"
  have "walk_subobjects (\<lambda>b obj t site link s. walk_one_df_cb (Suc n) ops w st cb p b obj t site link s) ?scope
      (subs ops t) 0 s = Inr (visit_list f (subtrees (Suc n) ops a t) s)" for p s
    unfolding subtrees_def
  proof (rule walk_each)
    fix t' off s and link :: alloc_tree_link
    assume t': "(t', off) \<in> set (subs ops t)" and l: "container link = ?scope"
    have "d t' \<le> n" using subs_less [OF assms(1) t'] Suc.prems(1) by simp
    then show "walk_one_df_cb (Suc n) ops w st cb p 0 (pos_base ?scope + off) t' 0 link s =
        Inr (visit f (tree_of (Suc n) ops (a + off) t') s)"
      using Suc.IH [of t' link t] l by simp
  qed
  then have "walk_allocations ops w st ?scope
      (\<lambda>b obj t site link s. walk_one_df_cb (Suc n) ops w st cb p b obj t site link s) 0 0 s =
      Inr (visit_list f (subtrees (Suc n) ops a t) s)" if "t \<noteq> 0" for p s
    using that by (cases "ut_has_subobjects ops t") (simp_all add: walk_allocations_def subs_def subtrees_def)
  moreover have "subs ops t = []" if "t = 0" using that by (simp add: subs_def)
  ultimately show ?case
    using assms(2) Suc.prems(2) unfolding pure_cb_def
    by (subst walk_one_df_cb.simps)
      (auto simp: bigalloc_of_object_def Let_def subtrees_def split: prod.splits)
qed

text \<open>
  The depth-first walk under a typed object ends, for types nested no deeper than the fuel, and is a preorder
  walk of the tree of its subobjects: 0 from the client's callback goes on, -1 leaves out the
  subtree below the object, and any other value ends the walk and is its result.
\<close>

lemma df_preorder:
  assumes "subs_nested ops d" "pure_cb cb f" "t \<noteq> 0" "d t \<le> n" "n \<le> fuel"
  shows "walk_allocations_df fuel ops w st \<lparr>pos_base = a, bigalloc_or_uniqtype = Bou_Uniqtype t, imposed_flag = fl\<rparr> cb s =
    Inr (visit_list f (subtrees n ops a t) s)"
proof -
  let ?scope = "\<lparr>pos_base = a, bigalloc_or_uniqtype = Bou_Uniqtype t, imposed_flag = fl\<rparr>"
  have lt: "d t' < d t" if "(t', off) \<in> set (subs ops t)" for t' off
    by (rule subs_less [OF assms(1) that])
  have "walk_subobjects (walk_one_df_cb fuel ops w st cb empty_path) ?scope (subs ops t) 0 s =
      Inr (visit_list f (subtrees n ops a t) s)"
    unfolding subtrees_def
  proof (rule walk_each)
    fix t' off s and link :: alloc_tree_link
    assume t': "(t', off) \<in> set (subs ops t)" and l: "container link = ?scope"
    obtain k where k: "fuel = Suc k" using lt [OF t'] assms(4,5) by (cases fuel) auto
    have le: "d t' \<le> k" "d t' \<le> n" using lt [OF t'] assms(4,5) k by linarith+
    have "tree_of fuel ops (a + off) t' = tree_of n ops (a + off) t'"
      by (rule tree_of_more [OF assms(1) le(2) assms(5)])
    moreover have "bigalloc_or_uniqtype (container link) = Bou_Uniqtype t" by (simp add: l)
    note df_visits [OF assms(1,2) le(1) this, of w st empty_path "a + off" 0 s, folded k]
    ultimately show "walk_one_df_cb fuel ops w st cb empty_path 0 (pos_base ?scope + off) t' 0 link s =
        Inr (visit f (tree_of n ops (a + off) t') s)" by (simp only: alloc_tree_pos.simps)
  qed
  then show ?thesis
    using assms(3) by (cases "ut_has_subobjects ops t")
      (simp_all add: walk_allocations_df_def walk_allocations_def subs_def subtrees_def)
qed

section \<open>References\<close>

text \<open>The outermost references, left to right, that lie in objects that may contain some.\<close>

fun outer_refs :: "(addr \<Rightarrow> nat \<Rightarrow> bool) \<Rightarrow> (addr \<Rightarrow> nat \<Rightarrow> bool) \<Rightarrow> otree \<Rightarrow> (addr \<times> nat) list" where
  "outer_refs is_ref may (Node a t ts) =
     (if is_ref a t then [(a, t)] else if may a t then concat (map (outer_refs is_ref may) ts) else [])"

record refs_found = walk_refs_state +
  found :: "(addr \<times> nat \<times> int) list"

definition record_ref :: "(alloc_tree_path, refs_found) alloc_cb" where
  "record_ref b obj t site path s = Inr (0, s\<lparr>found := found s @ [(obj, t, seen_how s)]\<rparr>)"

definition refs_step :: "(addr \<Rightarrow> nat \<Rightarrow> int) \<Rightarrow> (addr \<Rightarrow> nat \<Rightarrow> bool) \<Rightarrow> addr \<Rightarrow> nat \<Rightarrow> refs_found \<Rightarrow> int \<times> refs_found" where
  "refs_step how may a t s =
     (if how a t \<noteq> 0 then (-1, s\<lparr>found := found s @ [(a, t, how a t)], seen_how := 0\<rparr>)
      else if may a t then (0, s) else (-1, s))"

lemma visit_refs:
  fixes x :: otree
  assumes "\<And>a t. is_ref a t \<longleftrightarrow> how a t \<noteq> 0"
  shows "seen_how s = 0 \<Longrightarrow> visit (refs_step how may) x s =
    (0, s\<lparr>found := found s @ map (\<lambda>(a, t). (a, t, how a t)) (outer_refs is_ref may x)\<rparr>)"
    "seen_how s = 0 \<Longrightarrow> visit_list (refs_step how may) xs s =
    (0, s\<lparr>found := found s @ map (\<lambda>(a, t). (a, t, how a t)) (concat (map (outer_refs is_ref may) xs))\<rparr>)"
proof (induction "refs_step how may" x s and "refs_step how may" xs s rule: visit_visit_list.induct)
  case (1 a t ts s)
  then show ?case using assms by (auto simp: refs_step_def)
qed auto

text \<open>
  C24. The depth-first walk for references under a typed object ends, when types are nested no deeper than the
  fuel. With an interpreter that judges an object by its address and type and a callback that records what it is
  given, it reports exactly the outermost references, in the order of the tree of subobjects and with the
  way each was recognised: below a reference, and
  below an object that cannot contain any, nothing is looked at.
\<close>

theorem walk_refs_outermost:
  assumes "subs_nested ops d" "t \<noteq> 0" "d t \<le> n" "n \<le> fuel" "seen_how s = 0"
    "can_interp env = (\<lambda>a t link. how a t)" "may_contain env = (\<lambda>a t link. may a t)" "ref_cb env = record_ref"
  shows "walk_allocations_df fuel ops w st \<lparr>pos_base = a, bigalloc_or_uniqtype = Bou_Uniqtype t, imposed_flag = fl\<rparr>
      (walk_refs_cb env) s =
    Inr (0, s\<lparr>found := found s @ map (\<lambda>(a, t). (a, t, how a t))
      (concat (map (outer_refs (\<lambda>a t. how a t \<noteq> 0) may) (subtrees n ops a t)))\<rparr>)"
proof -
  have "pure_cb (walk_refs_cb env) (refs_step how may)"
    unfolding pure_cb_def by (simp add: walk_refs_cb_def refs_step_def assms(6-8) record_ref_def Let_def)
  note walk = df_preorder [OF assms(1) this assms(2-4)]
  have "visit_list (refs_step how may) (subtrees n ops a t) s = (0, s\<lparr>found := found s @ map (\<lambda>(a, t). (a, t, how a t))
      (concat (map (outer_refs (\<lambda>a t. how a t \<noteq> 0) may) (subtrees n ops a t)))\<rparr>)"
    by (rule visit_refs(2) [OF refl assms(5)])
  then show ?thesis unfolding walk by (rule arg_cong)
qed

section \<open>Imposed children\<close>

text \<open>
  When the children are to be walked, a child of the suballocator itself is passed over together with
  everything before it: with one such child, only what follows its end is walked.
\<close>

lemma imposed_walk_skips_promoted:
  assumes "first_child (big_allocations st b) = c" "c \<noteq> 0" "next_sib (big_allocations st c) = 0"
    "suballocator (big_allocations st b) = Some al" "allocated_by (big_allocations st c) = Some al"
  shows "walk_allocations ops w st \<lparr>pos_base = a, bigalloc_or_uniqtype = Bou_Bigalloc b, imposed_flag = True\<rparr> cb 0 0 s =
    walk_suballocations w st b cb (ba_end (big_allocations st c)) (ba_end (big_allocations st b)) s"
proof -
  have "NBIGALLOCS \<noteq> 0" by (simp add: NBIGALLOCS_def)
  then show ?thesis
    using assms by (simp add: walk_allocations_def walk_imposed.simps [of NBIGALLOCS] walk_imposed.simps [of _ _ _ _ _ _ 0] Let_def)
qed

text \<open>An imposed child of an allocation that has no suballocator is a null dereference.\<close>

lemma imposed_child_faults:
  assumes "first_child (big_allocations st b) = c" "c \<noteq> 0" "suballocator (big_allocations st b) = None"
    "a < ba_end (big_allocations st c)"
  shows "walk_allocations ops w st \<lparr>pos_base = a, bigalloc_or_uniqtype = Bou_Bigalloc b, imposed_flag = True\<rparr> cb 0 0 s =
    Inl Null_Deref"
proof -
  have "NBIGALLOCS \<noteq> 0" by (simp add: NBIGALLOCS_def)
  then show ?thesis
    using assms by (simp add: walk_allocations_def walk_imposed.simps [of NBIGALLOCS] Let_def walk_suballocations_def)
qed

section \<open>Examples\<close>

text \<open>A structure (3) of an integer (1) and an array (2) of two integers.\<close>

definition ex_walk_types :: ut_ops where
  "ex_walk_types = \<lparr>ut_kind = (\<lambda>u. if u = 2 then ARRAY else if u = 3 then COMPOSITE else BASE),
     ut_size = (\<lambda>u. if u = 1 then 4 else if u = 2 then 8 else 12), ut_is_pointer = (\<lambda>_. False), ut_pointee = (\<lambda>_. 0),
     ut_element = (\<lambda>_. 1), ut_length = (\<lambda>_. 2), ut_members = (\<lambda>u. if u = 3 then [(1, 0), (2, 4)] else []),
     ut_has_subobjects = (\<lambda>u. u = 2 \<or> u = 3),
     ut_subobjects = (\<lambda>u. if u = 2 then [(1, 0), (1, 4)] else [(1, 0), (2, 4)])\<rparr>"

definition ex_walk_depth :: "nat \<Rightarrow> nat" where
  "ex_walk_depth u = (if u = 3 then 2 else if u = 2 then 1 else 0)"

lemma ex_subs: "subs ex_walk_types t = (if t = 2 then [(1, 0), (1, 4)] else if t = 3 then [(1, 0), (2, 4)] else [])"
  by (simp add: subs_def ex_walk_types_def)

lemma ex_subs_nested: "subs_nested ex_walk_types ex_walk_depth"
  by (auto simp: subs_nested_def ex_subs ex_walk_depth_def)

lemma ex_subtrees: "subtrees 2 ex_walk_types 4096 3 =
  [Node 4096 1 [], Node 4100 2 [Node 4100 1 [], Node 4104 1 []]]"
  by (simp add: subtrees_def ex_subs numeral_2_eq_2)

lemma ex_outer_refs:
  "concat (map (outer_refs (\<lambda>a t. (if t = 2 \<or> a = 4104 then 7 else (0 :: int)) \<noteq> 0) (\<lambda>a t. True))
     (subtrees 2 ex_walk_types 4096 3)) = [(4100, 2)]"
  unfolding ex_subtrees by simp

theorem walk_refs_outermost_witness:
  "walk_allocations_df 2 ex_walk_types (\<lambda>_. None) ex_state
     \<lparr>pos_base = 4096, bigalloc_or_uniqtype = Bou_Uniqtype 3, imposed_flag = False\<rparr>
     (walk_refs_cb \<lparr>can_interp = (\<lambda>a t link. if t = 2 \<or> a = 4104 then 7 else 0), may_contain = (\<lambda>a t link. True),
        ref_cb = record_ref\<rparr>) \<lparr>seen_how = 0, found = []\<rparr> =
   Inr (0, \<lparr>seen_how = 0, found = [(4100, 2, 7)]\<rparr>)"
proof -
  let ?env = "\<lparr>can_interp = (\<lambda>a t link. if t = 2 \<or> a = 4104 then 7 else 0), may_contain = (\<lambda>a t link. True),
    ref_cb = record_ref\<rparr> :: refs_found refs_env"
  have d: "(3 :: nat) \<noteq> 0" "ex_walk_depth 3 \<le> 2" "2 \<le> (2 :: nat)" by (simp_all add: ex_walk_depth_def)
  have env: "can_interp ?env = (\<lambda>a t link. if t = 2 \<or> a = 4104 then 7 else 0)" "may_contain ?env = (\<lambda>a t link. True)"
    "ref_cb ?env = record_ref"
    by (rule refs_env.select_convs)+
  have s: "seen_how (\<lparr>seen_how = 0, found = []\<rparr> :: refs_found) = 0" by (rule walk_refs_state.select_convs)
  note walk_refs_outermost [OF ex_subs_nested d s env, of "\<lambda>_. None" ex_state 4096 False]
  then show ?thesis
    unfolding ex_outer_refs by (simp only: list.map append_Nil refs_found.simps prod.case simp_thms if_True)
qed

end
