(* ===== verification/Mapping_Seq.thy ===== *)
theory Mapping_Seq
  imports LA_Prelude
begin

text \<open>
  Mapping sequences (\<open>src/allocators/mmap.c\<close>): the contiguous memory mappings
  that make up one allocation of the mmap allocator, in an array of fixed length of
  which the first \<open>nused\<close> entries are in use.  The array is a function from
  indices; an access beyond its length is the fault \<open>Out_Of_Bounds\<close>.
  \<open>object_below\<close> stands for librunt's \<open>get_highest_loaded_object_below\<close>.
\<close>

section \<open>Entries and sequences\<close>

record mapping_entry =
  me_begin :: addr
  me_end :: addr
  me_prot :: nat
  me_flags :: nat
  me_offset :: int
  me_is_anon :: bool
  me_caller :: nat

definition MAPPING_SEQUENCE_MAX_LEN :: nat where
  "MAPPING_SEQUENCE_MAX_LEN = 8"

record mapping_sequence =
  ms_begin :: addr
  ms_end :: addr
  ms_filename :: "string option"
  ms_nused :: nat
  ms_mappings :: "nat \<Rightarrow> mapping_entry"

definition null_entry :: mapping_entry where
  "null_entry = \<lparr>me_begin = 0, me_end = 0, me_prot = 0, me_flags = 0, me_offset = 0,
     me_is_anon = False, me_caller = 0\<rparr>"

definition empty_sequence :: mapping_sequence where
  "empty_sequence = \<lparr>ms_begin = 0, ms_end = 0, ms_filename = None, ms_nused = 0,
     ms_mappings = \<lambda>_. null_entry\<rparr>"

definition set_mapping :: "nat \<Rightarrow> mapping_entry \<Rightarrow> mapping_sequence \<Rightarrow> mapping_sequence" where
  "set_mapping i e s = s\<lparr>ms_mappings := (ms_mappings s)(i := e)\<rparr>"

text \<open>\<open>mapping_entry_equal\<close> compares all fields, so it is equality of entries.\<close>

definition mapping_entry_equal :: "mapping_entry \<Rightarrow> mapping_entry \<Rightarrow> bool" where
  "mapping_entry_equal e1 e2 \<longleftrightarrow>
     me_begin e1 = me_begin e2 \<and> me_end e1 = me_end e2 \<and> me_prot e1 = me_prot e2 \<and>
     me_flags e1 = me_flags e2 \<and> me_offset e1 = me_offset e2 \<and>
     me_is_anon e1 = me_is_anon e2 \<and> me_caller e1 = me_caller e2"

definition mapping_entries_equal :: "(nat \<Rightarrow> mapping_entry) \<Rightarrow> nat \<Rightarrow> (nat \<Rightarrow> mapping_entry) \<Rightarrow> nat \<Rightarrow>
    nat \<Rightarrow> bool" where
  "mapping_entries_equal m1 o1 m2 o2 n = list_all (\<lambda>i. mapping_entry_equal (m1 (o1 + i)) (m2 (o2 + i))) [0..<n]"

text \<open>
  With \<open>nused\<close> zero the code compares \<open>nused - 1\<close> entries, an unsigned
  wrap-around, but only after the first disjunct has held.
\<close>

definition mapping_sequence_prefix :: "mapping_sequence \<Rightarrow> mapping_sequence \<Rightarrow> bool" where
  "mapping_sequence_prefix s1 s2 \<longleftrightarrow>
     ms_nused s1 \<le> ms_nused s2 \<and>
     (mapping_entries_equal (ms_mappings s1) 0 (ms_mappings s2) 0 (ms_nused s1) \<or>
      (let l1 = ms_mappings s1 (ms_nused s1 - 1); l2 = ms_mappings s2 (ms_nused s2 - 1)
       in mapping_entries_equal (ms_mappings s1) 0 (ms_mappings s2) 0 (ms_nused s1 - 1) \<and>
          ms_nused s1 = ms_nused s2 \<and> me_is_anon l1 \<and> me_is_anon l2 \<and>
          me_begin l1 = me_begin l2 \<and> me_end l1 \<le> me_end l2))"

definition mem_range_prefix :: "mapping_sequence \<Rightarrow> mapping_sequence \<Rightarrow> bool" where
  "mem_range_prefix s1 s2 \<longleftrightarrow> ms_begin s1 = ms_begin s2 \<and> ms_end s1 < ms_end s2"

definition mapping_sequence_suffix :: "mapping_sequence \<Rightarrow> mapping_sequence \<Rightarrow> bool" where
  "mapping_sequence_suffix s1 s2 \<longleftrightarrow>
     ms_nused s1 \<le> ms_nused s2 \<and>
     mapping_entries_equal (ms_mappings s2) (ms_nused s2 - ms_nused s1) (ms_mappings s1) 0 (ms_nused s1)"

definition mem_range_suffix :: "mapping_sequence \<Rightarrow> mapping_sequence \<Rightarrow> bool" where
  "mem_range_suffix s1 s2 \<longleftrightarrow> ms_end s1 = ms_end s2 \<and> ms_begin s1 > ms_begin s2"

section \<open>Deleting a span\<close>

text \<open>The body of the loop over the array, at index \<open>i\<close>.\<close>

definition delete_from_entry :: "addr \<Rightarrow> nat \<Rightarrow> nat \<Rightarrow> mapping_sequence \<Rightarrow> mapping_sequence res" where
  "delete_from_entry a len i seq =
     (let e = ms_mappings seq i in
      if me_begin e \<le> a + len \<and> me_end e > a then
        if a > me_begin e \<and> a + len < me_end e then Inl Abort
        else
          let left_at_beginning = (if a > me_begin e then a - me_begin e else 0);
              left_at_end = (if a + len > me_end e then 0 else me_end e - (a + len));
              total = (left_at_beginning = 0 \<and> left_at_end = 0)
          in if total then Inr (set_mapping i null_entry seq)
             else
               let current_length = me_end e - me_begin e
               in if left_at_beginning = 0
                  then let b = me_begin e + (current_length - left_at_end);
                           seq = set_mapping i (e\<lparr>me_begin := b\<rparr>) seq
                       in Inr (if i = 0 then seq\<lparr>ms_begin := b\<rparr> else seq)
                  else let b = me_end e - (current_length - left_at_beginning);
                           seq = set_mapping i (e\<lparr>me_end := b\<rparr>) seq
                       in Inr (if i + 1 = ms_nused seq then seq\<lparr>ms_end := b\<rparr> else seq)
      else Inr seq)"

fun delete_from_entries :: "addr \<Rightarrow> nat \<Rightarrow> nat \<Rightarrow> nat \<Rightarrow> mapping_sequence \<Rightarrow> mapping_sequence res" where
  "delete_from_entries a len i 0 seq = Inr seq"
| "delete_from_entries a len i (Suc n) seq =
     rbind (delete_from_entry a len i seq) (delete_from_entries a len (i + 1) n)"

text \<open>The loop that closes the gaps: move the later entries down over a cleared one.\<close>

definition remove_mapping :: "nat \<Rightarrow> mapping_sequence \<Rightarrow> mapping_sequence" where
  "remove_mapping i seq =
     seq\<lparr>ms_mappings := (\<lambda>j. if i \<le> j \<and> j + 1 < ms_nused seq then ms_mappings seq (j + 1)
                           else if j + 1 = ms_nused seq then null_entry else ms_mappings seq j),
         ms_nused := ms_nused seq - 1\<rparr>"

function compact :: "nat \<Rightarrow> mapping_sequence \<Rightarrow> mapping_sequence" where
  "compact i seq =
     (if i < ms_nused seq
      then if me_begin (ms_mappings seq i) = 0 then compact i (remove_mapping i seq)
           else compact (i + 1) seq
      else seq)"
  by pat_completeness auto

termination
  by (relation "measure (\<lambda>(i, seq). ms_nused seq - i)") (auto simp: remove_mapping_def)

declare compact.simps [simp del]

definition delete_mapping_sequence_span :: "mapping_sequence \<Rightarrow> addr \<Rightarrow> nat \<Rightarrow> mapping_sequence res" where
  "delete_mapping_sequence_span seq a len =
     rbind (delete_from_entries a len 0 MAPPING_SEQUENCE_MAX_LEN seq) (\<lambda>seq.
       let seq = compact 0 seq;
           seq = (if ms_begin seq \<ge> a \<and> ms_begin seq < a + len then seq\<lparr>ms_begin := a + len\<rparr> else seq);
           seq = (if ms_end seq > a \<and> ms_end seq \<le> a + len then seq\<lparr>ms_end := a\<rparr> else seq)
       in Inr seq)"

fun find_entry_from :: "nat \<Rightarrow> addr \<Rightarrow> mapping_sequence \<Rightarrow> nat \<Rightarrow> nat option" where
  "find_entry_from 0 a seq i = None"
| "find_entry_from (Suc n) a seq i =
     (if me_begin (ms_mappings seq i) \<le> a \<and> a < me_end (ms_mappings seq i) then Some i
      else find_entry_from n a seq (i + 1))"

definition find_entry :: "addr \<Rightarrow> mapping_sequence \<Rightarrow> nat option" where
  "find_entry a seq = find_entry_from (ms_nused seq) a seq 0"

section \<open>The sanity check\<close>

definition check_mapping_sequence_sanity :: "mapping_sequence \<Rightarrow> bool" where
  "check_mapping_sequence_sanity cur \<longleftrightarrow>
     ms_nused cur = 0 \<or>
     ms_begin cur = me_begin (ms_mappings cur 0) \<and>
     ms_end cur = me_end (ms_mappings cur (ms_nused cur - 1)) \<and>
     list_all (\<lambda>i. me_begin (ms_mappings cur i) \<noteq> 0 \<and> me_end (ms_mappings cur i) \<noteq> 0 \<and>
        me_end (ms_mappings cur i) > me_begin (ms_mappings cur i) \<and>
        (i > 0 \<longrightarrow> me_end (ms_mappings cur (i - 1)) = me_begin (ms_mappings cur i))) [0..<ms_nused cur]"

section \<open>Augmenting a sequence\<close>

definition copy_all_left_from_by :: "nat \<Rightarrow> nat \<Rightarrow> mapping_sequence \<Rightarrow> mapping_sequence" where
  "copy_all_left_from_by from by' s =
     s\<lparr>ms_mappings := (\<lambda>j. if from - by' \<le> j \<and> j + by' < ms_nused s then ms_mappings s (j + by')
                        else ms_mappings s j),
       ms_nused := ms_nused s - by'\<rparr>"

definition copy_all_right_from_by :: "nat \<Rightarrow> nat \<Rightarrow> mapping_sequence \<Rightarrow> mapping_sequence" where
  "copy_all_right_from_by from by' s =
     s\<lparr>ms_mappings := (\<lambda>j. if from + by' \<le> j \<and> j < ms_nused s + by' then ms_mappings s (j - by')
                        else ms_mappings s j),
       ms_nused := ms_nused s + by'\<rparr>"

definition OVERLAPS :: "addr \<Rightarrow> addr \<Rightarrow> addr \<Rightarrow> addr \<Rightarrow> bool" where
  "OVERLAPS b1 e1 b2 e2 \<longleftrightarrow> b1 < e2 \<and> e1 \<ge> b2"

definition new_entry :: "addr \<Rightarrow> addr \<Rightarrow> nat \<Rightarrow> nat \<Rightarrow> int \<Rightarrow> string option \<Rightarrow> nat \<Rightarrow> mapping_entry" where
  "new_entry begin' end' prot flags offset filename caller =
     \<lparr>me_begin = begin', me_end = end', me_prot = prot, me_flags = flags, me_offset = offset,
      me_is_anon = (filename = None), me_caller = caller\<rparr>"

text \<open>Whether a mapping may follow the sequence directly; \<open>PROT_NONE\<close> is 0.\<close>

definition filename_is_consistent_append :: "(nat \<Rightarrow> nat) \<Rightarrow> mapping_sequence \<Rightarrow> nat \<Rightarrow>
    string option \<Rightarrow> nat \<Rightarrow> bool" where
  "filename_is_consistent_append object_below cur prot filename caller \<longleftrightarrow>
     (let l = ms_mappings cur (ms_nused cur - 1) in
      filename = None \<and> ms_filename cur = None \<or>
      ms_nused cur = 0 \<or>
      prot = 0 \<and> filename = None \<or>
      filename = None \<and> ms_filename cur \<noteq> None \<and> \<not> me_is_anon l \<and>
        (caller = 0 \<and> me_caller l = 0 \<or> object_below caller = object_below (me_caller l)) \<or>
      filename \<noteq> None \<and> ms_filename cur \<noteq> None \<and> filename = ms_filename cur)"

text \<open>The searches for the first and the last entry overlapped.\<close>

fun scan_up :: "(mapping_entry \<Rightarrow> bool) \<Rightarrow> mapping_sequence \<Rightarrow> nat \<Rightarrow> nat \<Rightarrow> nat res" where
  "scan_up P cur i 0 = Inl Out_Of_Bounds"
| "scan_up P cur i (Suc n) = (if P (ms_mappings cur i) then Inr i else scan_up P cur (i + 1) n)"

fun scan_down :: "(mapping_entry \<Rightarrow> bool) \<Rightarrow> mapping_sequence \<Rightarrow> nat \<Rightarrow> nat res" where
  "scan_down P cur 0 = Inl Out_Of_Bounds"
| "scan_down P cur (Suc i) = (if P (ms_mappings cur i) then Inr i else scan_down P cur i)"

text \<open>Whether a mapping may replace part of the sequence.\<close>

definition filename_is_consistent_overlap :: "(nat \<Rightarrow> nat) \<Rightarrow> mapping_sequence \<Rightarrow> nat \<Rightarrow> nat \<Rightarrow>
    bool \<Rightarrow> bool \<Rightarrow> string option \<Rightarrow> nat \<Rightarrow> bool" where
  "filename_is_consistent_overlap object_below cur first_overlapped last_overlapped
      begin_partial end_partial filename caller \<longleftrightarrow>
     (if filename = None \<and> ms_filename cur = None \<or> ms_nused cur = 0 then True
      else if filename \<noteq> None \<and> ms_filename cur \<noteq> None \<and> filename \<noteq> ms_filename cur then False
      else
        let preceding = (if begin_partial then int first_overlapped else int first_overlapped - 1);
            following = (if end_partial then int last_overlapped else int last_overlapped + 1);
            following = (if following \<ge> int (ms_nused cur) then -1 else following);
            rising_edge =
              (preceding \<noteq> -1 \<and> me_is_anon (ms_mappings cur (nat preceding)) \<and> filename \<noteq> None \<or>
               following \<noteq> -1 \<and> filename = None \<and> \<not> me_is_anon (ms_mappings cur (nat following)));
            first_caller = me_caller (ms_mappings cur first_overlapped)
        in \<not> rising_edge \<and>
           (caller = 0 \<or> first_caller = 0 \<or> object_below caller = object_below first_caller))"

text \<open>Splitting the first and the last entry overlapped, at the new bounds.\<close>

definition split_first :: "nat \<Rightarrow> addr \<Rightarrow> mapping_sequence \<Rightarrow> mapping_sequence" where
  "split_first f begin' cur =
     (let cur = copy_all_right_from_by f 1 cur;
          cur = set_mapping f ((ms_mappings cur f)\<lparr>me_end := begin'\<rparr>) cur
      in set_mapping (f + 1) ((ms_mappings cur (f + 1))\<lparr>me_begin := begin'\<rparr>) cur)"

definition split_last :: "nat \<Rightarrow> addr \<Rightarrow> mapping_sequence \<Rightarrow> mapping_sequence" where
  "split_last l end' cur =
     (let cur = copy_all_right_from_by l 1 cur;
          cur = set_mapping (l + 1) ((ms_mappings cur (l + 1))\<lparr>me_begin := end'\<rparr>) cur
      in set_mapping l ((ms_mappings cur l)\<lparr>me_end := end'\<rparr>) cur)"

definition replace_overlapped :: "mapping_sequence \<Rightarrow> nat \<Rightarrow> nat \<Rightarrow> bool \<Rightarrow> bool \<Rightarrow> mapping_entry \<Rightarrow>
    mapping_sequence" where
  "replace_overlapped cur first_overlapped last_overlapped begin_partial end_partial e =
     (let (cur, f, l) =
            (if begin_partial
             then (split_first first_overlapped (me_begin e) cur, first_overlapped + 1, last_overlapped + 1)
             else (cur, first_overlapped, last_overlapped));
          cur = (if end_partial then split_last l (me_end e) cur else cur);
          n_obsolete = l - f + 1;
          cur = (if n_obsolete > 1 then copy_all_left_from_by (l + 1) (n_obsolete - 1) cur else cur)
      in set_mapping f e cur)"

text \<open>
  The whole of \<open>augment_sequence\<close>; the sequence passed may be null.  On
  failure the code compares the file names to print a warning, which
  dereferences the sequence.
\<close>

definition augment_append :: "(nat \<Rightarrow> nat) \<Rightarrow> mapping_sequence \<Rightarrow> mapping_entry \<Rightarrow> string option \<Rightarrow>
    (bool \<times> mapping_sequence) res" where
  "augment_append object_below cur e filename =
     (if \<not> filename_is_consistent_append object_below cur (me_prot e) filename (me_caller e)
      then Inr (False, cur)
      else
        let cur = (if ms_begin cur = 0 then cur\<lparr>ms_begin := me_begin e\<rparr> else cur);
            cur = cur\<lparr>ms_end := me_end e\<rparr>;
            cur = (if ms_filename cur = None then cur\<lparr>ms_filename := filename\<rparr> else cur);
            cur = set_mapping (ms_nused cur) e cur
        in Inr (True, cur\<lparr>ms_nused := ms_nused cur + 1\<rparr>))"

definition augment_overlap :: "(nat \<Rightarrow> nat) \<Rightarrow> mapping_sequence \<Rightarrow> mapping_entry \<Rightarrow> string option \<Rightarrow>
    (bool \<times> mapping_sequence) res" where
  "augment_overlap object_below cur e filename =
     (let P = (\<lambda>m. OVERLAPS (me_begin m) (me_end m) (me_begin e) (me_end e)) in
      rbind (scan_up P cur 0 MAPPING_SEQUENCE_MAX_LEN) (\<lambda>f.
      rbind (scan_down P cur (ms_nused cur)) (\<lambda>l.
        let begin_partial = (me_begin (ms_mappings cur f) \<noteq> me_begin e);
            end_partial = (me_end (ms_mappings cur l) \<noteq> me_end e)
        in if \<not> filename_is_consistent_overlap object_below cur f l begin_partial end_partial
                 filename (me_caller e) then Inr (False, cur)
           else if MAPPING_SEQUENCE_MAX_LEN - ms_nused cur <
                     (if begin_partial then 1 else 0) + (if end_partial then 1 else 0)
             then Inr (False, cur)
           else Inr (True, replace_overlapped cur f l begin_partial end_partial e))))"

definition augment_sequence :: "(nat \<Rightarrow> nat) \<Rightarrow> mapping_sequence option \<Rightarrow> addr \<Rightarrow> addr \<Rightarrow> nat \<Rightarrow> nat \<Rightarrow>
    int \<Rightarrow> string option \<Rightarrow> nat \<Rightarrow> (bool \<times> mapping_sequence option) res" where
  "augment_sequence object_below cur_opt begin' end' prot flags offset filename caller =
     (case cur_opt of
        None \<Rightarrow> if filename \<noteq> None then Inl Null_Deref else Inr (False, None)
      | Some cur \<Rightarrow>
          let is_clean_extension = (ms_end cur = 0 \<or> ms_end cur = begin');
              bounds_would_remain_contiguous =
                (is_clean_extension \<or> OVERLAPS (ms_begin cur) (ms_end cur) begin' end');
              begin_addr_unchanged = (begin' \<ge> ms_begin cur);
              not_too_many = (ms_nused cur \<noteq> MAPPING_SEQUENCE_MAX_LEN);
              e = new_entry begin' end' prot flags offset filename caller
          in rbind
               (if bounds_would_remain_contiguous \<and> begin_addr_unchanged \<and> not_too_many
                then if is_clean_extension then augment_append object_below cur e filename
                     else augment_overlap object_below cur e filename
                else Inr (False, cur))
               (\<lambda>(ret, cur). Inr (ret, Some cur)))"

text \<open>An entry of \<open>/proc/<pid>/maps\<close>, as librunt parses it.\<close>

record maps_entry =
  mp_first :: addr
  mp_second :: addr
  mp_r :: bool
  mp_w :: bool
  mp_x :: bool
  mp_p :: bool
  mp_offset :: int
  mp_rest :: string

text \<open>
  \<open>extend_current\<close>: the flags are those of Linux (\<open>PROT_READ\<close> 1,
  \<open>PROT_WRITE\<close> 2, \<open>PROT_EXEC\<close> 4, \<open>MAP_SHARED\<close> 1,
  \<open>MAP_PRIVATE\<close> 2, \<open>MAP_ANONYMOUS\<close> 32).
\<close>

definition extend_current :: "(nat \<Rightarrow> nat) \<Rightarrow> mapping_sequence \<Rightarrow> maps_entry \<Rightarrow>
    (bool \<times> mapping_sequence) res" where
  "extend_current object_below cur ent =
     (let go = (\<lambda>filename.
        rbind (augment_sequence object_below (Some cur) (mp_first ent) (mp_second ent)
          ((if mp_r ent then 1 else 0) + (if mp_w ent then 2 else 0) + (if mp_x ent then 4 else 0))
          ((if mp_p ent then 2 else 1) + (if filename = None then 32 else 0))
          (mp_offset ent) filename 0)
          (\<lambda>(ret, c). Inr (ret, the c)))
      in case mp_rest ent of
           [] \<Rightarrow> go None
         | c # rest \<Rightarrow>
             if c = CHR ''/'' then go (Some (mp_rest ent))
             else if c = CHR ''['' then
               (if take 6 (mp_rest ent) = ''[stack'' then go (Some (mp_rest ent)) else go None)
             else Inr (False, cur))"

end
