(* ===== verification/Brk_Stack.thy ===== *)
theory Brk_Stack
  imports Pageindex Mapping_Seq
begin

text \<open>
  The brk and stack allocators (\<open>src/allocators/brk.c\<close>,
  \<open>src/allocators/stack.c\<close>), with the part of \<open>src/allocators/mmap.c\<close> that
  follows the program break.  They share one state with the mmap and auxv allocators,
  which extends that of the page index by the globals of the four files and by the
  memory that holds the mapping sequences, \<open>seqs\<close>, indexed by address.

  \<open>sbrk\<close> is a parameter, as the traps it springs run the handlers below.
\<close>

section \<open>State\<close>

record alloc_state = pi_state +
  seqs :: "nat \<Rightarrow> mapping_sequence"
  brk_mapping_bigalloc :: nat
  executable_end_addr :: addr
  executable_data_segment_start_addr :: addr
  mmap_initialized :: bool
  curbrk :: addr
  last_caller :: nat
  brk_bigalloc :: nat
  brk_initialized :: bool
  brk_trying_to_initialize :: bool
  stack_lim_cur :: nat
  stack_lim_max :: nat
  stack_initialized :: bool
  initial_stack_bigalloc :: nat
  auxv_bigalloc :: nat
  top_of_initial_stack :: addr

abbreviation bigalloc_at :: "alloc_state \<Rightarrow> nat \<Rightarrow> big_allocation" where
  "bigalloc_at s b \<equiv> big_allocations s b"

section \<open>The mapping under the break\<close>

text \<open>
  \<open>__mmap_allocator_notify_brk\<close>.  The last entry of the sequence is at
  index \<open>nused - 1\<close>; the new anonymous entry goes to index
  \<open>nused\<close> whatever that is.
\<close>

definition grow_sequence :: "addr \<Rightarrow> mapping_sequence \<Rightarrow> mapping_sequence res" where
  "grow_sequence new_end seq =
     (let seq = seq\<lparr>ms_end := new_end\<rparr> in
      if ms_nused seq = 0 then Inl Out_Of_Bounds
      else
        let l = ms_nused seq - 1; prev_mapping_end = me_end (ms_mappings seq l) in
        if \<not> me_is_anon (ms_mappings seq l) then
          if ms_nused seq \<ge> MAPPING_SEQUENCE_MAX_LEN then Inl Out_Of_Bounds
          else Inr ((set_mapping (ms_nused seq)
                \<lparr>me_begin = prev_mapping_end, me_end = new_end, me_prot = 3, me_flags = 0,
                 me_offset = 0, me_is_anon = True, me_caller = 0\<rparr> seq)
                \<lparr>ms_nused := ms_nused seq + 1\<rparr>)
        else Inr (set_mapping l ((ms_mappings seq l)\<lparr>me_end := new_end\<rparr>) seq))"

definition mmap_notify_brk :: "addr \<Rightarrow> alloc_state \<Rightarrow> alloc_state res" where
  "mmap_notify_brk new_curbrk s =
     (let b = brk_mapping_bigalloc s in
      if b = 0 then Inr s
      else
        let old_end = ba_end (bigalloc_at s b); new_end = ROUND_UP new_curbrk PAGE_SIZE in
        if new_end > old_end then
          rbind (adjust_bigalloc_end b new_end s) (\<lambda>s.
            let p = allocator_private (bigalloc_at s b) in
            if p = 0 then Inl Null_Deref
            else rbind (grow_sequence new_end (seqs s p)) (\<lambda>seq.
                   Inr (s\<lparr>seqs := (seqs s)(p := seq)\<rparr>)))
        else if new_end < old_end then
          let p = allocator_private (bigalloc_at s b) in
          if p = 0 then Inl Null_Deref
          else rbind (delete_mapping_sequence_span (seqs s p) new_end (old_end - new_end)) (\<lambda>seq.
                 adjust_bigalloc_end b new_end (s\<lparr>seqs := (seqs s)(p := seq)\<rparr>))
        else Inr s)"

section \<open>The brk allocator\<close>

definition brk_get_info :: "alloc_state \<Rightarrow> addr \<times> nat \<times> nat" where
  "brk_get_info s =
     (let r = bigalloc_at s (brk_bigalloc s) in (ba_begin r, ba_end r - ba_begin r, last_caller s))"

definition current_sbrk :: "alloc_state \<Rightarrow> addr" where
  "current_sbrk s = curbrk s"

definition find_existing_brk_mapping :: "addr \<Rightarrow> alloc_state \<Rightarrow> nat res" where
  "find_existing_brk_mapping cur s =
     rbind (lookup_bigalloc_top_level cur s) (\<lambda>mapping_b.
       if mapping_b \<noteq> 0 then Inr mapping_b
       else rbind (find_mapping_below cur s) (\<lambda>mapping_b.
         if mapping_b = 0 then Inl Abort
         else
           let gap = int cur - int (ba_end (bigalloc_at s mapping_b)) in
           if gap \<ge> 0 \<and> gap < int (biggest_sane s div 2) then
             let next' = next_sib (bigalloc_at s mapping_b) in
             if next' = 0 \<or> ba_begin (bigalloc_at s next') \<ge> cur then Inr mapping_b
             else Inl Abort
           else Inr mapping_b))"

text \<open>\<open>size\<close> is a signed difference; the extension's success is not looked at.\<close>

definition create_brk_bigalloc :: "alloc_state hooks \<Rightarrow> (nat \<Rightarrow> alloc_state \<Rightarrow> addr \<times> alloc_state) \<Rightarrow>
    addr \<Rightarrow> alloc_state \<Rightarrow> alloc_state res" where
  "create_brk_bigalloc hk sbrk cur s =
     rbind (find_existing_brk_mapping cur s) (\<lambda>mapping_b.
       let s = s\<lparr>brk_mapping_bigalloc := mapping_b\<rparr>;
           size_now = (\<lambda>s. int (ba_end (bigalloc_at s (brk_mapping_bigalloc s))) - int cur)
       in rbind (if size_now s < 0 then extend_bigalloc (brk_mapping_bigalloc s) cur s else Inr s) (\<lambda>s.
          rbind (if size_now s = 0
                 then let (ret, s) = sbrk 1 s in
                      if ret = 0 then Inl Abort else mmap_notify_brk (cur + 1) s
                 else Inr s) (\<lambda>s.
          rbind (new_bigalloc hk cur (nat (size_now s)) 0 0 (brk_mapping_bigalloc s) (Some A_brk) s)
            (\<lambda>(b, s). Inr (s\<lparr>brk_bigalloc := b\<rparr>)))))"

definition update_brk :: "addr \<Rightarrow> alloc_state \<Rightarrow> alloc_state res" where
  "update_brk new_curbrk s =
     (if brk_mapping_bigalloc s = 0 then Inr s
      else
        let b = brk_bigalloc s in
        if new_curbrk < ba_end (bigalloc_at s b) then
          rbind (truncate_bigalloc_at_end b new_curbrk s) (mmap_notify_brk new_curbrk)
        else if new_curbrk > ba_end (bigalloc_at s b) then
          rbind (mmap_notify_brk new_curbrk s) (extend_bigalloc b new_curbrk)
        else Inr s)"

definition brk_allocator_init :: "alloc_state hooks \<Rightarrow> (nat \<Rightarrow> alloc_state \<Rightarrow> addr \<times> alloc_state) \<Rightarrow>
    alloc_state \<Rightarrow> alloc_state res" where
  "brk_allocator_init hk sbrk s =
     (if \<not> brk_initialized s \<and> \<not> brk_trying_to_initialize s then
        let (cur, s) = sbrk 0 (s\<lparr>brk_trying_to_initialize := True\<rparr>) in
        rbind (mmap_notify_brk cur s) (\<lambda>s.
        rbind (create_brk_bigalloc hk sbrk cur s) (\<lambda>s.
          Inr (s\<lparr>brk_initialized := True, brk_trying_to_initialize := False\<rparr>)))
      else Inr s)"

definition brk_notify_brk :: "addr \<Rightarrow> nat \<Rightarrow> alloc_state \<Rightarrow> alloc_state res" where
  "brk_notify_brk new_curbrk caller s =
     (if \<not> brk_initialized s then Inr s
      else
        let s = s\<lparr>last_caller := caller\<rparr> in
        if curbrk s < new_curbrk
        then rbind (mmap_notify_brk new_curbrk s) (update_brk new_curbrk)
        else rbind (update_brk new_curbrk s) (mmap_notify_brk new_curbrk))"

definition brk_notify_unindexed_address :: "(nat \<Rightarrow> alloc_state \<Rightarrow> addr \<times> alloc_state) \<Rightarrow> addr \<Rightarrow>
    alloc_state \<Rightarrow> (bool \<times> alloc_state) res" where
  "brk_notify_unindexed_address sbrk mem s =
     (if brk_bigalloc s = 0 then Inr (False, s)
      else
        let old_sbrk = current_sbrk s; (new_sbrk, s) = sbrk 0 s in
        rbind (update_brk new_sbrk s) (\<lambda>s. Inr (mem \<ge> old_sbrk \<and> mem < new_sbrk, s)))"

definition mmap_notify_unindexed_address :: "(nat \<Rightarrow> alloc_state \<Rightarrow> addr \<times> alloc_state) \<Rightarrow> addr \<Rightarrow>
    alloc_state \<Rightarrow> (bool \<times> alloc_state) res" where
  "mmap_notify_unindexed_address sbrk mem s =
     (if \<not> mmap_initialized s then Inr (False, s) else brk_notify_unindexed_address sbrk mem s)"

section \<open>The stack allocator\<close>

text \<open>The limits come from \<open>getrlimit\<close>; \<open>RLIM_INFINITY\<close> is -1 as an unsigned word.\<close>

definition RLIM_INFINITY :: nat where
  "RLIM_INFINITY = 2 ^ 64 - 1"

definition stack_allocator_init :: "(nat \<times> nat) option \<Rightarrow> alloc_state \<Rightarrow> alloc_state res" where
  "stack_allocator_init rlimit s =
     (if stack_initialized s then Inr s
      else case rlimit of
          None \<Rightarrow> Inl Abort
        | Some (c, m) \<Rightarrow> Inr (s\<lparr>stack_lim_cur := c, stack_lim_max := m, stack_initialized := True\<rparr>))"

definition guess_sane_max_stack_size :: "alloc_state \<Rightarrow> nat" where
  "guess_sane_max_stack_size s =
     (if stack_lim_cur s = RLIM_INFINITY \<and> stack_lim_max s = RLIM_INFINITY then 16 * 1024 * 1024
      else if stack_lim_cur s = RLIM_INFINITY then stack_lim_max s
      else stack_lim_cur s)"

definition guess_sane_max_stack_delta :: "alloc_state \<Rightarrow> nat" where
  "guess_sane_max_stack_delta s =
     (if stack_lim_cur s = RLIM_INFINITY \<and> stack_lim_max s = RLIM_INFINITY then 256 * 1024
      else guess_sane_max_stack_size s)"

definition stack_notify_init_stack_region :: "alloc_state hooks \<Rightarrow> addr \<Rightarrow> addr \<Rightarrow> alloc_state \<Rightarrow>
    alloc_state res" where
  "stack_notify_init_stack_region hk begin' end' s =
     rbind (new_bigalloc hk begin' (end' - begin') 0 0 0 (Some A_stack) s) (\<lambda>(b, s).
       let s = s\<lparr>initial_stack_bigalloc := b\<rparr>; p = parent (bigalloc_at s b) in
       if b = 0 then Inl Abort
       else if p = 0 \<or> allocated_by (bigalloc_at s p) \<noteq> Some A_auxv then Inl Abort
       else Inr (upd b (\<lambda>r. r\<lparr>suballocator := Some A_stackframe\<rparr>) s))"

definition stack_claims :: "addr \<Rightarrow> nat \<Rightarrow> alloc_state \<Rightarrow> bool" where
  "stack_claims ptr b s \<longleftrightarrow>
     (let diff_from_lowest = int (ba_begin (bigalloc_at s b)) - int ptr;
          diff_from_highest = int (ba_end (bigalloc_at s b)) - int ptr
      in (diff_from_lowest > 0 \<and> diff_from_lowest < int (guess_sane_max_stack_delta s) \<or>
          diff_from_highest > 0 \<and> diff_from_highest < int (guess_sane_max_stack_size s)) \<and>
         is_unindexed s (ROUND_UP ptr PAGE_SIZE) (ba_begin (bigalloc_at s b)))"

text \<open>
  The walk over the stacks, linked through their private data (which the code that
  is there leaves null).
\<close>

fun stack_notify_walk :: "nat \<Rightarrow> addr \<Rightarrow> nat \<Rightarrow> alloc_state \<Rightarrow> (bool \<times> alloc_state) res" where
  "stack_notify_walk fuel ptr b s =
     (if b = 0 then Inr (False, s)
      else if fuel = 0 then Inl Out_Of_Fuel
      else if stack_claims ptr b s then
        rbind (pre_extend_bigalloc_recursive NBIGALLOCS b (ROUND_DOWN ptr PAGE_SIZE) s) (\<lambda>s. Inr (True, s))
      else stack_notify_walk (fuel - 1) ptr (allocator_private (bigalloc_at s b)) s)"

declare stack_notify_walk.simps [simp del]

definition stack_notify_unindexed_address :: "addr \<Rightarrow> alloc_state \<Rightarrow> (bool \<times> alloc_state) res" where
  "stack_notify_unindexed_address ptr s = stack_notify_walk NBIGALLOCS ptr (initial_stack_bigalloc s) s"

section \<open>The handlers\<close>

text \<open>
  The handlers the page index calls, closing the circle between the components.
  The return address recorded as the caller of an early probe and the start-up code
  of the mmap allocator (which reads \<open>/proc\<close>) are parameters.
\<close>

definition model_hooks :: "(nat \<Rightarrow> alloc_state \<Rightarrow> addr \<times> alloc_state) \<Rightarrow> nat \<Rightarrow>
    (alloc_state \<Rightarrow> alloc_state res) \<Rightarrow> alloc_state hooks" where
  "model_hooks sbrk ra mmap_init =
     \<lparr>h_stack_notify_unindexed = stack_notify_unindexed_address,
      h_mmap_notify_unindexed = mmap_notify_unindexed_address sbrk,
      h_brk_notify = (\<lambda>s. let (b, s) = sbrk 0 s in brk_notify_brk b ra s),
      h_mmap_init = mmap_init\<rparr>"

end
