(* ===== verification/Mmap.thy ===== *)
theory Mmap
  imports Brk_Stack
begin

text \<open>
  The mmap and auxv allocators: the operations of \<open>src/allocators/mmap.c\<close> that turn
  mapping system calls, and the lines of \<open>/proc/<pid>/maps\<close>, into big allocations with
  their mapping sequences, and the carving of the initial stack mapping in
  \<open>src/allocators/auxv.c\<close>.  What the code takes from outside is the record
  \<open>env\<close>: the private malloc, librunt's view of the loaded objects and of the initial
  stack, and the reading of a link under \<open>/proc\<close>.
\<close>

section \<open>Environment\<close>

text \<open>
  The parts of the initial stack that librunt finds: the bounds are those of the
  first and the last element, as the code's variables have them.
\<close>

record auxv_layout =
  auxv_array_start :: addr
  auxv_array_terminator :: addr
  argv_vector_start :: addr
  argv_vector_terminator :: addr
  env_vector_start :: addr
  env_vector_terminator :: addr
  auxv_asciiz_start :: addr
  auxv_asciiz_end :: addr
  auxv_program_argcountp :: addr
  program_entry_point :: addr

record env =
  e_hooks :: "alloc_state hooks"
  e_malloc :: "alloc_state \<Rightarrow> addr"
  e_object_below :: "nat \<Rightarrow> nat"
  e_readlink :: "nat \<Rightarrow> string"
  e_auxv :: auxv_layout

definition filename_for_fd :: "env \<Rightarrow> int \<Rightarrow> string option" where
  "filename_for_fd E fd = (if fd = -1 then None else Some (e_readlink E (nat fd)))"

text \<open>The number that stands for the function \<open>__private_nommap_free\<close>.\<close>

definition private_nommap_free :: nat where
  "private_nommap_free = 1"

section \<open>The auxv allocator\<close>

text \<open>
  The four areas of the initial stack, in the order the code tests them.  Its
  bounds are inclusive; \<open>Elf64_auxv_t\<close> has 16 bytes and a pointer 8.
\<close>

datatype auxv_area = Auxv_Array | Argv_Vector | Env_Vector | Asciiz | Argc

definition auxv_get_info :: "auxv_layout \<Rightarrow> addr \<Rightarrow> (auxv_area \<times> addr \<times> nat \<times> addr) option" where
  "auxv_get_info L obj =
     (if auxv_array_start L \<le> obj \<and> obj \<le> auxv_array_terminator L
      then Some (Auxv_Array, auxv_array_start L,
             ((auxv_array_terminator L - auxv_array_start L) div 16 + 1) * 16, program_entry_point L)
      else if argv_vector_start L \<le> obj \<and> obj \<le> argv_vector_terminator L
      then Some (Argv_Vector, argv_vector_start L,
             ((argv_vector_terminator L - argv_vector_start L) div 8 + 1) * 8, program_entry_point L)
      else if env_vector_start L \<le> obj \<and> obj \<le> env_vector_terminator L
      then Some (Env_Vector, env_vector_start L,
             ((env_vector_terminator L - env_vector_start L) div 8 + 1) * 8, program_entry_point L)
      else if auxv_asciiz_start L \<le> obj \<and> obj \<le> auxv_asciiz_end L
      then Some (Asciiz, auxv_asciiz_start L, auxv_asciiz_end L - auxv_asciiz_start L, program_entry_point L)
      else if auxv_program_argcountp L \<le> obj \<and> obj \<le> auxv_program_argcountp L + 8
      then Some (Argc, auxv_program_argcountp L, 8, program_entry_point L)
      else None)"

definition auxv_adjust :: "auxv_layout \<Rightarrow> addr \<Rightarrow> alloc_state \<Rightarrow> alloc_state res" where
  "auxv_adjust L begin' s =
     (let our = auxv_bigalloc s;
          s = (if ba_begin (bigalloc_at s our) > begin' then upd our (\<lambda>r. r\<lparr>ba_begin := begin'\<rparr>) s else s)
      in if auxv_asciiz_end L > ba_end (bigalloc_at s our) then
           let new_end = ROUND_UP (auxv_asciiz_end L) PAGE_SIZE;
               pi = pageindex s (PAGENUM (auxv_asciiz_end L))
           in rbind (if pi \<noteq> 0 then truncate_bigalloc_at_beginning pi new_end s else Inr s)
                (extend_bigalloc our new_end)
         else Inr s)"

definition auxv_notify_init_stack_mapping_sequence :: "env \<Rightarrow> nat \<Rightarrow> alloc_state \<Rightarrow> alloc_state res" where
  "auxv_notify_init_stack_mapping_sequence E b s =
     (let L = e_auxv E in
      if auxv_program_argcountp L = 0 then Inl Abort
      else
        let begin' = ba_begin (bigalloc_at s b); end' = ba_end (bigalloc_at s b) in
        if auxv_bigalloc s \<noteq> 0 then auxv_adjust L begin' s
        else
          let s = s\<lparr>top_of_initial_stack := end'\<rparr> in
          rbind (new_bigalloc (e_hooks E) begin' (end' - begin') 0 0 0 (Some A_auxv) s) (\<lambda>(our, s).
            let s = s\<lparr>auxv_bigalloc := our\<rparr> in
            if our = 0 then Inl Abort
            else rbind (stack_notify_init_stack_region (e_hooks E) begin' (auxv_program_argcountp L) s) (\<lambda>s.
                   Inr (upd our (\<lambda>r. r\<lparr>suballocator := None\<rparr>) s))))"

section \<open>Creating the big allocation of a sequence\<close>

definition add_bigalloc :: "env \<Rightarrow> addr \<Rightarrow> nat \<Rightarrow> alloc_state \<Rightarrow> (nat \<times> alloc_state) res" where
  "add_bigalloc E begin' sz s =
     rbind (new_bigalloc (e_hooks E) begin' sz 0 0 0 (Some A_mmap) s) (\<lambda>(b, s).
       if b = 0 then Inl Abort else Inr (b, s))"

definition add_mapping_sequence_bigalloc_with_seq :: "env \<Rightarrow> nat \<Rightarrow> nat \<Rightarrow> alloc_state \<Rightarrow>
    (nat \<times> alloc_state) res" where
  "add_mapping_sequence_bigalloc_with_seq E p free_fn s =
     rbind (add_bigalloc E (ms_begin (seqs s p)) (ms_end (seqs s p) - ms_begin (seqs s p)) s) (\<lambda>(b, s).
       Inr (b, upd b (\<lambda>r. r\<lparr>allocator_private := p, allocator_private_free := free_fn\<rparr>) s))"

definition add_mapping_sequence_bigalloc_copying_seq :: "env \<Rightarrow> mapping_sequence \<Rightarrow> alloc_state \<Rightarrow>
    (nat \<times> alloc_state) res" where
  "add_mapping_sequence_bigalloc_copying_seq E seq s =
     rbind (add_bigalloc E (ms_begin seq) (ms_end seq - ms_begin seq) s) (\<lambda>(b, s).
       let p = e_malloc E s in
       if p = 0 then Inl Null_Deref
       else Inr (b, upd b (\<lambda>r. r\<lparr>allocator_private := p, allocator_private_free := private_nommap_free\<rparr>)
                      (s\<lparr>seqs := (seqs s)(p := seq)\<rparr>)))"

section \<open>Reconciling a sequence with what is there\<close>

text \<open>What \<open>add_mapping_sequence_bigalloc_if_absent\<close> decides: its labels and returns.\<close>

datatype decision =
    Finished alloc_state
  | Go_Ahead mapping_sequence alloc_state
  | Report_Problem "nat option"

text \<open>The top-level allocation that covers the page of an address.\<close>

definition toplevel_at :: "addr \<Rightarrow> alloc_state \<Rightarrow> nat res" where
  "toplevel_at a s = root_of NBIGALLOCS s (pageindex s (PAGENUM a))"

definition absent_at_begin :: "mapping_sequence \<Rightarrow> nat \<Rightarrow> alloc_state \<Rightarrow> decision res" where
  "absent_at_begin seq parent_end s =
     (let p = allocator_private (bigalloc_at s parent_end) in
      if p = 0 then Inl Null_Deref
      else
        let existing_seq = seqs s p in
        if mem_range_suffix existing_seq seq then
          if \<not> mapping_sequence_suffix existing_seq seq then Inr (Report_Problem (Some p))
          else
            let n = ms_nused seq - ms_nused existing_seq in
            Inr (Go_Ahead (seq\<lparr>ms_mappings := (\<lambda>j. if n \<le> j \<and> j < ms_nused seq then null_entry
                                                  else ms_mappings seq j),
                               ms_nused := n, ms_end := ms_begin existing_seq\<rparr>) s)
        else if ms_nused seq = 1 \<and> ms_nused existing_seq = 1 then
          rbind (pre_extend_bigalloc parent_end (ms_begin seq) s) (\<lambda>s.
            Inr (Finished (s\<lparr>seqs := (seqs s)
              (p := set_mapping 0 (ms_mappings seq 0) (existing_seq\<lparr>ms_begin := ms_begin seq\<rparr>))\<rparr>)))
        else Inr (Report_Problem (Some p)))"

definition absent_at_end :: "mapping_sequence \<Rightarrow> nat \<Rightarrow> alloc_state \<Rightarrow> decision res" where
  "absent_at_end seq parent_begin s =
     (let p = allocator_private (bigalloc_at s parent_begin) in
      if p = 0 then Inl Null_Deref
      else if mapping_sequence_prefix (seqs s p) seq then
        rbind (extend_bigalloc parent_begin (ms_end seq) s) (\<lambda>s.
          Inr (Finished (s\<lparr>seqs := (seqs s)(p := seq)\<rparr>)))
      else Inr (Report_Problem None))"

definition present_at_both :: "mapping_sequence \<Rightarrow> nat \<Rightarrow> alloc_state \<Rightarrow> decision res" where
  "present_at_both seq parent_begin s =
     (let p = allocator_private (bigalloc_at s parent_begin) in
      if p = 0 then Inl Null_Deref
      else
        let existing_seq = seqs s p in
        if mapping_sequence_suffix existing_seq seq \<and> mapping_sequence_suffix seq existing_seq
        then Inr (Finished s)
        else if mapping_sequence_prefix seq existing_seq then
          let s' = s\<lparr>seqs := (seqs s)(p := seq)\<rparr> in
          if ms_end seq = ms_end existing_seq then Inr (Finished s')
          else rbind (truncate_bigalloc_at_end parent_begin (ms_end seq) s') (\<lambda>s. Inr (Finished s))
        else Inr (Report_Problem (Some p)))"

definition go_ahead :: "env \<Rightarrow> mapping_sequence \<Rightarrow> alloc_state \<Rightarrow> alloc_state res" where
  "go_ahead E seq s =
     rbind (add_mapping_sequence_bigalloc_copying_seq E seq s) (\<lambda>(b, s).
       case ms_filename seq of
         Some f \<Rightarrow> if take 6 f = ''[stack'' then auxv_notify_init_stack_mapping_sequence E b s else Inr s
       | None \<Rightarrow> Inr s)"

definition report_problem :: "env \<Rightarrow> mapping_sequence \<Rightarrow> nat option \<Rightarrow> alloc_state \<Rightarrow> alloc_state res" where
  "report_problem E seq existing s =
     (case existing of
        None \<Rightarrow> Inl Abort
      | Some p \<Rightarrow>
          let existing_seq = seqs s p; d = executable_data_segment_start_addr s in
          if d \<noteq> 0 \<and> d \<ge> ms_begin existing_seq \<and> d < ms_end existing_seq then Inl Abort
          else rbind (delete_all_bigallocs_overlapping_range (ms_begin existing_seq) (ms_end existing_seq) s)
                 (go_ahead E seq))"

text \<open>An empty sequence ends at null, and the page of the byte before is outside the index.\<close>

definition add_mapping_sequence_bigalloc_if_absent :: "env \<Rightarrow> mapping_sequence \<Rightarrow> alloc_state \<Rightarrow>
    alloc_state res" where
  "add_mapping_sequence_bigalloc_if_absent E seq s =
     (if ms_end seq = 0 then Inl Out_Of_Bounds
      else
        rbind (toplevel_at (ms_begin seq) s) (\<lambda>parent_begin.
        rbind (toplevel_at (ms_end seq - 1) s) (\<lambda>parent_end.
          if parent_end \<noteq> 0 \<and> parent_begin \<noteq> 0 \<and> parent_begin = parent_end \<and>
             allocated_by (bigalloc_at s parent_begin) = Some A_auxv
          then Inr s
          else
            rbind
              (if parent_begin = 0 \<and> parent_end = 0 then Inr (Go_Ahead seq s)
               else if parent_begin = 0 then absent_at_begin seq parent_end s
               else if parent_end = 0 then absent_at_end seq parent_begin s
               else if parent_begin = parent_end then present_at_both seq parent_begin s
               else Inr (Report_Problem None))
              (\<lambda>d. case d of
                 Finished s \<Rightarrow> Inr s
               | Go_Ahead seq s \<Rightarrow> go_ahead E seq s
               | Report_Problem existing \<Rightarrow> report_problem E seq existing s))))"

section \<open>Unmapping\<close>

text \<open>
  The loop of \<open>do_munmap\<close>.  Every iteration but one that cuts a hole moves
  \<open>cur\<close> up, and after a hole the pages at \<open>cur\<close> are unmapped, so the
  number of bytes bounds the number of iterations.
\<close>

definition munmap_hole :: "addr \<Rightarrow> nat \<Rightarrow> nat \<Rightarrow> env \<Rightarrow> alloc_state \<Rightarrow> alloc_state res" where
  "munmap_hole a effective_length b E s =
     (let old_end = ba_end (bigalloc_at s b) in
      rbind (split_bigalloc_at_page_boundary b (a + effective_length) s) (\<lambda>(second_half, s).
        if second_half = 0 then Inl Abort
        else
          rbind (truncate_bigalloc_at_end b a s) (\<lambda>s.
            let new_seq = e_malloc E s; orig_seq = allocator_private (bigalloc_at s b) in
            if new_seq = 0 \<or> orig_seq = 0 then Inl Null_Deref
            else
              let s = s\<lparr>seqs := (seqs s)(new_seq := seqs s orig_seq)\<rparr> in
              rbind (delete_mapping_sequence_span (seqs s orig_seq) a (old_end - a)) (\<lambda>sq.
              let s = s\<lparr>seqs := (seqs s)(orig_seq := sq)\<rparr>; bb = ba_begin (bigalloc_at s b) in
              rbind (delete_mapping_sequence_span (seqs s new_seq) bb ((a + effective_length) - bb)) (\<lambda>sq.
                Inr (upd second_half (\<lambda>r. r\<lparr>allocator_private := new_seq\<rparr>)
                       (s\<lparr>seqs := (seqs s)(new_seq := sq)\<rparr>)))))))"

fun munmap_loop :: "nat \<Rightarrow> addr \<Rightarrow> nat \<Rightarrow> addr \<Rightarrow> nat \<Rightarrow> env \<Rightarrow> alloc_state \<Rightarrow> alloc_state res" where
  "munmap_loop fuel a effective_length cur remaining E s =
     (if \<not> cur < a + effective_length then Inr s
      else if fuel = 0 then Inl Out_Of_Fuel
      else
        rbind (lookup_bigalloc_from_root (e_hooks E) cur A_mmap s) (\<lambda>(b, s).
          if b = 0 then munmap_loop (fuel - 1) a effective_length (cur + PAGE_SIZE) (remaining - PAGE_SIZE) E s
          else
            let bb = ba_begin (bigalloc_at s b); be = ba_end (bigalloc_at s b);
                p = allocator_private (bigalloc_at s b)
            in if cur = bb then
                 if cur + remaining \<ge> be then
                   rbind (delete_bigalloc_at (e_hooks E) bb A_mmap s) (\<lambda>(_, s).
                     munmap_loop (fuel - 1) a effective_length be (remaining - (be - cur)) E s)
                 else
                   rbind (truncate_bigalloc_at_beginning b (cur + remaining) s) (\<lambda>s.
                     if p = 0 then Inl Null_Deref
                     else rbind (delete_mapping_sequence_span (seqs s p) cur remaining) (\<lambda>sq.
                            Inr (s\<lparr>seqs := (seqs s)(p := sq)\<rparr>)))
               else if cur + remaining \<ge> be then
                 let amount_removed = be - cur in
                 rbind (truncate_bigalloc_at_end b cur s) (\<lambda>s.
                   if p = 0 then Inl Null_Deref
                   else rbind (delete_mapping_sequence_span (seqs s p) cur amount_removed) (\<lambda>sq.
                     munmap_loop (fuel - 1) a effective_length (cur + amount_removed)
                       (remaining - amount_removed) E (s\<lparr>seqs := (seqs s)(p := sq)\<rparr>)))
               else
                 rbind (munmap_hole a effective_length b E s) (\<lambda>s.
                   munmap_loop (fuel - 1) a effective_length cur remaining E s)))"

declare munmap_loop.simps [simp del]

definition do_munmap :: "env \<Rightarrow> addr \<Rightarrow> nat \<Rightarrow> alloc_state \<Rightarrow> alloc_state res" where
  "do_munmap E a requested_length s =
     (let effective_length = ROUND_UP requested_length PAGE_SIZE
      in munmap_loop (effective_length + 1) a effective_length a effective_length E s)"

definition notify_munmap :: "env \<Rightarrow> addr \<Rightarrow> nat \<Rightarrow> alloc_state \<Rightarrow> alloc_state res" where
  "notify_munmap E a len s = do_munmap E a len s"

section \<open>Mapping\<close>

definition MAP_FIXED :: nat where
  "MAP_FIXED = 16"

definition has_flag :: "nat \<Rightarrow> nat \<Rightarrow> bool" where
  "has_flag flags f \<longleftrightarrow> flags div f mod 2 = 1"

text \<open>The existing allocation that a mapping may extend: the one before it, or the one it lies in.\<close>

definition find_extendable :: "env \<Rightarrow> addr \<Rightarrow> nat \<Rightarrow> alloc_state \<Rightarrow> (nat \<times> alloc_state) res" where
  "find_extendable E mapped_addr mapped_length s =
     rbind (lookup_bigalloc_from_root (e_hooks E) (mapped_addr - 1) A_mmap s) (\<lambda>(before, s).
       if before \<noteq> 0 then Inr (before, s)
       else
         rbind (lookup_bigalloc_from_root (e_hooks E) mapped_addr A_mmap s) (\<lambda>(overlap_begin, s).
         rbind (lookup_bigalloc_from_root (e_hooks E) (mapped_addr + mapped_length - 1) A_mmap s)
           (\<lambda>(overlap_end, s).
              Inr (if overlap_begin \<noteq> 0 \<and> (overlap_end = 0 \<or> overlap_begin = overlap_end)
                   then overlap_begin else 0, s))))"

text \<open>Augment the sequence stored at \<open>p\<close>; a null pointer is no sequence.\<close>

definition augment_at :: "env \<Rightarrow> nat \<Rightarrow> addr \<Rightarrow> addr \<Rightarrow> nat \<Rightarrow> nat \<Rightarrow> int \<Rightarrow> string option \<Rightarrow> nat \<Rightarrow>
    alloc_state \<Rightarrow> (bool \<times> alloc_state) res" where
  "augment_at E p begin' end' prot flags offset filename caller s =
     rbind (augment_sequence (e_object_below E) (if p = 0 then None else Some (seqs s p))
              begin' end' prot flags offset filename caller) (\<lambda>(ok, sq).
       case sq of
         None \<Rightarrow> Inr (ok, s)
       | Some sq \<Rightarrow> Inr (ok, s\<lparr>seqs := (seqs s)(p := sq)\<rparr>))"

definition map_fresh :: "env \<Rightarrow> addr \<Rightarrow> nat \<Rightarrow> nat \<Rightarrow> nat \<Rightarrow> string option \<Rightarrow> int \<Rightarrow> nat \<Rightarrow> alloc_state \<Rightarrow>
    alloc_state res" where
  "map_fresh E mapped_addr mapped_length prot flags filename offset caller s =
     (let p = e_malloc E s;
          s = (if p = 0 then s else s\<lparr>seqs := (seqs s)(p := empty_sequence)\<rparr>)
      in rbind (augment_at E p mapped_addr (mapped_addr + mapped_length) prot flags offset filename caller s)
           (\<lambda>(ok, s).
              if \<not> ok then Inl Abort
              else rbind (add_mapping_sequence_bigalloc_with_seq E p private_nommap_free s) (\<lambda>(b, s). Inr s)))"

definition do_mmap :: "env \<Rightarrow> addr \<Rightarrow> nat \<Rightarrow> nat \<Rightarrow> nat \<Rightarrow> string option \<Rightarrow> int \<Rightarrow> nat \<Rightarrow> alloc_state \<Rightarrow>
    alloc_state res" where
  "do_mmap E mapped_addr requested_length prot flags filename offset caller s =
     (if mapped_addr = 0 then Inl Abort
      else
        let mapped_length = ROUND_UP requested_length PAGE_SIZE;
            saw_overlap = (\<exists>i \<in> set [0..<mapped_length div 2 ^ 12]. pageindex s (mapped_addr div 2 ^ 12 + i) \<noteq> 0)
        in if saw_overlap \<and> \<not> has_flag flags MAP_FIXED then Inl Abort
           else
             rbind (find_extendable E mapped_addr mapped_length s) (\<lambda>(before, s).
               if before \<noteq> 0 then
                 rbind (augment_at E (allocator_private (bigalloc_at s before)) mapped_addr
                          (mapped_addr + mapped_length) prot flags offset filename caller s) (\<lambda>(ok, s).
                   if ok then
                     if mapped_addr + mapped_length > ba_end (bigalloc_at s before)
                     then extend_bigalloc before (mapped_addr + mapped_length) s
                     else Inr s
                   else map_fresh E mapped_addr mapped_length prot flags filename offset caller s)
               else map_fresh E mapped_addr mapped_length prot flags filename offset caller s))"

definition notify_mmap :: "env \<Rightarrow> addr \<Rightarrow> nat \<Rightarrow> nat \<Rightarrow> nat \<Rightarrow> int \<Rightarrow> int \<Rightarrow> nat \<Rightarrow> alloc_state \<Rightarrow>
    alloc_state res" where
  "notify_mmap E mapped_addr len prot flags fd offset caller s =
     do_mmap E mapped_addr len prot flags (filename_for_fd E fd) offset caller s"

section \<open>Remapping\<close>

definition MREMAP_DONTUNMAP :: nat where
  "MREMAP_DONTUNMAP = 4"

text \<open>
  The loop over the entries of the old sequence, which is read afresh at every
  step: the new mappings may be added to it.
\<close>

fun remap_entries :: "nat \<Rightarrow> env \<Rightarrow> nat \<Rightarrow> addr \<Rightarrow> addr \<Rightarrow> nat \<Rightarrow> nat \<Rightarrow> nat \<Rightarrow> alloc_state \<Rightarrow>
    (nat \<times> alloc_state) res" where
  "remap_entries 0 E p mapped_addr old_addr old_size caller i s = Inl Out_Of_Bounds"
| "remap_entries (Suc n) E p mapped_addr old_addr old_size caller i s =
     (if i = ms_nused (seqs s p) then Inr (i, s)
      else if i \<ge> MAPPING_SEQUENCE_MAX_LEN then Inl Out_Of_Bounds
      else
        let ent = ms_mappings (seqs s p) i;
            overlap_begin = max (me_begin ent) old_addr;
            overlap_end = min (me_end ent) (old_addr + old_size)
        in rbind
             (if overlap_begin < overlap_end then
                do_mmap E (overlap_begin - old_addr + mapped_addr) (overlap_end - overlap_begin)
                  (me_prot ent) (me_flags ent) (ms_filename (seqs s p))
                  (me_offset ent + (int overlap_begin - int (me_begin ent))) caller s
              else Inr s)
             (remap_entries n E p mapped_addr old_addr old_size caller (i + 1)))"

text \<open>
  After the loop \<open>ent\<close> points one past the last entry in use, and with a full array
  past its end.
\<close>

definition mremap_move :: "env \<Rightarrow> nat \<Rightarrow> addr \<Rightarrow> addr \<Rightarrow> nat \<Rightarrow> nat \<Rightarrow> nat \<Rightarrow> nat \<Rightarrow> alloc_state \<Rightarrow>
    alloc_state res" where
  "mremap_move E p mapped_addr old_addr old_size new_size mremap_flags caller s =
     rbind (remap_entries (MAPPING_SEQUENCE_MAX_LEN + 1) E p mapped_addr old_addr old_size caller 0 s) (\<lambda>(i, s).
     rbind (if new_size > old_size then
              if i \<ge> MAPPING_SEQUENCE_MAX_LEN then Inl Out_Of_Bounds
              else
                let ent = ms_mappings (seqs s p) i in
                do_mmap E (mapped_addr + old_size) (new_size - old_size) (me_prot ent) (me_flags ent)
                  (ms_filename (seqs s p))
                  (me_offset ent + (int old_addr + int old_size - int (me_begin ent))) caller s
            else Inr s) (\<lambda>s.
       if has_flag mremap_flags MREMAP_DONTUNMAP then Inr s else do_munmap E old_addr old_size s))"

definition mremap_cases :: "env \<Rightarrow> nat \<Rightarrow> addr \<Rightarrow> addr \<Rightarrow> nat \<Rightarrow> nat \<Rightarrow> nat \<Rightarrow> nat \<Rightarrow> alloc_state \<Rightarrow>
    alloc_state res" where
  "mremap_cases E p mapped_addr old_addr old_size new_size mremap_flags caller s =
     (let seq = seqs s p; ent = find_entry old_addr seq in
      if ms_end seq < old_addr + old_size then Inl Abort
      else if mapped_addr = old_addr \<and> new_size = old_size then Inr s
      else if mapped_addr = old_addr \<and> new_size < old_size then
        (case ent of
           None \<Rightarrow> Inl Abort
         | Some _ \<Rightarrow> do_munmap E (old_addr + new_size) (old_size - new_size) s)
      else if mapped_addr = old_addr \<and> old_size > 0 \<and> new_size > old_size then
        (case ent of
           None \<Rightarrow> Inl Abort
         | Some i \<Rightarrow>
             let e = ms_mappings seq i in
             do_mmap E (old_addr + old_size) (new_size - old_size) (me_prot e) (me_flags e) (ms_filename seq)
               (me_offset e + (int old_addr - int (me_begin e)) + int old_size) caller s)
      else if mapped_addr = old_addr \<and> old_size = 0 then Inl Abort
      else if mapped_addr \<noteq> old_addr \<and> old_size \<noteq> 0 then
        mremap_move E p mapped_addr old_addr old_size new_size mremap_flags caller s
      else
        (case ent of
           None \<Rightarrow> Inl Abort
         | Some i \<Rightarrow>
             let e = ms_mappings seq i in
             do_mmap E mapped_addr new_size (me_prot e) (me_flags e) (ms_filename seq)
               (me_offset e + (int old_addr - int (me_begin e))) caller s))"

definition notify_mremap :: "env \<Rightarrow> addr \<Rightarrow> addr \<Rightarrow> nat \<Rightarrow> nat \<Rightarrow> nat \<Rightarrow> nat \<Rightarrow> alloc_state \<Rightarrow>
    alloc_state res" where
  "notify_mremap E mapped_addr old_addr old_size_as_passed new_size mremap_flags caller s =
     (let old_size = ROUND_UP old_size_as_passed PAGE_SIZE in
      rbind (lookup_bigalloc_from_root (e_hooks E) old_addr A_mmap s) (\<lambda>(before, s).
      rbind (if before \<noteq> 0 then Inr (before, s)
             else rbind (notify_mmap E old_addr old_size 0 0 (-1) 0 0 s) (\<lambda>s.
                  rbind (lookup_bigalloc_from_root (e_hooks E) old_addr A_mmap s) (\<lambda>(before, s).
                    if before = 0 then Inl Abort else Inr (before, s)))) (\<lambda>(before, s).
        let p = allocator_private (bigalloc_at s before) in
        if p = 0 then Inl Abort
        else mremap_cases E p mapped_addr old_addr old_size new_size mremap_flags caller s)))"

section \<open>The mappings that were there before\<close>

definition add_missing_cb :: "env \<Rightarrow> addr \<Rightarrow> maps_entry \<Rightarrow> mapping_sequence \<times> alloc_state \<Rightarrow>
    (mapping_sequence \<times> alloc_state) res" where
  "add_missing_cb E end_addr ent st =
     (let (cur, s) = st; sz = mp_second ent - mp_first ent in
      if sz > biggest_sane s then Inr st
      else if sz = 0 \<or> mp_first ent \<ge> 2 ^ 63 then Inr st
      else if take 5 (mp_rest ent) = ''[heap'' \<and> \<not> mp_first ent < end_addr then Inr st
      else
        let ent = (if take 5 (mp_rest ent) = ''[heap''
                   then ent\<lparr>mp_rest := '''', mp_second := end_addr\<rparr> else ent)
        in rbind (extend_current (e_object_below E) cur ent) (\<lambda>(extended, cur).
             if extended then Inr (cur, s)
             else
               rbind (add_mapping_sequence_bigalloc_if_absent E cur s) (\<lambda>s.
               rbind (extend_current (e_object_below E) empty_sequence ent) (\<lambda>(began_new, cur).
                 if \<not> began_new then Inl Abort else Inr (cur, s)))))"

fun add_missing_lines :: "env \<Rightarrow> addr \<Rightarrow> maps_entry list \<Rightarrow> mapping_sequence \<times> alloc_state \<Rightarrow>
    (mapping_sequence \<times> alloc_state) res" where
  "add_missing_lines E end_addr [] st = Inr st"
| "add_missing_lines E end_addr (ent # ents) st =
     rbind (add_missing_cb E end_addr ent st) (add_missing_lines E end_addr ents)"

definition add_missing_mappings_from_proc :: "env \<Rightarrow> addr \<Rightarrow> maps_entry list \<Rightarrow> alloc_state \<Rightarrow>
    alloc_state res" where
  "add_missing_mappings_from_proc E end_addr ents s =
     rbind (add_missing_lines E end_addr ents (empty_sequence, s)) (\<lambda>(cur, s).
       if ms_nused cur > 0 then add_mapping_sequence_bigalloc_if_absent E cur s else Inr s)"

section \<open>The bounds of the executable\<close>

text \<open>
  The two loops over the program headers in \<open>__mmap_allocator_init\<close>.  A header has
  56 bytes; \<open>PT_LOAD\<close> is 1, \<open>PT_PHDR\<close> 6, \<open>PF_X\<close> 1.  The holes between
  segments, which the code maps with no access, are collected in a list.
\<close>

record phdr =
  p_type :: nat
  p_vaddr :: addr
  p_memsz :: nat
  p_flags :: nat

fun executable_load_addr :: "addr \<Rightarrow> phdr list \<Rightarrow> addr" where
  "executable_load_addr at_phdr [] = 0"
| "executable_load_addr at_phdr (ph # phs) =
     (if p_type ph = 6 then at_phdr - p_vaddr ph else executable_load_addr (at_phdr + 56) phs)"

record segment_scan =
  biggest_start_seen :: addr
  biggest_end_seen :: addr
  last_seen_end :: "addr option"
  holes :: "(addr \<times> nat) list"
  data_segment_start :: addr

definition scan_segment :: "addr \<Rightarrow> phdr \<Rightarrow> segment_scan \<Rightarrow> segment_scan" where
  "scan_segment load_addr ph sc =
     (if p_type ph \<noteq> 1 then sc
      else
        let end' = ROUND_UP (load_addr + p_vaddr ph + p_memsz ph) PAGE_SIZE;
            sc = (if end' > biggest_end_seen sc
                  then sc\<lparr>biggest_end_seen := end', biggest_start_seen := load_addr + p_vaddr ph\<rparr> else sc);
            base = ROUND_DOWN (p_vaddr ph) PAGE_SIZE;
            sc = (case last_seen_end sc of
                    None \<Rightarrow> sc
                  | Some l \<Rightarrow> if base \<noteq> l then sc\<lparr>holes := holes sc @ [(load_addr + l, base - l)]\<rparr> else sc);
            sc = sc\<lparr>last_seen_end := Some (ROUND_UP (p_vaddr ph + p_memsz ph) PAGE_SIZE)\<rparr>
        in if \<not> has_flag (p_flags ph) 1 \<and> load_addr + p_vaddr ph > data_segment_start sc
           then sc\<lparr>data_segment_start := load_addr + p_vaddr ph\<rparr> else sc)"

definition scan_segments :: "addr \<Rightarrow> phdr list \<Rightarrow> segment_scan" where
  "scan_segments at_phdr phs =
     (let load_addr = executable_load_addr at_phdr phs
      in fold (scan_segment load_addr) phs
           \<lparr>biggest_start_seen = 0, biggest_end_seen = 0, last_seen_end = None, holes = [],
            data_segment_start = 0\<rparr>)"

section \<open>Queries\<close>

definition mmap_get_info :: "nat \<Rightarrow> alloc_state \<Rightarrow> (addr \<times> nat \<times> nat) res" where
  "mmap_get_info b s =
     (let r = bigalloc_at s b; p = allocator_private r in
      if p = 0 then Inl Null_Deref
      else Inr (ba_begin r, ba_end r - ba_begin r, me_caller (ms_mappings (seqs s p) 0)))"

end
