(* ===== verification/Mapping_Seq_Correct.thy ===== *)
theory Mapping_Seq_Correct
  imports Mapping_Seq
begin

text \<open>
  Correctness of the operations on mapping sequences: the array operations as list
  operations, contiguity, and what each address maps to before and after.
\<close>

section \<open>Sequences as lists\<close>

definition seq_entries :: "mapping_sequence \<Rightarrow> mapping_entry list" where
  "seq_entries s = map (ms_mappings s) [0..<ms_nused s]"

lemma length_entries [simp]: "length (seq_entries s) = ms_nused s"
  by (simp add: seq_entries_def)

lemma entries_update [simp]:
  "seq_entries (s\<lparr>ms_begin := b\<rparr>) = seq_entries s" "seq_entries (s\<lparr>ms_end := b\<rparr>) = seq_entries s"
  by (simp_all add: seq_entries_def)

lemma nth_entries [simp]: "i < ms_nused s \<Longrightarrow> seq_entries s ! i = ms_mappings s i"
  by (simp add: seq_entries_def)

text \<open>\<open>contig lo es hi\<close>: the entries are non-empty and cover \<open>lo\<close> to \<open>hi\<close> without gaps.\<close>

fun contig :: "addr \<Rightarrow> mapping_entry list \<Rightarrow> addr \<Rightarrow> bool" where
  "contig lo [] hi = (lo = hi)"
| "contig lo (e # es) hi = (me_begin e = lo \<and> lo < me_end e \<and> contig (me_end e) es hi)"

lemma contig_append: "contig lo (xs @ ys) hi \<longleftrightarrow> (\<exists>m. contig lo xs m \<and> contig m ys hi)"
  by (induction xs arbitrary: lo) auto

lemma contig_le: "contig lo es hi \<Longrightarrow> lo \<le> hi"
  by (induction es arbitrary: lo) fastforce+

lemma contig_bounds: "contig lo es hi \<Longrightarrow> e \<in> set es \<Longrightarrow> lo \<le> me_begin e \<and> me_begin e < me_end e \<and> me_end e \<le> hi"
proof (induction es arbitrary: lo)
  case (Cons x es)
  show ?case
  proof (cases "e = x")
    case True
    then show ?thesis using Cons.prems(1) contig_le [of "me_end x" es hi] by auto
  next
    case False
    then show ?thesis using Cons.IH [of "me_end x"] Cons.prems by auto
  qed
qed simp

lemma contig_covers: "contig lo es hi \<Longrightarrow> lo \<le> a \<Longrightarrow> a < hi \<Longrightarrow> \<exists>e\<in>set es. me_begin e \<le> a \<and> a < me_end e"
proof (induction es arbitrary: lo)
  case (Cons x es)
  then show ?case using Cons.IH [of "me_end x"] by (cases "a < me_end x") auto
qed simp

definition seq_ok :: "mapping_sequence \<Rightarrow> bool" where
  "seq_ok s \<longleftrightarrow> 0 < ms_nused s \<and> ms_nused s \<le> MAPPING_SEQUENCE_MAX_LEN \<and> 0 < ms_begin s \<and>
     contig (ms_begin s) (seq_entries s) (ms_end s)"

lemma contig_nth:
  assumes "contig lo es hi" "i < length es"
  shows "me_begin (es ! i) < me_end (es ! i)" "i = 0 \<Longrightarrow> me_begin (es ! i) = lo"
    "0 < i \<Longrightarrow> me_end (es ! (i - 1)) = me_begin (es ! i)" "i = length es - 1 \<Longrightarrow> me_end (es ! i) = hi"
  using assms
proof (induction es arbitrary: lo i)
  case (Cons e es)
  { case 1 then show ?case using Cons.IH(1) by (cases i) auto }
  { case 2 then show ?case by auto }
  { case 3 then show ?case 
      using Cons.IH(2) [of 0 "me_end e"] Cons.IH(3) [of "i - 1" "me_end e"] by (cases i; cases "i - 1") auto }
  { case 4 then show ?case 
      using Cons.IH(4) [of "length es - 1" "me_end e"] by (cases es) auto }
qed simp_all

lemma seq_ok_lt: "seq_ok s \<Longrightarrow> ms_begin s < ms_end s"
  using contig_bounds [of "ms_begin s" "seq_entries s" "ms_end s" "seq_entries s ! 0"] nth_mem [of 0 "seq_entries s"]
  by (auto simp: seq_ok_def)

lemma seq_ok_sane: "seq_ok s \<Longrightarrow> check_mapping_sequence_sanity s"
proof -
  assume s: "seq_ok s"
  then have c: "contig (ms_begin s) (seq_entries s) (ms_end s)" "0 < ms_nused s" "0 < ms_begin s"
    by (auto simp: seq_ok_def)
  note n = contig_nth [OF c(1)]
  have e: "me_begin (ms_mappings s i) \<noteq> 0 \<and> me_end (ms_mappings s i) \<noteq> 0 \<and>
      me_begin (ms_mappings s i) < me_end (ms_mappings s i) \<and>
      (0 < i \<longrightarrow> me_end (ms_mappings s (i - 1)) = me_begin (ms_mappings s i))" if i: "i < ms_nused s" for i
    using contig_bounds [OF c(1), of "seq_entries s ! i"] i c(3) nth_mem [of i "seq_entries s"]
      n(1) [of i] n(3) [of i] by simp
  have "ms_begin s = me_begin (ms_mappings s 0)" using n(2) [of 0] c(2) by simp
  moreover have "ms_end s = me_end (ms_mappings s (ms_nused s - 1))" using n(4) [of "ms_nused s - 1"] c(2) by simp
  ultimately show ?thesis
    using e by (simp add: check_mapping_sequence_sanity_def list_all_iff)
qed

lemma sane_entry: "check_mapping_sequence_sanity s \<Longrightarrow> i < ms_nused s \<Longrightarrow> me_begin (ms_mappings s i) < me_end (ms_mappings s i)"
  by (auto simp: check_mapping_sequence_sanity_def list_all_iff)

section \<open>The array operations as list operations\<close>

lemma entries_set_mapping: "seq_entries (set_mapping i e s) = (seq_entries s)[i := e]"
  by (auto simp: seq_entries_def set_mapping_def nth_list_update intro!: nth_equalityI)

lemma entries_split:
  assumes "f < ms_nused s"
  shows "seq_entries (split_first f b s) = take f (seq_entries s) @
      [(ms_mappings s f)\<lparr>me_end := b\<rparr>, (ms_mappings s f)\<lparr>me_begin := b\<rparr>] @ drop (f + 1) (seq_entries s)"
    and "seq_entries (split_last f b s) = seq_entries (split_first f b s)"
proof -
  show "seq_entries (split_first f b s) = take f (seq_entries s) @
      [(ms_mappings s f)\<lparr>me_end := b\<rparr>, (ms_mappings s f)\<lparr>me_begin := b\<rparr>] @ drop (f + 1) (seq_entries s)"
  proof (rule nth_equalityI)
    show "length (seq_entries (split_first f b s)) = length (take f (seq_entries s) @
      [(ms_mappings s f)\<lparr>me_end := b\<rparr>, (ms_mappings s f)\<lparr>me_begin := b\<rparr>] @ drop (f + 1) (seq_entries s))"
      using assms by (simp add: split_first_def copy_all_right_from_by_def set_mapping_def)
    fix i assume "i < length (seq_entries (split_first f b s))"
    then have i: "i < ms_nused s + 1"
      by (simp add: split_first_def copy_all_right_from_by_def set_mapping_def)
    consider "i < f" | "i = f" | "i = f + 1" | k where "i = f + 2 + k" "f + 1 + k < ms_nused s"
    proof -
      assume a: "i < f \<Longrightarrow> thesis" "i = f \<Longrightarrow> thesis" "i = f + 1 \<Longrightarrow> thesis"
        "\<And>k. i = f + 2 + k \<Longrightarrow> f + 1 + k < ms_nused s \<Longrightarrow> thesis"
      show thesis using a(1-3) a(4) [of "i - f - 2"] i by linarith
    qed
    then show "seq_entries (split_first f b s) ! i = (take f (seq_entries s) @
      [(ms_mappings s f)\<lparr>me_end := b\<rparr>, (ms_mappings s f)\<lparr>me_begin := b\<rparr>] @ drop (f + 1) (seq_entries s)) ! i"
      by cases (use assms i in \<open>simp_all add: seq_entries_def nth_append split_first_def
        copy_all_right_from_by_def set_mapping_def Let_def del: upt_Suc\<close>)
  qed
  show "seq_entries (split_last f b s) = seq_entries (split_first f b s)"
    by (auto simp: seq_entries_def split_first_def split_last_def copy_all_right_from_by_def
        set_mapping_def Let_def)
qed

lemma entries_copy_left:
  assumes "n \<le> l" "l \<le> ms_nused s"
  shows "seq_entries (copy_all_left_from_by l n s) = take (l - n) (seq_entries s) @ drop l (seq_entries s)"
proof (rule nth_equalityI)
  fix i assume "i < length (seq_entries (copy_all_left_from_by l n s))"
  then have "i < ms_nused s - n" by (simp add: copy_all_left_from_by_def)
  then show "seq_entries (copy_all_left_from_by l n s) ! i =
      (take (l - n) (seq_entries s) @ drop l (seq_entries s)) ! i"
    using assms by (auto simp: seq_entries_def nth_append copy_all_left_from_by_def add.commute)
qed (use assms in \<open>simp add: copy_all_left_from_by_def\<close>)

section \<open>The searches\<close>

lemma scan_upD:
  "scan_up P cur i n = Inr f \<Longrightarrow>
     i \<le> f \<and> f < i + n \<and> P (ms_mappings cur f) \<and> (\<forall>j. i \<le> j \<longrightarrow> j < f \<longrightarrow> \<not> P (ms_mappings cur j))"
proof (induction n arbitrary: i)
  case (Suc n)
  show ?case
  proof (cases "P (ms_mappings cur i)")
    case True
    then show ?thesis using Suc.prems by auto
  next
    case False
    then have "i + 1 \<le> f \<and> f < i + 1 + n \<and> P (ms_mappings cur f) \<and>
        (\<forall>j. i + 1 \<le> j \<longrightarrow> j < f \<longrightarrow> \<not> P (ms_mappings cur j))"
      using Suc.IH [of "i + 1"] Suc.prems by simp
    then show ?thesis using False
      by (metis Suc_eq_plus1 Suc_leI add.commute add.left_commute add_leD1 le_neq_implies_less plus_1_eq_Suc)
  qed
qed simp

lemma scan_downD:
  "scan_down P cur i = Inr l \<Longrightarrow>
     l < i \<and> P (ms_mappings cur l) \<and> (\<forall>j. l < j \<longrightarrow> j < i \<longrightarrow> \<not> P (ms_mappings cur j))"
  by (induction i) (auto simp: less_Suc_eq split: if_splits)

lemma scan_up_ex: "P (ms_mappings cur j) \<Longrightarrow> i \<le> j \<Longrightarrow> j < i + n \<Longrightarrow> \<exists>f. scan_up P cur i n = Inr f"
proof (induction n arbitrary: i)
  case (Suc n)
  then show ?case using Suc.IH [of "i + 1"] by (cases "j = i") auto
qed simp

lemma scan_down_ex: "P (ms_mappings cur j) \<Longrightarrow> j < i \<Longrightarrow> \<exists>l. scan_down P cur i = Inr l"
  by (induction i) (auto simp: less_Suc_eq)

section \<open>Replacing the overlapped entries\<close>

lemma entries_squeeze:
  assumes "f \<le> l" "l < ms_nused c"
  shows "seq_entries (set_mapping f e (if l - f + 1 > 1 then copy_all_left_from_by (l + 1) (l - f + 1 - 1) c else c)) =
    take f (seq_entries c) @ [e] @ drop (l + 1) (seq_entries c)"
proof -
  define c' where "c' = (if l - f + 1 > 1 then copy_all_left_from_by (l + 1) (l - f + 1 - 1) c else c)"
  have "seq_entries c' = take (f + 1) (seq_entries c) @ drop (l + 1) (seq_entries c)"
  proof (cases "f = l")
    case False
    then show ?thesis
      using assms entries_copy_left [of "l - f + 1 - 1" "l + 1" c] unfolding c'_def by simp
  qed (simp add: c'_def)
  moreover have "take (f + 1) (seq_entries c) = take f (seq_entries c) @ [seq_entries c ! f]"
    using assms by (simp add: take_Suc_conv_app_nth)
  ultimately have "seq_entries c' = take f (seq_entries c) @ seq_entries c ! f # drop (l + 1) (seq_entries c)"
    by simp
  then have "seq_entries (set_mapping f e c') = take f (seq_entries c) @ [e] @ drop (l + 1) (seq_entries c)"
    using assms by (simp add: entries_set_mapping list_update_append min_def)
  then show ?thesis unfolding c'_def .
qed

lemma nused_split [simp]:
  "ms_nused (split_first f b s) = ms_nused s + 1" "ms_nused (split_last f b s) = ms_nused s + 1"
  by (simp_all add: split_first_def split_last_def copy_all_right_from_by_def set_mapping_def Let_def)

lemma bounds_split [simp]:
  "ms_begin (split_first f b s) = ms_begin s" "ms_begin (split_last f b s) = ms_begin s"
  "ms_end (split_first f b s) = ms_end s" "ms_end (split_last f b s) = ms_end s"
  by (simp_all add: split_first_def split_last_def copy_all_right_from_by_def set_mapping_def Let_def)

lemma entries_replace_end:
  assumes "f \<le> l" "l < ms_nused c" "c' = (if ep then split_last l (me_end e) c else c)"
  shows "seq_entries (set_mapping f e (if l - f + 1 > 1 then copy_all_left_from_by (l + 1) (l - f + 1 - 1) c' else c')) =
    take f (seq_entries c) @ [e] @ (if ep then [(seq_entries c ! l)\<lparr>me_begin := me_end e\<rparr>] else []) @
    drop (l + 1) (seq_entries c)"
  using assms entries_squeeze [of f l c' e]
  by (simp add: entries_split min_def)

lemma entries_replace:
  assumes "f \<le> l" "l < ms_nused cur"
  shows "seq_entries (replace_overlapped cur f l bp ep e) =
     take f (seq_entries cur) @ (if bp then [(seq_entries cur ! f)\<lparr>me_end := me_begin e\<rparr>] else []) @ [e] @
     (if ep then [(seq_entries cur ! l)\<lparr>me_begin := me_end e\<rparr>] else []) @ drop (l + 1) (seq_entries cur)"
proof (cases bp)
  case False
  then show ?thesis
    using entries_replace_end [OF assms refl, of e ep]
    by (simp only: replace_overlapped_def Let_def if_False prod.case append_Nil simp_thms)
next
  case True
  define c where "c = split_first f (me_begin e) cur"
  have E: "seq_entries c = take f (seq_entries cur) @ [(seq_entries cur ! f)\<lparr>me_end := me_begin e\<rparr>,
      (seq_entries cur ! f)\<lparr>me_begin := me_begin e\<rparr>] @ drop (f + 1) (seq_entries cur)"
    using assms by (simp add: c_def entries_split)
  have "(seq_entries c ! (l + 1))\<lparr>me_begin := me_end e\<rparr> = (seq_entries cur ! l)\<lparr>me_begin := me_end e\<rparr>"
  proof (cases "l = f")
    case False
    then have "l = f + 1 + (l - f - 1)" using assms(1) by simp
    then obtain k where "l = f + 1 + k" by blast
    then show ?thesis using assms unfolding E by (simp add: nth_append)
  qed (use assms in \<open>simp add: E nth_append\<close>)
  moreover have "take (f + 1) (seq_entries c) = take f (seq_entries cur) @ [(seq_entries cur ! f)\<lparr>me_end := me_begin e\<rparr>]"
    "drop (l + 1 + 1) (seq_entries c) = drop (l + 1) (seq_entries cur)"
    using assms unfolding E by (auto simp: min_def Suc_diff_le)
  moreover have "f + 1 \<le> l + 1" "l + 1 < ms_nused c" using assms by (simp_all add: c_def)
  note entries_replace_end [OF this refl, of e ep]
  ultimately show ?thesis
    using True by (simp only: replace_overlapped_def Let_def if_True prod.case c_def [symmetric] append_assoc simp_thms)
qed

section \<open>What an address maps to\<close>

abbreviation covers :: "addr \<Rightarrow> mapping_entry \<Rightarrow> bool" where
  "covers a e \<equiv> me_begin e \<le> a \<and> a < me_end e"

definition attrs :: "mapping_entry \<Rightarrow> nat \<times> nat \<times> bool \<times> nat" where
  "attrs e = (me_prot e, me_flags e, me_is_anon e, me_caller e)"

lemma attrs_update [simp]: "attrs (e\<lparr>me_begin := b\<rparr>) = attrs e" "attrs (e\<lparr>me_end := b\<rparr>) = attrs e"
  by (simp_all add: attrs_def)

definition mapped_attrs :: "addr \<Rightarrow> mapping_sequence \<Rightarrow> (nat \<times> nat \<times> bool \<times> nat) option" where
  "mapped_attrs a s = map_option (\<lambda>i. attrs (ms_mappings s i)) (find_entry a s)"

lemma find_entry_from_find:
  "map_option (ms_mappings s) (find_entry_from n a s i) = find (covers a) (map (ms_mappings s) [i..<i + n])"
proof (induction n arbitrary: i)
  case (Suc n)
  have "[i..<i + Suc n] = i # [i + 1..<i + 1 + n]" by (simp add: upt_rec)
  then show ?case using Suc.IH [of "i + 1"] by simp
qed simp

lemma mapped_attrs_find: "mapped_attrs a s = map_option attrs (find (covers a) (seq_entries s))"
proof -
  have "mapped_attrs a s = map_option attrs (map_option (ms_mappings s) (find_entry a s))"
    by (simp add: mapped_attrs_def option.map_comp comp_def)
  then show ?thesis
    using find_entry_from_find [of s "ms_nused s" a 0] by (simp add: find_entry_def seq_entries_def)
qed

lemma find_covers_append:
  assumes "contig lo xs m" "contig m ys hi"
  shows "find (covers a) (xs @ ys) = (if a < m then find (covers a) xs else find (covers a) ys)"
proof -
  have "find (covers a) ys = None" if "a < m"
    using that contig_bounds [OF assms(2)] by (force simp: find_None_iff)
  moreover have "find (covers a) xs = None" if "\<not> a < m"
    using that contig_bounds [OF assms(1)] by (force simp: find_None_iff)
  moreover have "find P (us @ vs) = (case find P us of None \<Rightarrow> find P vs | r \<Rightarrow> r)" for P and us vs :: "mapping_entry list"
    by (induction us) auto
  ultimately show ?thesis by (auto split: option.splits)
qed


section \<open>Overlapping mappings\<close>

lemma contig_split3:
  assumes "contig lo E hi" "f \<le> l" "l < length E"
  obtains M where "E = take f E @ M @ drop (l + 1) E" "contig lo (take f E) (me_begin (E ! f))"
    "contig (me_begin (E ! f)) M (me_end (E ! l))" "contig (me_end (E ! l)) (drop (l + 1) E) hi"
    "hd M = E ! f" "last M = E ! l" "M \<noteq> []"
proof -
  define M where "M = take (l + 1 - f) (drop f E)"
  have E: "E = take f E @ M @ drop (l + 1) E"
    using assms by (simp add: M_def) (metis Suc_diff_le append_take_drop_id drop_drop le_SucI le_add_diff_inverse2)
  have M: "M \<noteq> []" "hd M = E ! f" "last M = E ! l"
    using assms by (auto simp: M_def hd_drop_conv_nth last_conv_nth)
  obtain m n where c: "contig lo (take f E) m" "contig m M n" "contig n (drop (l + 1) E) hi"
    using assms(1) by (subst (asm) E) (auto simp: contig_append)
  have "m = me_begin (E ! f)" using c(2) M by (cases M) auto
  moreover have "n = me_end (E ! l)"
    using contig_nth(4) [OF c(2), of "length M - 1"] M by (simp add: last_conv_nth)
  ultimately show thesis using that E M c by blast
qed

lemma overlap_bounds:
  assumes c: "contig lo E hi" and "lo \<le> me_begin e" "me_begin e < me_end e"
    and f: "OVERLAPS (me_begin (E ! f)) (me_end (E ! f)) (me_begin e) (me_end e)"
      "\<And>j. j < f \<Longrightarrow> \<not> OVERLAPS (me_begin (E ! j)) (me_end (E ! j)) (me_begin e) (me_end e)"
    and l: "l < length E" "OVERLAPS (me_begin (E ! l)) (me_end (E ! l)) (me_begin e) (me_end e)"
      "\<And>j. l < j \<Longrightarrow> j < length E \<Longrightarrow> \<not> OVERLAPS (me_begin (E ! j)) (me_end (E ! j)) (me_begin e) (me_end e)"
  shows "f \<le> l" "me_begin (E ! f) \<le> me_begin e" "me_begin e \<le> me_end (E ! f)" "me_begin (E ! l) < me_end e"
    "me_end e \<le> me_end (E ! l) \<or> me_end (E ! l) = hi \<and> l = length E - 1"
proof -
  show fl: "f \<le> l" using f(2) [of l] l(2) by (cases "f \<le> l") auto
  show "me_begin e \<le> me_end (E ! f)" "me_begin (E ! l) < me_end e" using f(1) l(2) by (simp_all add: OVERLAPS_def)
  show "me_begin (E ! f) \<le> me_begin e"
  proof (cases "f = 0")
    case True
    then show ?thesis using contig_nth(2) [OF c, of f] fl l(1) assms(2) by (cases E) auto
  next
    case False
    then have "me_end (E ! (f - 1)) = me_begin (E ! f)" "me_begin (E ! (f - 1)) < me_end (E ! (f - 1))"
      using contig_nth(3) [OF c, of f] contig_nth(1) [OF c, of "f - 1"] fl l(1) by auto
    then show ?thesis using f(1) f(2) [of "f - 1"] False by (simp add: OVERLAPS_def)
  qed
  show "me_end e \<le> me_end (E ! l) \<or> me_end (E ! l) = hi \<and> l = length E - 1"
  proof (cases "l = length E - 1")
    case True
    then show ?thesis using contig_nth(4) [OF c l(1)] by simp
  next
    case False
    then have "l + 1 < length E" using l(1) by simp
    then have "me_end (E ! l) = me_begin (E ! (l + 1))" "me_begin (E ! (l + 1)) < me_end (E ! (l + 1))"
      using contig_nth(3) [OF c, of "l + 1"] contig_nth(1) [OF c, of "l + 1"] by auto
    then show ?thesis using l(2) l(3) [of "l + 1"] \<open>l + 1 < length E\<close> by (simp add: OVERLAPS_def)
  qed
qed

lemma augment_overlapD:
  assumes "augment_overlap object_below cur e filename = Inr (True, cur')"
    "contig (ms_begin cur) (seq_entries cur) (ms_end cur)" "ms_begin cur \<le> me_begin e" "me_begin e < me_end e"
  obtains f l where "f \<le> l" "l < ms_nused cur" "cur' = replace_overlapped cur f l
      (me_begin (seq_entries cur ! f) \<noteq> me_begin e) (me_end (seq_entries cur ! l) \<noteq> me_end e) e"
    "ms_nused cur + (if me_begin (seq_entries cur ! f) \<noteq> me_begin e then 1 else 0) +
      (if me_end (seq_entries cur ! l) \<noteq> me_end e then 1 else 0) \<le> max MAPPING_SEQUENCE_MAX_LEN (ms_nused cur)"
    "me_begin (seq_entries cur ! f) \<le> me_begin e" "me_begin e \<le> me_end (seq_entries cur ! f)"
    "me_begin (seq_entries cur ! l) < me_end e"
    "me_end e \<le> me_end (seq_entries cur ! l) \<or> me_end (seq_entries cur ! l) = ms_end cur \<and> l = ms_nused cur - 1"
proof -
  define P where "P = (\<lambda>m::mapping_entry. OVERLAPS (me_begin m) (me_end m) (me_begin e) (me_end e))"
  obtain f l where fl: "scan_up P cur 0 MAPPING_SEQUENCE_MAX_LEN = Inr f" "scan_down P cur (ms_nused cur) = Inr l"
    and cur': "cur' = replace_overlapped cur f l (me_begin (ms_mappings cur f) \<noteq> me_begin e)
        (me_end (ms_mappings cur l) \<noteq> me_end e) e"
    and room: "\<not> MAPPING_SEQUENCE_MAX_LEN - ms_nused cur < (if me_begin (ms_mappings cur f) \<noteq> me_begin e then 1 else 0) +
        (if me_end (ms_mappings cur l) \<noteq> me_end e then 1 else 0)"
    using assms(1) unfolding augment_overlap_def Let_def P_def [symmetric] by (auto split: if_splits)
  note u = scan_upD [OF fl(1)] and d = scan_downD [OF fl(2)]
  have "f \<le> l" using u d by (meson leI le0)
  then have f: "f < ms_nused cur" using d by simp
  have fl': "OVERLAPS (me_begin (seq_entries cur ! f)) (me_end (seq_entries cur ! f)) (me_begin e) (me_end e)"
    "\<And>j. j < f \<Longrightarrow> \<not> OVERLAPS (me_begin (seq_entries cur ! j)) (me_end (seq_entries cur ! j)) (me_begin e) (me_end e)"
    "l < length (seq_entries cur)"
    "OVERLAPS (me_begin (seq_entries cur ! l)) (me_end (seq_entries cur ! l)) (me_begin e) (me_end e)"
    "\<And>j. l < j \<Longrightarrow> j < length (seq_entries cur) \<Longrightarrow>
       \<not> OVERLAPS (me_begin (seq_entries cur ! j)) (me_end (seq_entries cur ! j)) (me_begin e) (me_end e)"
    using u d f by (simp_all add: P_def)
  show thesis
    using that [of f l] overlap_bounds [OF assms(2-4) fl'] cur' room f d by (auto split: if_splits)
qed


section \<open>The properties\<close>

lemma nused_replace:
  assumes "f \<le> l" "l < ms_nused cur"
  shows "ms_nused (replace_overlapped cur f l bp ep e) + (l - f) =
    ms_nused cur + (if bp then 1 else 0) + (if ep then 1 else 0)"
  using arg_cong [OF entries_replace [OF assms, of bp ep e], of length] assms by auto

lemma bounds_replace [simp]:
  "ms_begin (replace_overlapped cur f l bp ep e) = ms_begin cur"
  "ms_end (replace_overlapped cur f l bp ep e) = ms_end cur"
  by (simp_all add: replace_overlapped_def Let_def set_mapping_def copy_all_left_from_by_def)

lemma find_covers_hd: "contig lo xs hi \<Longrightarrow> xs \<noteq> [] \<Longrightarrow> lo \<le> a \<Longrightarrow> a < me_end (hd xs) \<Longrightarrow> find (covers a) xs = Some (hd xs)"
  by (cases xs) auto

lemma find_covers_last:
  assumes "contig lo xs hi" "xs \<noteq> []" "me_begin (last xs) \<le> a" "a < hi"
  shows "find (covers a) xs = Some (last xs)"
proof -
  obtain ys y where xs: "xs = ys @ [y]" using assms(2) by (metis append_butlast_last_id)
  then obtain m where "contig lo ys m" "contig m [y] hi" using assms(1) by (auto simp: contig_append)
  then show ?thesis using assms(3,4) find_covers_append [of lo ys m "[y]" hi a] by (auto simp: xs)
qed

text \<open>
  The entries a new mapping \<open>e\<close> replaces are \<open>M\<close>, from \<open>x\<close> to \<open>y\<close>; in their place stand
  what is left of \<open>x\<close>, then \<open>e\<close>, then what is left of \<open>y\<close>.
\<close>

lemma replaced_lookup:
  assumes M: "contig lo M hi" "M \<noteq> []" "hd M = x" "last M = y" "me_begin x = lo" "me_end y = hi"
    and b: "lo \<le> me_begin e" "me_begin e \<le> me_end x" "me_begin y < me_end e" "me_end e \<le> hi"
      "me_begin e < me_end e" and a: "lo \<le> a" "a < hi"
    and X: "X = (if me_begin x \<noteq> me_begin e then [x\<lparr>me_end := me_begin e\<rparr>] else []) @ [e] @
     (if me_end y \<noteq> me_end e then [y\<lparr>me_begin := me_end e\<rparr>] else [])"
  shows "map_option attrs (find (covers a) X) =
    (if covers a e then Some (attrs e) else map_option attrs (find (covers a) M))"
proof -
  consider "a < me_begin e" | "covers a e" | "me_end e \<le> a" by linarith
  then show ?thesis
  proof cases
    case 1
    then have "find (covers a) M = Some x" using find_covers_hd [OF M(1,2) a(1)] M(3) b by auto
    then show ?thesis using 1 M(5) a by (simp add: X)
  next
    case 2
    then show ?thesis using M(5) by (simp add: X)
  next
    case 3
    then have "find (covers a) M = Some y" using find_covers_last [OF M(1,2) _ a(2)] M(4) b by auto
    then show ?thesis using 3 M(5,6) a b by (simp add: X)
  qed
qed

lemma overlap_inside:
  assumes ok: "seq_ok cur" and b: "ms_begin cur \<le> me_begin e" "me_begin e < me_end e" "me_end e \<le> ms_end cur"
    and r: "augment_overlap object_below cur e filename = Inr (True, cur')"
  shows "seq_ok cur' \<and> ms_begin cur' = ms_begin cur \<and> ms_end cur' = ms_end cur \<and>
    mapped_attrs a cur' = (if covers a e then Some (attrs e) else mapped_attrs a cur)"
proof -
  define E where "E = seq_entries cur"
  have c: "contig (ms_begin cur) E (ms_end cur)" using ok by (simp add: seq_ok_def E_def)
  obtain f l where fl: "f \<le> l" "l < ms_nused cur"
    and cur': "cur' = replace_overlapped cur f l (me_begin (E ! f) \<noteq> me_begin e) (me_end (E ! l) \<noteq> me_end e) e"
    and room: "ms_nused cur + (if me_begin (E ! f) \<noteq> me_begin e then 1 else 0) +
      (if me_end (E ! l) \<noteq> me_end e then 1 else 0) \<le> max MAPPING_SEQUENCE_MAX_LEN (ms_nused cur)"
    and bds: "me_begin (E ! f) \<le> me_begin e" "me_begin e \<le> me_end (E ! f)" "me_begin (E ! l) < me_end e"
      "me_end e \<le> me_end (E ! l) \<or> me_end (E ! l) = ms_end cur \<and> l = ms_nused cur - 1"
    by (rule augment_overlapD [OF r c [unfolded E_def] b(1,2)]) (simp add: E_def)
  have el: "me_end e \<le> me_end (E ! l)" using bds(4) b(3) by auto
  obtain M where M: "E = take f E @ M @ drop (l + 1) E" "contig (ms_begin cur) (take f E) (me_begin (E ! f))"
    "contig (me_begin (E ! f)) M (me_end (E ! l))" "contig (me_end (E ! l)) (drop (l + 1) E) (ms_end cur)"
    "hd M = E ! f" "last M = E ! l" "M \<noteq> []"
    by (rule contig_split3 [OF c, of f l]) (use fl in \<open>auto simp: E_def\<close>)
  define X where "X = (if me_begin (E ! f) \<noteq> me_begin e then [(E ! f)\<lparr>me_end := me_begin e\<rparr>] else []) @ [e] @
     (if me_end (E ! l) \<noteq> me_end e then [(E ! l)\<lparr>me_begin := me_end e\<rparr>] else [])"
  have E': "seq_entries cur' = take f E @ X @ drop (l + 1) E"
    using entries_replace [OF fl] by (simp add: cur' X_def E_def)
  have X: "contig (me_begin (E ! f)) X (me_end (E ! l))"
    using bds el b(2) by (auto simp: X_def)
  have c': "contig (ms_begin cur') (seq_entries cur') (ms_end cur')"
    using M(2,4) X unfolding E' by (auto simp: contig_append cur')
  have mid: "map_option attrs (find (covers a) X) = (if covers a e then Some (attrs e) else map_option attrs (find (covers a) M))"
    if "me_begin (E ! f) \<le> a" "a < me_end (E ! l)"
    by (rule replaced_lookup [OF M(3,7,5,6) refl refl bds(1-3) el b(2) that X_def])
  have "seq_ok cur'"
    using ok c' room nused_replace [OF fl, of "me_begin (E ! f) \<noteq> me_begin e" "me_end (E ! l) \<noteq> me_end e" e] fl
    by (auto simp: seq_ok_def cur' split: if_splits)
  moreover have "mapped_attrs a cur' = (if covers a e then Some (attrs e) else mapped_attrs a cur)"
  proof -
    have "contig (me_begin (E ! f)) (X @ drop (l + 1) E) (ms_end cur)" "contig (me_begin (E ! f)) (M @ drop (l + 1) E) (ms_end cur)"
      using X M(3,4) by (auto simp: contig_append)
    note split = find_covers_append [OF M(2) this(1), of a] find_covers_append [OF M(2) this(2), of a]
      find_covers_append [OF X M(4), of a] find_covers_append [OF M(3,4), of a]
    show ?thesis
      using mid bds(1) el split unfolding mapped_attrs_find E' E_def [symmetric]
      by (subst M(1)) (auto split: if_splits)
  qed
  ultimately show ?thesis by (simp add: cur')
qed


lemma append_at_end:
  assumes ok: "seq_ok cur" "ms_nused cur \<noteq> MAPPING_SEQUENCE_MAX_LEN" and b: "me_begin e = ms_end cur" "me_begin e < me_end e"
    and r: "augment_append object_below cur e filename = Inr (True, cur')"
  shows "seq_ok cur' \<and> ms_begin cur' = ms_begin cur \<and> ms_end cur' = me_end e \<and>
    mapped_attrs a cur' = (if covers a e then Some (attrs e) else mapped_attrs a cur)"
proof -
  have c: "contig (ms_begin cur) (seq_entries cur) (ms_end cur)" "contig (ms_end cur) [e] (me_end e)" "0 < ms_begin cur"
    using ok b by (simp_all add: seq_ok_def)
  have cur': "ms_nused cur' = ms_nused cur + 1" "ms_begin cur' = ms_begin cur" "ms_end cur' = me_end e"
    "ms_mappings cur' = (ms_mappings cur)(ms_nused cur := e)"
    using r c(3) by (auto simp: augment_append_def Let_def set_mapping_def split: if_splits)
  then have E: "seq_entries cur' = seq_entries cur @ [e]"
    by (simp add: seq_entries_def)
  have "seq_ok cur'"
    using ok c by (auto simp: seq_ok_def E cur' contig_append)
  moreover have "find (covers a) (seq_entries cur) = None" if "ms_end cur \<le> a"
    using that contig_bounds [OF c(1)] by (force simp: find_None_iff)
  then have "mapped_attrs a cur' = (if covers a e then Some (attrs e) else mapped_attrs a cur)"
    using find_covers_append [OF c(1,2), of a] b by (auto simp: mapped_attrs_find E)
  ultimately show ?thesis by (simp add: cur')
qed

lemma augment_sequenceD:
  assumes "augment_sequence object_below (Some cur) b e prot flags offset filename caller = Inr (True, Some cur')"
  shows "ms_begin cur \<le> b \<and> ms_nused cur \<noteq> MAPPING_SEQUENCE_MAX_LEN \<and>
    (if ms_end cur = 0 \<or> ms_end cur = b
     then augment_append object_below cur (new_entry b e prot flags offset filename caller) filename = Inr (True, cur')
     else augment_overlap object_below cur (new_entry b e prot flags offset filename caller) filename = Inr (True, cur'))"
  using assms by (auto simp: augment_sequence_def Let_def split: if_splits)

lemma new_entry_simps [simp]:
  "me_begin (new_entry b e prot flags offset filename caller) = b"
  "me_end (new_entry b e prot flags offset filename caller) = e"
  "me_caller (new_entry b e prot flags offset filename caller) = caller"
  "attrs (new_entry b e prot flags offset filename caller) = (prot, flags, filename = None, caller)"
  by (simp_all add: new_entry_def attrs_def)

text \<open>
  C16. Adding a mapping to a contiguous sequence, either inside its bounds or directly after
  its end, when it is accepted, gives a contiguous sequence of at most eight entries that begins
  where it did and ends at the larger of the two ends; every address of the new mapping now
  has the new protection, flags, anonymity and caller, and every other address has those it had.
\<close>

theorem augment_overwrites:
  assumes "seq_ok cur" "b < e" "e \<le> ms_end cur \<or> b = ms_end cur"
    and "augment_sequence object_below (Some cur) b e prot flags offset filename caller = Inr (True, Some cur')"
  shows "seq_ok cur' \<and> ms_begin cur' = ms_begin cur \<and> ms_end cur' = max (ms_end cur) e \<and>
    mapped_attrs a cur' = (if b \<le> a \<and> a < e then Some (prot, flags, filename = None, caller) else mapped_attrs a cur)"
proof -
  have "ms_end cur \<noteq> 0" using assms(1) contig_le by (fastforce simp: seq_ok_def)
  then show ?thesis
    using augment_sequenceD [OF assms(4)] assms(1-3)
      append_at_end [of cur "new_entry b e prot flags offset filename caller" object_below filename cur' a]
      overlap_inside [of cur "new_entry b e prot flags offset filename caller" object_below filename cur' a]
    by (auto simp: max_def split: if_splits)
qed

text \<open>A mapping that begins inside the sequence overlaps an entry, which both searches find.\<close>

lemma overlap_scans:
  assumes "seq_ok cur" "b < e" "ms_begin cur \<le> b" "b < ms_end cur"
  defines "P \<equiv> \<lambda>m::mapping_entry. OVERLAPS (me_begin m) (me_end m) b e"
  obtains f l where "scan_up P cur 0 MAPPING_SEQUENCE_MAX_LEN = Inr f" "scan_down P cur (ms_nused cur) = Inr l"
proof -
  have ok: "contig (ms_begin cur) (seq_entries cur) (ms_end cur)" "ms_nused cur \<le> MAPPING_SEQUENCE_MAX_LEN"
    using assms(1) by (simp_all add: seq_ok_def)
  obtain i where "i < ms_nused cur" "covers b (ms_mappings cur i)"
    using contig_covers [OF ok(1), of b] assms(3,4) by (auto simp: in_set_conv_nth)
  then have "i < ms_nused cur" "P (ms_mappings cur i)" using assms(2) by (auto simp: P_def OVERLAPS_def)
  then show thesis
    using that scan_up_ex [of P cur i 0] scan_down_ex [of P cur i] ok(2) by fastforce
qed

text \<open>
  C17. On a contiguous sequence, adding any non-empty mapping returns: the searches for the first
  and the last overlapped entry stay inside the array, and a refused mapping leaves the
  sequence as it was.
\<close>

theorem augment_safe:
  assumes "seq_ok cur" "b < e"
  shows "\<exists>ret cur'. augment_sequence object_below (Some cur) b e prot flags offset filename caller =
    Inr (ret, Some cur') \<and> (ret \<or> cur' = cur)"
proof (cases "ms_begin cur \<le> b \<and> b < ms_end cur")
  case True
  then obtain f l where "scan_up (\<lambda>m. OVERLAPS (me_begin m) (me_end m) b e) cur 0 MAPPING_SEQUENCE_MAX_LEN = Inr f"
    "scan_down (\<lambda>m. OVERLAPS (me_begin m) (me_end m) b e) cur (ms_nused cur) = Inr l"
    using overlap_scans [OF assms] by blast
  then have "\<exists>ret cur'. augment_overlap object_below cur (new_entry b e prot flags offset filename caller) filename =
      Inr (ret, cur') \<and> (ret \<or> cur' = cur)"
    by (auto simp: augment_overlap_def Let_def)
  then show ?thesis using True by (auto simp: augment_sequence_def Let_def)
next
  case False
  have "\<exists>ret cur'. augment_append object_below cur (new_entry b e prot flags offset filename caller) filename =
      Inr (ret, cur') \<and> (ret \<or> cur' = cur)"
    by (auto simp: augment_append_def Let_def)
  then show ?thesis using False assms by (auto simp: augment_sequence_def Let_def OVERLAPS_def)
qed

text \<open>An anonymous mapping over an anonymous sequence is accepted when two entries are free.\<close>

lemma anonymous_accepted:
  assumes "seq_ok cur" "b < e" "ms_begin cur \<le> b" "b < ms_end cur"
    and "ms_filename cur = None" "ms_nused cur + 2 \<le> MAPPING_SEQUENCE_MAX_LEN"
  shows "\<exists>cur'. augment_sequence object_below (Some cur) b e prot flags offset None caller = Inr (True, Some cur')"
proof -
  obtain f l where "scan_up (\<lambda>m. OVERLAPS (me_begin m) (me_end m) b e) cur 0 MAPPING_SEQUENCE_MAX_LEN = Inr f"
    "scan_down (\<lambda>m. OVERLAPS (me_begin m) (me_end m) b e) cur (ms_nused cur) = Inr l"
    using overlap_scans [OF assms(1-4)] by blast
  moreover have "\<not> MAPPING_SEQUENCE_MAX_LEN - ms_nused cur < (if p then 1 else 0) + (if q then 1 else 0)" for p q
    using assms(6) by auto
  ultimately obtain cur' where
    "augment_overlap object_below cur (new_entry b e prot flags offset None caller) None = Inr (True, cur')"
    using assms(5) by (simp add: augment_overlap_def filename_is_consistent_overlap_def Let_def)
  moreover have "OVERLAPS (ms_begin cur) (ms_end cur) b e" using assms(2-4) by (simp add: OVERLAPS_def)
  ultimately show ?thesis using assms(2-4,6) by (simp add: augment_sequence_def Let_def)
qed

lemma past_end_breaks:
  assumes "seq_ok cur" "b < ms_end cur" "ms_end cur < e"
    and "augment_sequence object_below (Some cur) b e prot flags offset filename caller = Inr (True, Some cur')"
  shows "ms_end cur' = ms_end cur \<and> \<not> check_mapping_sequence_sanity cur' \<and>
    (\<exists>i < ms_nused cur'. me_begin (ms_mappings cur' i) = e \<and> me_end (ms_mappings cur' i) = ms_end cur)"
proof -
  let ?e = "new_entry b e prot flags offset filename caller"
  define E where "E = seq_entries cur"
  have c: "contig (ms_begin cur) E (ms_end cur)" "0 < ms_begin cur" using assms(1) by (simp_all add: seq_ok_def E_def)
  have "ms_end cur \<noteq> 0" "ms_end cur \<noteq> b" using assms(2) by simp_all
  then have r: "augment_overlap object_below cur ?e filename = Inr (True, cur')" "ms_begin cur \<le> b"
    using augment_sequenceD [OF assms(4)] by simp_all
  obtain f l where fl: "f \<le> l" "l < ms_nused cur"
    and cur': "cur' = replace_overlapped cur f l (me_begin (E ! f) \<noteq> b) (me_end (E ! l) \<noteq> e) ?e"
    and l: "e \<le> me_end (E ! l) \<or> me_end (E ! l) = ms_end cur \<and> l = ms_nused cur - 1"
    by (rule augment_overlapD [OF r(1) c(1) [unfolded E_def]]) (use r(2) assms(2,3) in \<open>simp_all add: E_def\<close>)
  have "me_end (E ! l) \<le> ms_end cur"
    using contig_bounds [OF c(1) nth_mem, of l] fl(2) by (simp add: E_def)
  then have el: "me_end (E ! l) = ms_end cur" "l = ms_nused cur - 1" using l assms(3) by auto
  let ?last = "(E ! l)\<lparr>me_begin := e\<rparr>"
  have "?last \<in> set (seq_entries cur')"
    using entries_replace [OF fl, of "me_begin (E ! f) \<noteq> b" "me_end (E ! l) \<noteq> e" ?e] el assms(3) by (simp add: cur' E_def)
  then obtain i where i: "i < ms_nused cur'" "ms_mappings cur' i = ?last"
    by (auto simp: in_set_conv_nth)
  then have e: "me_begin (ms_mappings cur' i) = e" "me_end (ms_mappings cur' i) = ms_end cur" using el(1) by simp_all
  then have "\<not> check_mapping_sequence_sanity cur'" using i(1) sane_entry [of cur' i] assms(3) by auto
  moreover have "ms_end cur' = ms_end cur" by (simp add: cur')
  ultimately show ?thesis using i(1) e by blast
qed

text \<open>
  C18. A mapping that begins inside a contiguous sequence and reaches past its end breaks the sequence
  whenever it is accepted, as an anonymous one over an anonymous sequence always is when two
  entries are free: the end of the sequence stays where it was, the last entry is left with
  the end of the new mapping as its beginning and the old end, which is smaller, as its end, and the result fails
  the code's own sanity check.
\<close>

theorem augment_past_end_breaks:
  assumes "seq_ok cur" "ms_begin cur \<le> b" "b < ms_end cur" "ms_end cur < e"
  shows "(filename = None \<and> ms_filename cur = None \<and> ms_nused cur + 2 \<le> MAPPING_SEQUENCE_MAX_LEN \<longrightarrow>
      (\<exists>cur'. augment_sequence object_below (Some cur) b e prot flags offset filename caller = Inr (True, Some cur'))) \<and>
    (\<forall>cur'. augment_sequence object_below (Some cur) b e prot flags offset filename caller = Inr (True, Some cur') \<longrightarrow>
      ms_end cur' = ms_end cur \<and> \<not> check_mapping_sequence_sanity cur' \<and>
      (\<exists>i < ms_nused cur'. me_begin (ms_mappings cur' i) = e \<and> me_end (ms_mappings cur' i) = ms_end cur))"
proof (intro conjI allI impI; (elim conjE)?)
  assume "filename = None" "ms_filename cur = None" "ms_nused cur + 2 \<le> MAPPING_SEQUENCE_MAX_LEN"
  then show "\<exists>cur'. augment_sequence object_below (Some cur) b e prot flags offset filename caller = Inr (True, Some cur')"
    using anonymous_accepted [OF assms(1) less_trans [OF assms(3,4)] assms(2,3)] by simp
qed (use past_end_breaks [OF assms(1,3,4)] in blast)+

section \<open>Deleting a span\<close>

text \<open>What the loop makes of one entry it does not split.\<close>

definition clip :: "addr \<Rightarrow> addr \<Rightarrow> mapping_entry \<Rightarrow> mapping_entry" where
  "clip a z e =
     (if me_begin e \<le> z \<and> me_end e > a
      then if a \<le> me_begin e \<and> me_end e \<le> z then null_entry
           else if a \<le> me_begin e then e\<lparr>me_begin := z\<rparr> else e\<lparr>me_end := a\<rparr>
      else e)"

definition splits :: "addr \<Rightarrow> addr \<Rightarrow> mapping_entry \<Rightarrow> bool" where
  "splits a z e \<longleftrightarrow> me_begin e < a \<and> z < me_end e"

lemma delete_from_entry_clip:
  assumes "\<not> splits a (a + len) (ms_mappings s i)"
  shows "delete_from_entry a len i s =
    Inr (s\<lparr>ms_mappings := (ms_mappings s)(i := clip a (a + len) (ms_mappings s i)),
      ms_begin := (if i = 0 \<and> a \<le> me_begin (ms_mappings s i) \<and> me_begin (ms_mappings s i) \<le> a + len \<and>
          a + len < me_end (ms_mappings s i) then a + len else ms_begin s),
      ms_end := (if i + 1 = ms_nused s \<and> me_begin (ms_mappings s i) < a \<and> a < me_end (ms_mappings s i)
          then a else ms_end s)\<rparr>)"
  using assms
  by (auto simp: delete_from_entry_def clip_def splits_def set_mapping_def Let_def intro!: mapping_sequence.equality)

lemma delete_from_entries_clip:
  assumes "\<And>j. i \<le> j \<Longrightarrow> j < i + n \<Longrightarrow> \<not> splits a (a + len) (ms_mappings s j)"
  shows "\<exists>s'. delete_from_entries a len i n s = Inr s' \<and> ms_nused s' = ms_nused s \<and> ms_filename s' = ms_filename s \<and>
    ms_mappings s' = (\<lambda>j. if i \<le> j \<and> j < i + n then clip a (a + len) (ms_mappings s j) else ms_mappings s j) \<and>
    ms_begin s' = (if i = 0 \<and> 0 < n \<and> a \<le> me_begin (ms_mappings s 0) \<and> me_begin (ms_mappings s 0) \<le> a + len \<and>
        a + len < me_end (ms_mappings s 0) then a + len else ms_begin s) \<and>
    ms_end s' = (if i < ms_nused s \<and> ms_nused s \<le> i + n \<and> me_begin (ms_mappings s (ms_nused s - 1)) < a \<and>
        a < me_end (ms_mappings s (ms_nused s - 1)) then a else ms_end s)"
  using assms
proof (induction n arbitrary: i s)
  case (Suc n)
  have "\<not> splits a (a + len) (ms_mappings s i)" using Suc.prems [of i] by simp
  note d = delete_from_entry_clip [OF this]
  define s1 where "s1 = s\<lparr>ms_mappings := (ms_mappings s)(i := clip a (a + len) (ms_mappings s i)),
      ms_begin := (if i = 0 \<and> a \<le> me_begin (ms_mappings s i) \<and> me_begin (ms_mappings s i) \<le> a + len \<and>
          a + len < me_end (ms_mappings s i) then a + len else ms_begin s),
      ms_end := (if i + 1 = ms_nused s \<and> me_begin (ms_mappings s i) < a \<and> a < me_end (ms_mappings s i)
          then a else ms_end s)\<rparr>"
  have "\<not> splits a (a + len) (ms_mappings s1 j)" if "i + 1 \<le> j" "j < i + 1 + n" for j
    using that Suc.prems [of j] by (simp add: s1_def)
  from Suc.IH [of "i + 1" s1, OF this] obtain s' where s': "delete_from_entries a len (i + 1) n s1 = Inr s'"
      "ms_nused s' = ms_nused s1" "ms_filename s' = ms_filename s1"
    "ms_mappings s' = (\<lambda>j. if i + 1 \<le> j \<and> j < i + 1 + n then clip a (a + len) (ms_mappings s1 j) else ms_mappings s1 j)"
    "ms_begin s' = ms_begin s1"
    "ms_end s' = (if i + 1 < ms_nused s1 \<and> ms_nused s1 \<le> i + 1 + n \<and> me_begin (ms_mappings s1 (ms_nused s1 - 1)) < a \<and>
        a < me_end (ms_mappings s1 (ms_nused s1 - 1)) then a else ms_end s1)"
    by auto
  have "delete_from_entries a len i (Suc n) s = Inr s'"
    using d s'(1) by (simp add: s1_def)
  moreover have "ms_mappings s' = (\<lambda>j. if i \<le> j \<and> j < i + Suc n then clip a (a + len) (ms_mappings s j) else ms_mappings s j)"
    unfolding s'(4) by (rule ext) (auto simp: s1_def)
  moreover have "ms_end s' = (if i < ms_nused s \<and> ms_nused s \<le> i + Suc n \<and> me_begin (ms_mappings s (ms_nused s - 1)) < a \<and>
        a < me_end (ms_mappings s (ms_nused s - 1)) then a else ms_end s)"
  proof (cases "i + 1 < ms_nused s")
    case True
    then have "ms_mappings s1 (ms_nused s - 1) = ms_mappings s (ms_nused s - 1)" by (auto simp: s1_def)
    then show ?thesis using True by (auto simp: s'(6) s1_def)
  next
    case False
    then show ?thesis by (cases "ms_nused s = i + 1") (auto simp: s'(6) s1_def)
  qed
  ultimately show ?case using s'(2,3,5) by (auto simp: s1_def)
qed (auto simp: fun_eq_iff)


text \<open>Compaction keeps, in order, the entries in use that were not cleared.\<close>

lemma entries_remove: "i < ms_nused s \<Longrightarrow> seq_entries (remove_mapping i s) = take i (seq_entries s) @ drop (i + 1) (seq_entries s)"
  by (rule nth_equalityI) (auto simp: seq_entries_def remove_mapping_def nth_append)

lemma compact_filter:
  "i \<le> ms_nused s \<Longrightarrow>
   seq_entries (compact i s) = take i (seq_entries s) @ filter (\<lambda>e. me_begin e \<noteq> 0) (drop i (seq_entries s)) \<and>
   ms_begin (compact i s) = ms_begin s \<and> ms_end (compact i s) = ms_end s"
proof (induction i s rule: compact.induct)
  case (1 i s)
  show ?case
  proof (cases "i < ms_nused s")
    case i: True
    then have d: "drop i (seq_entries s) = ms_mappings s i # drop (i + 1) (seq_entries s)"
      by (metis Cons_nth_drop_Suc Suc_eq_plus1 length_entries nth_entries)
    show ?thesis
    proof (cases "me_begin (ms_mappings s i) = 0")
      case True
      have "i \<le> ms_nused (remove_mapping i s)" using i by (simp add: remove_mapping_def)
      note IH = "1.IH"(1) [OF i True this]
      moreover have "ms_begin (remove_mapping i s) = ms_begin s" "ms_end (remove_mapping i s) = ms_end s"
        by (simp_all add: remove_mapping_def)
      ultimately show ?thesis using i True d by (subst (1 2 3) compact.simps) (simp add: entries_remove)
    next
      case False
      then show ?thesis using "1.IH"(2) [OF i False] i d
        by (subst (1 2 3) compact.simps) (simp add: take_Suc_conv_app_nth)
    qed
  next
    case False
    then show ?thesis using 1(3) by (subst (1 2 3) compact.simps) simp
  qed
qed

abbreviation clipped :: "addr \<Rightarrow> addr \<Rightarrow> mapping_entry list \<Rightarrow> mapping_entry list" where
  "clipped a z E \<equiv> filter (\<lambda>e. me_begin e \<noteq> 0) (map (clip a z) E)"

lemma find_covers_outside: "contig lo E hi \<Longrightarrow> x < lo \<or> hi \<le> x \<Longrightarrow> find (covers x) E = None"
  using contig_bounds by (force simp: find_None_iff)

lemma clipped_suffix:
  "contig lo E hi \<Longrightarrow> 0 < lo \<Longrightarrow> hi \<le> z \<Longrightarrow>
   (a \<le> lo \<longrightarrow> clipped a z E = []) \<and> (lo < a \<longrightarrow> a \<le> hi \<longrightarrow> contig lo (clipped a z E) a \<and>
     (x < a \<longrightarrow> map_option attrs (find (covers x) (clipped a z E)) = map_option attrs (find (covers x) E)))"
proof (induction E arbitrary: lo)
  case (Cons e E)
  have e: "me_begin e = lo" "lo < me_end e" "contig (me_end e) E hi" "me_end e \<le> hi"
    using Cons.prems(1) contig_le by auto
  note IH = Cons.IH [OF e(3)]
  consider "a \<le> lo" | "lo < a" "me_end e \<le> a" | "lo < a" "a < me_end e" by linarith
  then show ?case
  proof cases
    case 1
    then show ?thesis using e Cons.prems IH by (auto simp: clip_def null_entry_def)
  next
    case 2
    then have "clipped a z (e # E) = e # clipped a z E" using e Cons.prems by (simp add: clip_def)
    then show ?thesis using 2 e Cons.prems IH find_covers_outside [OF e(3), of x] by (cases "me_end e = a") auto
  next
    case 3
    then have "clip a z e = e\<lparr>me_end := a\<rparr>" using e Cons.prems by (simp add: clip_def)
    then have "clipped a z (e # E) = [e\<lparr>me_end := a\<rparr>]" using 3 e Cons.prems IH by simp
    then show ?thesis using 3 e find_covers_outside [OF e(3), of x] by auto
  qed
qed simp

lemma clipped_prefix:
  "contig lo E hi \<Longrightarrow> 0 < lo \<Longrightarrow> a \<le> lo \<Longrightarrow>
   (z \<le> lo \<longrightarrow> clipped a z E = E) \<and> (lo < z \<longrightarrow> z \<le> hi \<longrightarrow> contig z (clipped a z E) hi \<and>
     (z \<le> x \<longrightarrow> map_option attrs (find (covers x) (clipped a z E)) = map_option attrs (find (covers x) E)))"
proof (induction E arbitrary: lo)
  case (Cons e E)
  have e: "me_begin e = lo" "lo < me_end e" "contig (me_end e) E hi" "me_end e \<le> hi"
    using Cons.prems(1) contig_le by auto
  note IH = Cons.IH [OF e(3)]
  consider "z \<le> lo" | "lo < z" "me_end e \<le> z" | "lo < z" "z < me_end e" by linarith
  then show ?case
  proof cases
    case 1
    then have "clip a z e = e" using e Cons.prems by (auto simp: clip_def)
    then show ?thesis using 1 e Cons.prems IH by auto
  next
    case 2
    then have "clipped a z (e # E) = clipped a z E" using e Cons.prems by (simp add: clip_def null_entry_def)
    then show ?thesis using 2 e Cons.prems IH by (cases "me_end e = z") auto
  next
    case 3
    then have "clip a z e = e\<lparr>me_begin := z\<rparr>" using e Cons.prems by (simp add: clip_def)
    then have "clipped a z (e # E) = e\<lparr>me_begin := z\<rparr> # E" using 3 e Cons.prems IH by simp
    then show ?thesis using 3 e by auto
  qed
qed simp


text \<open>The unused part of the array may hold stale copies of entries, within the bounds.\<close>

definition spare_ok :: "mapping_sequence \<Rightarrow> bool" where
  "spare_ok s \<longleftrightarrow> list_all (\<lambda>i. ms_mappings s i = null_entry \<or>
     ms_begin s \<le> me_begin (ms_mappings s i) \<and> me_end (ms_mappings s i) \<le> ms_end s)
     [ms_nused s..<MAPPING_SEQUENCE_MAX_LEN]"

lemma entry_in_bounds:
  assumes "seq_ok s" "spare_ok s" "i < MAPPING_SEQUENCE_MAX_LEN"
  shows "ms_mappings s i = null_entry \<or> ms_begin s \<le> me_begin (ms_mappings s i) \<and> me_end (ms_mappings s i) \<le> ms_end s"
proof (cases "i < ms_nused s")
  case True
  then show ?thesis
    using assms(1) contig_bounds [OF _ nth_mem, of "ms_begin s" "seq_entries s" "ms_end s" i] by (simp add: seq_ok_def)
next
  case False
  then show ?thesis using assms by (auto simp: spare_ok_def list_all_iff)
qed

lemma delete_span_clips:
  assumes ok: "seq_ok s" "spare_ok s"
    and h: "ms_begin s < a \<and> a < ms_end s \<and> ms_end s \<le> a + len \<or>
      a \<le> ms_begin s \<and> ms_begin s < a + len \<and> a + len < ms_end s"
  shows "\<exists>s'. delete_mapping_sequence_span s a len = Inr s' \<and> seq_entries s' = clipped a (a + len) (seq_entries s) \<and>
    ms_begin s' = (if a \<le> ms_begin s then a + len else ms_begin s) \<and>
    ms_end s' = (if ms_end s \<le> a + len then a else ms_end s)"
proof -
  have "\<not> splits a (a + len) (ms_mappings s j)" if "0 \<le> j" "j < 0 + MAPPING_SEQUENCE_MAX_LEN" for j
    using entry_in_bounds [OF ok, of j] h that by (auto simp: splits_def null_entry_def)
  from delete_from_entries_clip [OF this, of 0 MAPPING_SEQUENCE_MAX_LEN]
  obtain s1 where s1: "delete_from_entries a len 0 MAPPING_SEQUENCE_MAX_LEN s = Inr s1" "ms_nused s1 = ms_nused s"
    "ms_mappings s1 = (\<lambda>j. if j < MAPPING_SEQUENCE_MAX_LEN then clip a (a + len) (ms_mappings s j) else ms_mappings s j)"
    "ms_begin s1 = (if a \<le> me_begin (ms_mappings s 0) \<and> me_begin (ms_mappings s 0) \<le> a + len \<and>
        a + len < me_end (ms_mappings s 0) then a + len else ms_begin s)"
    "ms_end s1 = (if me_begin (ms_mappings s (ms_nused s - 1)) < a \<and> a < me_end (ms_mappings s (ms_nused s - 1))
        then a else ms_end s)"
    using ok(1) by (auto simp: seq_ok_def MAPPING_SEQUENCE_MAX_LEN_def)
  have "seq_entries s1 = map (clip a (a + len)) (seq_entries s)"
    using ok(1) by (auto simp: seq_entries_def s1 seq_ok_def)
  then have c: "seq_entries (compact 0 s1) = clipped a (a + len) (seq_entries s)"
    "ms_begin (compact 0 s1) = ms_begin s1" "ms_end (compact 0 s1) = ms_end s1"
    using compact_filter [of 0 s1] by simp_all
  have b: "me_begin (ms_mappings s 0) = ms_begin s" "me_end (ms_mappings s (ms_nused s - 1)) = ms_end s"
    using seq_ok_sane [OF ok(1)] ok(1) by (simp_all add: check_mapping_sequence_sanity_def seq_ok_def)
  have n: "0 < ms_nused s" and cg: "contig (ms_begin s) (seq_entries s) (ms_end s)" using ok(1) by (simp_all add: seq_ok_def)
  have "me_end (ms_mappings s 0) \<le> ms_end s" "ms_begin s \<le> me_begin (ms_mappings s (ms_nused s - 1))"
    using n contig_bounds [OF cg nth_mem, of 0] contig_bounds [OF cg nth_mem, of "ms_nused s - 1"] by simp_all
  then have b': "ms_begin s1 = (if a \<le> ms_begin s \<and> a + len < me_end (ms_mappings s 0) then a + len else ms_begin s)"
    "ms_end s1 = (if me_begin (ms_mappings s (ms_nused s - 1)) < a \<and> ms_end s \<le> a + len then a else ms_end s)"
    using h unfolding s1(4,5) b by auto
  define s2 where "s2 = compact 0 s1"
  from h show ?thesis
  proof
    assume "ms_begin s < a \<and> a < ms_end s \<and> ms_end s \<le> a + len"
    then show ?thesis using s1(1) b' c
      by (auto simp: delete_mapping_sequence_span_def s2_def [symmetric] Let_def)
  next
    assume "a \<le> ms_begin s \<and> ms_begin s < a + len \<and> a + len < ms_end s"
    then show ?thesis using s1(1) b' c
      by (auto simp: delete_mapping_sequence_span_def s2_def [symmetric] Let_def)
  qed
qed


lemma delete_span_ok:
  assumes ok: "seq_ok s" "spare_ok s"
    and h: "ms_begin s < a \<and> a < ms_end s \<and> ms_end s \<le> a + len \<or>
      a \<le> ms_begin s \<and> ms_begin s < a + len \<and> a + len < ms_end s"
  shows "\<exists>s'. delete_mapping_sequence_span s a len = Inr s' \<and> seq_ok s' \<and>
    ms_begin s' = max (ms_begin s) (if a \<le> ms_begin s then a + len else 0) \<and>
    ms_end s' = (if ms_end s \<le> a + len then a else ms_end s) \<and>
    (\<forall>x. mapped_attrs x s' = (if a \<le> x \<and> x < a + len then None else mapped_attrs x s))"
proof -
  have c: "contig (ms_begin s) (seq_entries s) (ms_end s)" "0 < ms_begin s" using ok by (simp_all add: seq_ok_def)
  obtain s' where s': "delete_mapping_sequence_span s a len = Inr s'" "seq_entries s' = clipped a (a + len) (seq_entries s)"
    "ms_begin s' = (if a \<le> ms_begin s then a + len else ms_begin s)" "ms_end s' = (if ms_end s \<le> a + len then a else ms_end s)"
    using delete_span_clips [OF ok, of a len] h by auto
  have c': "contig (ms_begin s') (seq_entries s') (ms_end s')"
    using clipped_suffix [OF c, of "a + len" a] clipped_prefix [OF c, of a "a + len"] h unfolding s'(2-4) by auto
  moreover have "ms_begin s' < ms_end s'" using h by (auto simp: s'(3,4))
  then have "seq_entries s' \<noteq> []" using c' by auto
  then have "0 < ms_nused s'" by (metis length_entries length_greater_0_conv)
  moreover have "length (clipped a (a + len) (seq_entries s)) \<le> ms_nused s"
    by (metis length_entries length_filter_le length_map)
  then have "ms_nused s' \<le> ms_nused s" using length_entries [of s'] s'(2) by metis
  ultimately have "seq_ok s'" using ok(1) s'(3) h by (auto simp: seq_ok_def)
  moreover have "mapped_attrs x s' = (if a \<le> x \<and> x < a + len then None else mapped_attrs x s)" for x
  proof -
    have "mapped_attrs x s' = None" if "x < ms_begin s' \<or> ms_end s' \<le> x"
      using find_covers_outside [OF c' that] by (simp add: mapped_attrs_find)
    moreover have "mapped_attrs x s = None" if "x < ms_begin s \<or> ms_end s \<le> x"
      using find_covers_outside [OF c(1) that] by (simp add: mapped_attrs_find)
    moreover have "mapped_attrs x s' = mapped_attrs x s" if "ms_begin s' \<le> x" "x < ms_end s'"
      using clipped_suffix [OF c, of "a + len" a x] clipped_prefix [OF c, of a "a + len" x] h that s'(3,4)
      unfolding mapped_attrs_find s'(2) by auto
    ultimately show ?thesis using h by (cases "ms_begin s' \<le> x \<and> x < ms_end s'") (auto simp: s'(3,4) split: if_splits)
  qed
  ultimately show ?thesis using s'(1,3,4) h by (auto simp: max_def)
qed

text \<open>
  C19. Deleting a span that covers the end of a contiguous sequence but not its beginning, or
  its beginning but not its end, when the entries past the count are null, never aborts; it leaves a contiguous sequence with that bound
  moved to the edge of the span, in which the addresses of the span are no longer mapped and all
  others map to what they did.
\<close>

theorem delete_span_keeps:
  assumes ok: "seq_ok s" "spare_ok s"
    and h: "ms_begin s < a \<and> a < ms_end s \<and> ms_end s \<le> a + len \<or>
      a \<le> ms_begin s \<and> ms_begin s < a + len \<and> a + len < ms_end s"
  shows "\<exists>s'. delete_mapping_sequence_span s a len = Inr s' \<and> seq_ok s' \<and>
    ms_begin s' = max (ms_begin s) (if a \<le> ms_begin s then a + len else 0) \<and>
    ms_end s' = (if ms_end s \<le> a + len then a else ms_end s) \<and>
    (\<forall>x. mapped_attrs x s' = (if a \<le> x \<and> x < a + len then None else mapped_attrs x s))"
  by (rule delete_span_ok [OF assms])


section \<open>An example\<close>

text \<open>The text and the data of a loaded file, followed by its anonymous tail.\<close>

definition file_seq :: mapping_sequence where
  "file_seq = \<lparr>ms_begin = 2, ms_end = 8, ms_filename = Some ''/lib/a'', ms_nused = 3,
     ms_mappings = (\<lambda>_. null_entry)
       (0 := new_entry 2 4 5 2 0 (Some ''/lib/a'') 0, 1 := new_entry 4 6 3 2 2 (Some ''/lib/a'') 0,
        2 := new_entry 6 8 3 34 0 None 0)\<rparr>"

lemma file_seq_ok: "seq_ok file_seq" "spare_ok file_seq"
  by code_simp+

definition accepted :: "(bool \<times> mapping_sequence option) res \<Rightarrow> bool" where
  "accepted r = (case r of Inr (True, Some c) \<Rightarrow> True | _ \<Rightarrow> False)"

lemma acceptedE: "accepted r \<Longrightarrow> \<exists>c. r = Inr (True, Some c)"
  by (auto simp: accepted_def split: sum.splits prod.splits option.splits bool.splits)

theorem augment_overwrites_witness:
  "\<exists>cur'. augment_sequence (\<lambda>_. 0) (Some file_seq) 3 4 1 2 0 (Some ''/lib/a'') 0 = Inr (True, Some cur') \<and>
     seq_ok cur' \<and> mapped_attrs 3 cur' = Some (1, 2, False, 0) \<and> mapped_attrs 2 cur' = Some (5, 2, False, 0)"
proof -
  have "accepted (augment_sequence (\<lambda>_. 0) (Some file_seq) 3 4 1 2 0 (Some ''/lib/a'') 0)" by code_simp
  then obtain c where c: "augment_sequence (\<lambda>_. 0) (Some file_seq) 3 4 1 2 0 (Some ''/lib/a'') 0 = Inr (True, Some c)"
    by (auto dest: acceptedE)
  have "ms_end file_seq = 8" "mapped_attrs 2 file_seq = Some (5, 2, False, 0)" by code_simp+
  then show ?thesis
    using c augment_overwrites [OF file_seq_ok(1) _ _ c, of 3] augment_overwrites [OF file_seq_ok(1) _ _ c, of 2] by simp
qed

theorem augment_safe_witness:
  "\<exists>ret cur'. augment_sequence (\<lambda>_. 0) (Some file_seq) 1 2 1 2 0 None 0 = Inr (ret, Some cur') \<and> (ret \<or> cur' = file_seq)"
  using augment_safe [OF file_seq_ok(1), of 1 2] by simp

definition anon_seq :: mapping_sequence where
  "anon_seq = \<lparr>ms_begin = 2, ms_end = 8, ms_filename = None, ms_nused = 1,
     ms_mappings = (\<lambda>_. null_entry)(0 := new_entry 2 8 3 34 0 None 0)\<rparr>"

theorem augment_past_end_breaks_witness:
  "\<exists>cur'. augment_sequence (\<lambda>_. 0) (Some anon_seq) 6 9 1 2 0 None 0 = Inr (True, Some cur') \<and>
     \<not> check_mapping_sequence_sanity cur' \<and> ms_end cur' = 8"
proof -
  have "seq_ok anon_seq" "ms_begin anon_seq \<le> 6" "6 < ms_end anon_seq" "ms_end anon_seq < 9" by code_simp+
  from augment_past_end_breaks [OF this, of None "\<lambda>_. 0" 1 2 0 0]
  show ?thesis by (auto simp: anon_seq_def MAPPING_SEQUENCE_MAX_LEN_def)
qed

theorem delete_span_keeps_witness:
  "\<exists>s'. delete_mapping_sequence_span file_seq 5 5 = Inr s' \<and> seq_ok s' \<and> ms_end s' = 5 \<and>
     mapped_attrs 4 s' = Some (3, 2, False, 0) \<and> mapped_attrs 7 s' = None"
proof -
  have "ms_begin file_seq = 2" "ms_end file_seq = 8" "mapped_attrs 4 file_seq = Some (3, 2, False, 0)" by code_simp+
  then show ?thesis using delete_span_keeps [OF file_seq_ok, of 5 5] by auto
qed

end
