(* ===== verification/Mmap_Correct.thy ===== *)
theory Mmap_Correct
  imports Mmap Mapping_Seq_Correct Pageindex_Example
begin

text \<open>
  Correctness of the mmap allocator on top of the page index: what mapping and unmapping
  do to the big allocations and to the mapping sequences together, and how the mapping
  under the program break follows it.
\<close>

section \<open>Framing\<close>

lemma same_shape_seqs: "same_shape s (s\<lparr>seqs := q\<rparr>)"
  by (simp add: same_shape_def)

lemma seqs_more: "pi_state.more s' = pi_state.more s \<Longrightarrow> seqs s' = seqs s"
  by (cases s; cases s') simp

section \<open>Lookups\<close>

lemma lookup_unindexed:
  assumes "pageindex s (PAGENUM a) = 0" "systrap_is_initialized s" "big_allocations s 0 = empty_bigalloc"
  shows "lookup_bigalloc_from_root hk a al s = Inr (0, s)"
proof -
  have "root_of NBIGALLOCS s 0 = Inr 0" using assms(3) by (subst root_of.simps) (simp add: empty_bigalloc_def)
  moreover have "find_bigalloc_at s 0 a al False = Inr 0"
    using assms(3) by (simp add: find_bigalloc_at_def allocator_matches_def empty_bigalloc_def find_in_children.simps)
  ultimately show ?thesis
    using assms(1,2) by (simp add: lookup_bigalloc_from_root_def find_bigalloc_from_root_def find_bigalloc_recursive_def)
qed

lemma anc_top: "anc s r b \<Longrightarrow> par s b = 0 \<Longrightarrow> r = b"
  by (auto elim: anc.cases)

lemma lookup_top:
  assumes "pi_inv s" "used s b" "contains_addr s b a" "par s b = 0" "allocated_by (big_allocations s b) = Some al"
  shows "lookup_bigalloc_from_root hk a al s = Inr (b, s)"
proof -
  obtain r where r: "find_bigalloc_recursive hk 0 a al False s = Inr (r, s)"
    "outermost s {k. used s k \<and> contains_addr s k a \<and> allocator_matches s al False k} r"
    using find_from_root_ok [OF assms(1-3)] by blast
  have "b \<in> {k. used s k \<and> contains_addr s k a \<and> allocator_matches s al False k}"
    using assms by (simp add: allocator_matches_def)
  then have "anc s r b" using r(2) by (auto simp: outermost_def split: if_splits)
  then show ?thesis
    using r(1) anc_top [OF _ assms(4)] by (simp add: lookup_bigalloc_from_root_def find_bigalloc_from_root_def)
qed

section \<open>Unmapping a whole allocation\<close>

lemma freed_all_single:
  assumes "freed_all s {b} s'"
  shows "freed s' = freed s @ frees (big_allocations s b)"
proof -
  obtain ds where ds: "distinct ds" "set ds = {b}" "freed s' = freed s @ concat (map (\<lambda>i. frees (big_allocations s i)) ds)"
    using assms by (auto simp: freed_all_def)
  have "length ds = 1" using distinct_card [OF ds(1)] ds(2) by simp
  then obtain x where "ds = [x]" by (metis One_nat_def length_0_conv length_Suc_conv)
  then show ?thesis using ds by simp
qed

lemma munmap_whole:
  assumes "pi_inv s" "used s b" "par s b = 0" "allocated_by (big_allocations s b) = Some A_mmap"
    "b \<noteq> nommap_bigalloc s" "ROUND_UP len PAGE_SIZE = en s b - bgn s b"
  shows "\<exists>s'. do_munmap E (bgn s b) len s = Inr s' \<and> pi_inv s' \<and> pruned s (desc s b) 0 s' \<and>
    freed_all s (desc s b) s'"
proof -
  have t: "bgn s b < en s b" using tree_slot [of s b] assms(1,2) by (auto simp: pi_inv_def slot_ok_def)
  have "contains_addr s b (bgn s b)" using t by (simp add: contains_addr_def)
  note l = lookup_top [OF assms(1,2) this assms(3,4), of "e_hooks E"]
  obtain s' where s': "bigalloc_del b s = Inr s'" "pi_inv s'" "pruned s (desc s b) (par s b) s'"
    "freed_all s (desc s b) s'"
    using bigalloc_del_ok [OF assms(1,2,5)] by blast
  have "b \<noteq> 0" using used_bounds(1) [of s b] assms(1,2) by (auto simp: pi_inv_def)
  then have "delete_bigalloc_at (e_hooks E) (bgn s b) A_mmap s = Inr (True, s')"
    using l s'(1) by (simp add: delete_bigalloc_at_def lookup_bigalloc_from_root_def)
  moreover have "munmap_loop n (bgn s b) (en s b - bgn s b) (en s b) k E s' = Inr s'" for n k
    using t by (subst munmap_loop.simps) simp
  ultimately have "do_munmap E (bgn s b) len s = Inr s'"
    unfolding do_munmap_def assms(6) Let_def
    using t l \<open>b \<noteq> 0\<close> by (subst munmap_loop.simps) simp
  then show ?thesis using s' assms(3) by auto
qed

section \<open>Mapping afresh\<close>

lemma augment_empty:
  assumes "b < e"
  shows "\<exists>sq. augment_sequence ob (Some empty_sequence) b e prot flags off fn caller = Inr (True, Some sq) \<and>
    ms_begin sq = b \<and> ms_end sq = e \<and> seq_entries sq = [new_entry b e prot flags off fn caller] \<and>
    spare_ok sq"
  by (auto simp: augment_sequence_def augment_append_def filename_is_consistent_append_def empty_sequence_def
      seq_entries_def set_mapping_def spare_ok_def list_all_iff MAPPING_SEQUENCE_MAX_LEN_def)

lemma single_seq_ok:
  assumes "seq_entries sq = [new_entry b e prot flags off fn caller]" "ms_begin sq = b" "ms_end sq = e" "0 < b" "b < e"
  shows "seq_ok sq" "mapped_attrs x sq = (if b \<le> x \<and> x < e then Some (prot, flags, fn = None, caller) else None)"
proof -
  have "ms_nused sq = 1" using arg_cong [OF assms(1), of length] by simp
  then show "seq_ok sq" using assms by (simp add: seq_ok_def MAPPING_SEQUENCE_MAX_LEN_def)
  show "mapped_attrs x sq = (if b \<le> x \<and> x < e then Some (prot, flags, fn = None, caller) else None)"
    by (simp add: mapped_attrs_find assms(1))
qed

text \<open>A range of whole pages that no allocation touches, nor reaches from below.\<close>

definition clear_range :: "alloc_state \<Rightarrow> addr \<Rightarrow> nat \<Rightarrow> bool" where
  "clear_range s a len \<longleftrightarrow> (\<forall>i. used s i \<longrightarrow> en s i < a \<or> a + len \<le> bgn s i)"

text \<open>
  When the handlers of the stack, mmap and brk allocators have nothing to do for an address: the brk
  allocation ends at the break, and the address is not one the stack may have grown to.
\<close>

definition break_recorded :: "alloc_state \<Rightarrow> bool" where
  "break_recorded s \<longleftrightarrow> brk_bigalloc s = 0 \<or> ba_end (bigalloc_at s (brk_bigalloc s)) = curbrk s"

definition away_from_stack :: "alloc_state \<Rightarrow> addr \<Rightarrow> bool" where
  "away_from_stack s x \<longleftrightarrow> (let b = initial_stack_bigalloc s in
     b = 0 \<or> allocator_private (bigalloc_at s b) = 0 \<and> \<not> stack_claims x b s)"

lemma handlers_pass:
  assumes sbrk: "\<And>s. sbrk 0 s = (curbrk s, s)" and s: "break_recorded s" "away_from_stack s x"
  shows "notify_unindexed_address (model_hooks sbrk ra init) x s = Inr (False, s)"
proof -
  have "stack_notify_walk n x 0 s = Inr (False, s)" for n by (subst stack_notify_walk.simps) simp
  then have "stack_notify_unindexed_address x s = Inr (False, s)"
    using s(2) NBIGALLOCS_pos unfolding stack_notify_unindexed_address_def
    by (subst stack_notify_walk.simps) (auto simp: away_from_stack_def Let_def)
  moreover have "update_brk (curbrk s) s = Inr s" if "brk_bigalloc s \<noteq> 0"
    using that s(1) by (simp add: update_brk_def break_recorded_def Let_def)
  then have "mmap_notify_unindexed_address sbrk x s = Inr (False, s)"
    by (simp add: mmap_notify_unindexed_address_def brk_notify_unindexed_address_def current_sbrk_def sbrk)
  ultimately show ?thesis by (simp add: notify_unindexed_address_def model_hooks_def)
qed

lemma passes_seqs:
  "break_recorded (s\<lparr>seqs := q\<rparr>) = break_recorded s" "away_from_stack (s\<lparr>seqs := q\<rparr>) x = away_from_stack s x"
  by (simp_all add: break_recorded_def away_from_stack_def stack_claims_def guess_sane_max_stack_delta_def
      guess_sane_max_stack_size_def is_unindexed_def)

lemma clear_unindexed:
  assumes "pi_inv s" "clear_range s a len" "0 < a" "a - 1 \<le> x" "x < a + len"
  shows "pageindex s (PAGENUM x) = 0"
proof (rule no_alloc_unindexed [OF assms(1)])
  fix i assume "used s i"
  then show "\<not> contains_addr s i x" using assms by (fastforce simp: clear_range_def contains_addr_def)
qed

lemma map_fresh_ok:
  assumes inv: "pi_inv s" and k: "\<not> used s k" "0 < k" "k < NBIGALLOCS"
    and r: "0 < a" "0 < len" "a + len < 2 ^ 64" "len \<le> biggest_sane s" "4096 dvd a" "4096 dvd len" "clear_range s a len"
    and h: "\<And>x q. x \<in> {a, a + len - 1} \<Longrightarrow>
      notify_unindexed_address (e_hooks E) x (s\<lparr>seqs := q\<rparr>) = Inr (False, s\<lparr>seqs := q\<rparr>)"
    and E: "e_malloc E s \<noteq> 0"
  shows "\<exists>b s'. map_fresh E a len prot flags fn off caller s = Inr s' \<and> pi_inv s' \<and> \<not> used s b \<and>
    placed s b 0 a (a + len) s' \<and> pageindex s' = pages_to a (a + len) b (pageindex s) \<and> freed s' = freed s \<and>
    (\<forall>i. i \<noteq> b \<longrightarrow> payload (big_allocations s' i) = payload (big_allocations s i)) \<and>
    payload (big_allocations s' b) = (Some A_mmap, None, e_malloc E s, private_nommap_free, 0, 0) \<and>
    seq_entries (seqs s' (e_malloc E s)) = [new_entry a (a + len) prot flags off fn caller] \<and>
    ms_begin (seqs s' (e_malloc E s)) = a \<and> ms_end (seqs s' (e_malloc E s)) = a + len"
proof -
  let ?p = "e_malloc E s"
  obtain sq where sq: "augment_sequence (e_object_below E) (Some empty_sequence) a (a + len) prot flags off fn caller =
      Inr (True, Some sq)" "ms_begin sq = a" "ms_end sq = a + len"
    "seq_entries sq = [new_entry a (a + len) prot flags off fn caller]"
    using augment_empty [of a "a + len"] r(2) by fastforce
  define s1 where "s1 = s\<lparr>seqs := (seqs s)(?p := sq)\<rparr>"
  have i1: "pi_inv s1" unfolding s1_def by (rule same_shape_inv [OF same_shape_seqs inv])
  have u1: "used s1 i = used s i" for i by (simp add: s1_def BIGALLOC_IN_USE_def)
  have k1: "\<not> used s1 k" and z1: "len \<le> biggest_sane s1" using k r u1 by (simp_all add: s1_def)
  have c1: "en s1 i \<le> a \<or> a + len \<le> bgn s1 i" if "used s1 i" for i
    using r(7) that u1 by (auto simp: clear_range_def s1_def)
  have h1: "notify_unindexed_address (e_hooks E) a s1 = Inr (False, s1)"
    "notify_unindexed_address (e_hooks E) (a + len - 1) s1 = Inr (False, s1)"
    unfolding s1_def by (rule h; simp)+
  obtain b s2 where s2: "new_bigalloc (e_hooks E) a len 0 0 0 (Some A_mmap) s1 = Inr (b, s2)" "pi_inv s2" "\<not> used s1 b"
    "placed s1 b 0 a (a + len) s2" "same_but b s1 s2" "payload (big_allocations s2 b) = (Some A_mmap, None, 0, 0, 0, 0)"
    "pageindex s2 = pages_to a (a + len) b (pageindex s1)"
    using new_bigalloc_top_ok [OF i1 k1 k(2,3) r(2,1,3) z1 r(5,6) c1 h1, of 0 0 "Some A_mmap"] by blast
  have "used s2 b" using s2(4) r by (auto simp: placed_def BIGALLOC_IN_USE_def)
  then have b0: "b \<noteq> 0" using s2(2) used_bounds(1) [of s2 b] by (auto simp: pi_inv_def)
  define f where "f = (\<lambda>r. r\<lparr>allocator_private := ?p, allocator_private_free := private_nommap_free\<rparr> :: big_allocation)"
  have "map_fresh E a len prot flags fn off caller s = Inr (upd b f s2)"
    using s2(1) E sq b0
    by (simp add: map_fresh_def augment_at_def add_mapping_sequence_bigalloc_with_seq_def add_bigalloc_def s1_def f_def)
  moreover have "pi_inv (upd b f s2)" by (rule same_shape_inv [OF same_shape_payload s2(2)]) (simp add: f_def)
  moreover have "placed s b 0 a (a + len) (upd b f s2)"
    using s2(4) by (simp add: placed_def s1_def upd_def f_def)
  moreover have "pageindex (upd b f s2) = pages_to a (a + len) b (pageindex s)"
    using s2(7) by (simp add: s1_def upd_def)
  moreover have "seqs (upd b f s2) = seqs s1"
    using s2(5) seqs_more [of s2 s1] by (simp add: same_but_def upd_def)
  moreover have "payload (big_allocations (upd b f s2) b) = (Some A_mmap, None, ?p, private_nommap_free, 0, 0)"
    using s2(6) by (simp add: payload_def upd_def f_def)
  moreover have "payload (big_allocations (upd b f s2) i) = payload (big_allocations s i)" if "i \<noteq> b" for i
    using that s2(5) by (simp add: same_but_def upd_def s1_def)
  moreover have "freed (upd b f s2) = freed s" using s2(5) by (simp add: same_but_def upd_def s1_def)
  ultimately show ?thesis using s2(3) sq u1 by (auto simp: s1_def)
qed


lemma do_mmap_fresh:
  assumes inv: "pi_inv s" "systrap_is_initialized s" "big_allocations s 0 = empty_bigalloc"
    and L: "L = ROUND_UP len PAGE_SIZE" "0 < L" and r: "0 < a" "clear_range s a L"
  shows "do_mmap E a len prot flags fn off caller s = map_fresh E a L prot flags fn off caller s"
proof -
  note u = clear_unindexed [OF inv(1) r(2,1)]
  have "lookup_bigalloc_from_root (e_hooks E) x A_mmap s = Inr (0, s)" if "x \<in> {a - 1, a, a + L - 1}" for x
    using lookup_unindexed [OF u inv(2,3)] that L(2) r(1) by auto
  then have "find_extendable E a L s = Inr (0, s)" by (simp add: find_extendable_def)
  moreover have "pageindex s (a div 2 ^ 12 + i) = 0" if "i < L div 2 ^ 12" for i
  proof -
    have "4096 * i < L" using that by simp
    then have "pageindex s (PAGENUM (a + 4096 * i)) = 0" using u [of "a + 4096 * i"] by simp
    then show ?thesis by (simp add: PAGENUM_def add.commute)
  qed
  ultimately show ?thesis
    using r(1) by (auto simp: do_mmap_def L(1) [symmetric] Let_def)
qed

text \<open>
  C20. Mapping a fresh range of pages, away from every other mapping and from where the initial stack may
  grow, with the program's own handlers installed, the system call traps in place, \<open>sbrk(0)\<close> giving the program break that is
  recorded, a free slot in the table, a size that is sane and the private malloc not failing, records it as one
  top-level allocation of the mmap allocator, whose mapping sequence has the range's attributes
  at exactly its addresses; unmapping it again returns, frees the sequence once, and leaves the page index,
  and the bounds, nesting and data of all allocations as they were.
\<close>

theorem mmap_munmap_roundtrip:
  assumes "pi_inv s" "systrap_is_initialized s" "big_allocations s 0 = empty_bigalloc"
    and "\<not> used s k" "0 < k" "k < NBIGALLOCS"
    and "L = ROUND_UP len PAGE_SIZE" "0 < L" "0 < a" "a + L < 2 ^ 64" "L \<le> biggest_sane s" "4096 dvd a" "clear_range s a L"
    and "e_hooks E = model_hooks sbrk ra init" "\<And>s. sbrk 0 s = (curbrk s, s)"
    and "break_recorded s" "away_from_stack s a" "away_from_stack s (a + L - 1)" "e_malloc E s \<noteq> 0"
  shows "\<exists>b s1 s2. do_mmap E a len prot flags fn off caller s = Inr s1 \<and> pi_inv s1 \<and>
    placed s b 0 a (a + L) s1 \<and> allocated_by (big_allocations s1 b) = Some A_mmap \<and>
    seq_ok (seqs s1 (allocator_private (big_allocations s1 b))) \<and>
    (\<forall>x. mapped_attrs x (seqs s1 (allocator_private (big_allocations s1 b))) =
       (if a \<le> x \<and> x < a + L then Some (prot, flags, fn = None, caller) else None)) \<and>
    do_munmap E a len s1 = Inr s2 \<and> pi_inv s2 \<and> pageindex s2 = pageindex s \<and>
    freed s2 = freed s @ [(private_nommap_free, e_malloc E s)] \<and>
    (\<forall>i. used s2 i = used s i) \<and>
    (\<forall>i. used s i \<longrightarrow> bgn s2 i = bgn s i \<and> en s2 i = en s i \<and> par s2 i = par s i \<and>
       payload (big_allocations s2 i) = payload (big_allocations s i))"
proof -
  have h: "notify_unindexed_address (e_hooks E) x (s\<lparr>seqs := q\<rparr>) = Inr (False, s\<lparr>seqs := q\<rparr>)"
    if "x \<in> {a, a + L - 1}" for x q
    unfolding assms(14) by (rule handlers_pass [of sbrk, OF assms(15)]) (use that assms(16-18) passes_seqs in auto)
  have L4: "4096 dvd L" using assms(7) by (simp add: ROUND_UP_def PAGE_SIZE_def)
  obtain b s1 where s1: "do_mmap E a len prot flags fn off caller s = Inr s1" "pi_inv s1" "\<not> used s b"
    "placed s b 0 a (a + L) s1" "pageindex s1 = pages_to a (a + L) b (pageindex s)" "freed s1 = freed s"
    "\<And>i. i \<noteq> b \<Longrightarrow> payload (big_allocations s1 i) = payload (big_allocations s i)"
    "payload (big_allocations s1 b) = (Some A_mmap, None, e_malloc E s, private_nommap_free, 0, 0)"
    "seq_entries (seqs s1 (e_malloc E s)) = [new_entry a (a + L) prot flags off fn caller]"
    "ms_begin (seqs s1 (e_malloc E s)) = a" "ms_end (seqs s1 (e_malloc E s)) = a + L"
    using map_fresh_ok [OF assms(1,4-6,9,8,10,11,12) L4 assms(13) h assms(19)]
    unfolding do_mmap_fresh [OF assms(1-3,7-9,13)] by blast
  obtain ch where w: "tree_ok s" "links_ok s ch" "index_ok s" using pi_invE [OF assms(1)] .
  have w1: "tree_ok s1" using s1(2) by (simp add: pi_inv_def)
  have pl: "bgn s1 i = (if i = b then a else bgn s i)" "en s1 i = (if i = b then a + L else en s i)"
    "par s1 i = (if i = b then 0 else par s i)" "nommap_bigalloc s1 = nommap_bigalloc s" for i
    using s1(4) by (simp_all add: placed_def)
  have u1: "used s1 i \<longleftrightarrow> i = b \<or> used s i" for i
    using pl s1(3) assms(8,9) by (auto simp: BIGALLOC_IN_USE_def)
  have ub: "used s1 b" "par s1 b = 0" "bgn s1 b = a" "en s1 b = a + L" using u1 pl by auto
  have pb: "allocated_by (big_allocations s1 b) = Some A_mmap" "allocator_private (big_allocations s1 b) = e_malloc E s"
    "frees (big_allocations s1 b) = [(private_nommap_free, e_malloc E s)]"
    using s1(8) assms(19) by (simp_all add: payload_def frees_def private_nommap_free_def)
  have d: "desc s1 b = {b}"
  proof -
    have "b \<noteq> 0" using used_bounds(1) [OF w1 ub(1)] by simp
    have "par s1 c \<noteq> b" if "used s1 c" for c
      using that u1 [of c] pl used_parent(1) [OF w(1), of c] s1(3) \<open>b \<noteq> 0\<close> by auto
    then have "j = b" if "anc s1 b j" "used s1 j" for j using anc_first_step [OF w1 that(1)] by blast
    then show ?thesis using ub(1) desc_self [OF ub(1)] by (auto simp: desc_def)
  qed
  have "b \<noteq> nommap_bigalloc s1" using links_top(2) [OF w(2)] links_list_used(1) [OF w(2), of 0] s1(3) pl(4) by auto
  then obtain s2 where s2: "do_munmap E a len s1 = Inr s2" "pi_inv s2" "pruned s1 {b} 0 s2" "freed_all s1 {b} s2"
    using munmap_whole [OF s1(2) ub(1,2) pb(1), of len E] assms(7) ub d by auto
  have fr: "freed s2 = freed s @ [(private_nommap_free, e_malloc E s)]"
    using freed_all_single [OF s2(4)] s1(6) pb(3) by simp
  have pgs: "pageindex s2 pg = pageindex s pg" for pg
  proof -
    have i2: "pageindex s2 pg = (if pageindex s1 pg = b then 0 else pageindex s1 pg)" using s2(3) by (simp add: pruned_def)
    show ?thesis
    proof (cases "a \<le> pg * 4096 \<and> (pg + 1) * 4096 \<le> a + L")
      case True
      then have "pageindex s1 pg = b" unfolding s1(5) pages_to_def by simp
      moreover have "(pg + 1) * 4096 = pg * 4096 + 4096" by simp
      then have "a - 1 \<le> pg * 4096" "pg * 4096 < a + L" using True by linarith+
      then have "pageindex s (PAGENUM (pg * 4096)) = 0" by (rule clear_unindexed [OF assms(1,13,9)])
      ultimately show ?thesis using i2 by (simp add: PAGENUM_def)
    next
      case False
      have "pageindex s pg \<noteq> b"
        using w(3) s1(3) used_bounds(1) [OF w1 ub(1)] by (auto simp: index_ok_def spans_def)
      moreover have "pageindex s1 pg = pageindex s pg" unfolding s1(5) pages_to_def using False by (rule if_not_P)
      ultimately show ?thesis using i2 by simp
    qed
  qed
  have us: "used s2 i = used s i" for i using pruned_used [OF s2(3)] u1 s1(3) by auto
  have fs: "bgn s2 i = bgn s i \<and> en s2 i = en s i \<and> par s2 i = par s i \<and>
       payload (big_allocations s2 i) = payload (big_allocations s i)" if "used s i" for i
    using s2(3) pl s1(3,7) that by (auto simp: pruned_def)
  have b1: "a < a + L" using assms(8) by simp
  note sq = single_seq_ok [OF s1(9-11) assms(9) b1]
  have "pageindex s2 = pageindex s" using pgs by (rule ext)
  then show ?thesis
    using s1(1,2,4) s2(1,2) pb(1,2) sq us fs fr by auto
qed


section \<open>Following the program break\<close>

text \<open>No entry is free and the last one is not anonymous, so that it cannot take the growth.\<close>

definition sequence_full :: "mapping_sequence \<Rightarrow> bool" where
  "sequence_full q \<longleftrightarrow>
     ms_nused q = MAPPING_SEQUENCE_MAX_LEN \<and> \<not> me_is_anon (ms_mappings q (MAPPING_SEQUENCE_MAX_LEN - 1))"

lemma grow_sequence_ok:
  assumes ok: "seq_ok q" "\<not> sequence_full q" "ms_end q < z"
  shows "\<exists>q'. grow_sequence z q = Inr q' \<and> seq_ok q' \<and> ms_begin q' = ms_begin q \<and> ms_end q' = z"
proof -
  let ?l = "ms_nused q - 1"
  have n: "0 < ms_nused q" "0 < ms_begin q" and c: "contig (ms_begin q) (seq_entries q) (ms_end q)"
    using ok(1) by (simp_all add: seq_ok_def)
  have l: "me_end (ms_mappings q ?l) = ms_end q" "me_begin (ms_mappings q ?l) < ms_end q"
    using contig_nth(1,4) [OF c, of ?l] n by auto
  show ?thesis
  proof (cases "me_is_anon (ms_mappings q ?l)")
    case False
    define e where "e = \<lparr>me_begin = ms_end q, me_end = z, me_prot = 3, me_flags = 0, me_offset = 0,
      me_is_anon = True, me_caller = 0\<rparr>"
    have "ms_nused q \<noteq> MAPPING_SEQUENCE_MAX_LEN" using False ok(2) by (auto simp: sequence_full_def)
    then have room: "ms_nused q < MAPPING_SEQUENCE_MAX_LEN" using ok(1) by (simp add: seq_ok_def)
    define q' where "q' = (set_mapping (ms_nused q) e (q\<lparr>ms_end := z\<rparr>))\<lparr>ms_nused := ms_nused q + 1\<rparr>"
    have "grow_sequence z q = Inr q'"
      using False room n l by (simp add: grow_sequence_def q'_def e_def set_mapping_def)
    moreover have "seq_entries q' = seq_entries q @ [e]"
      by (simp add: seq_entries_def q'_def set_mapping_def)
    then have "seq_ok q'"
      using ok room n c by (auto simp: seq_ok_def q'_def set_mapping_def contig_append e_def)
    ultimately show ?thesis by (simp add: q'_def set_mapping_def)
  next
    case True
    define e where "e = (ms_mappings q ?l)\<lparr>me_end := z\<rparr>"
    define q' where "q' = set_mapping ?l e (q\<lparr>ms_end := z\<rparr>)"
    have g: "grow_sequence z q = Inr q'"
      using True n by (simp add: grow_sequence_def q'_def e_def set_mapping_def Let_def)
    have E: "seq_entries q = take ?l (seq_entries q) @ [ms_mappings q ?l]"
      using n take_Suc_conv_app_nth [of ?l "seq_entries q"] by simp
    then obtain m where m: "contig (ms_begin q) (take ?l (seq_entries q)) m" "contig m [ms_mappings q ?l] (ms_end q)"
      using c contig_append [of "ms_begin q" "take ?l (seq_entries q)"] by metis
    have "(seq_entries q)[?l := e] = take ?l (seq_entries q) @ [e]"
      by (subst E) (use n in \<open>simp add: list_update_append min_def\<close>)
    then have "seq_entries q' = take ?l (seq_entries q) @ [e]" by (simp add: q'_def entries_set_mapping)
    then have "seq_ok q'"
      using ok n m by (auto simp: seq_ok_def q'_def set_mapping_def contig_append e_def)
    then show ?thesis using g by (simp add: q'_def set_mapping_def)
  qed
qed

lemma brk_follows_ok:
  assumes "pi_inv s" "b = brk_mapping_bigalloc s" "z = ROUND_UP cur PAGE_SIZE"
    and "fits s b (bgn s b) z" "bgn s b \<le> ROUND_DOWN (min (en s b) z) PAGE_SIZE"
    and "p = allocator_private (big_allocations s b)" "p \<noteq> 0"
    and "seq_ok (seqs s p)" "spare_ok (seqs s p)" "en s b < z \<Longrightarrow> \<not> sequence_full (seqs s p)"
    and "ms_begin (seqs s p) = bgn s b" "ms_end (seqs s p) = en s b"
  shows "\<exists>s'. mmap_notify_brk cur s = Inr s' \<and> pi_inv s' \<and> bgn s' b = bgn s b \<and> en s' b = z \<and>
    seq_ok (seqs s' p) \<and> ms_begin (seqs s' p) = bgn s b \<and> ms_end (seqs s' p) = z"
proof -
  have b: "b \<noteq> 0" "bgn s b < z" using assms(1,4) used_bounds(1) [of s b] by (auto simp: fits_def pi_inv_def)
  consider "z > en s b" | "z < en s b" | "z = en s b" by linarith
  then show ?thesis
  proof cases
    case 1
    obtain s1 where s1: "adjust_bigalloc_end b z s = Inr s1" "pi_inv s1" "rebounded s b (bgn s b) z s1"
      using adjust_end_ok [OF assms(1,4,5)] by blast
    obtain ix where ix: "s1 = (upd b (\<lambda>r. r\<lparr>ba_begin := bgn s b, ba_end := z\<rparr>) s)\<lparr>pageindex := ix\<rparr>"
      using s1(3) by (auto simp: rebounded_def)
    obtain q where q: "grow_sequence z (seqs s p) = Inr q" "seq_ok q" "ms_begin q = bgn s b" "ms_end q = z"
      using grow_sequence_ok [OF assms(8) _, of z] 1 assms(10-12) by auto
    have "mmap_notify_brk cur s = Inr (s1\<lparr>seqs := (seqs s1)(p := q)\<rparr>)"
      using 1 b s1(1) q(1) assms(2,3,6,7) by (auto simp: mmap_notify_brk_def Let_def ix upd_def)
    moreover have "pi_inv (s1\<lparr>seqs := (seqs s1)(p := q)\<rparr>)" by (rule same_shape_inv [OF same_shape_seqs s1(2)])
    ultimately show ?thesis using q by (simp add: ix upd_def)
  next
    case 2
    obtain q where q: "delete_mapping_sequence_span (seqs s p) z (en s b - z) = Inr q" "seq_ok q"
      "ms_begin q = bgn s b" "ms_end q = z"
      using delete_span_ok [OF assms(8,9), of z "en s b - z"] 2 b assms(11,12) by auto
    define s0 where "s0 = s\<lparr>seqs := (seqs s)(p := q)\<rparr>"
    have f: "bgn s0 i = bgn s i" "en s0 i = en s i" for i by (simp_all add: s0_def)
    have s0: "pi_inv s0" "fits s0 b (bgn s0 b) z" "bgn s0 b \<le> ROUND_DOWN (min (en s0 b) z) PAGE_SIZE"
      using same_shape_inv [OF same_shape_seqs assms(1)] assms(4,5)
      by (simp_all add: s0_def fits_def BIGALLOC_IN_USE_def)
    obtain s1 where s1: "adjust_bigalloc_end b z s0 = Inr s1" "pi_inv s1" "rebounded s0 b (bgn s0 b) z s1"
      using adjust_end_ok [OF s0] by blast
    obtain ix where ix: "s1 = (upd b (\<lambda>r. r\<lparr>ba_begin := bgn s0 b, ba_end := z\<rparr>) s0)\<lparr>pageindex := ix\<rparr>"
      using s1(3) by (auto simp: rebounded_def)
    have "mmap_notify_brk cur s = Inr s1"
      using 2 b s1(1) q(1) assms(2,3,6,7) by (auto simp: mmap_notify_brk_def Let_def s0_def)
    then show ?thesis using s1(2) q by (simp add: ix upd_def s0_def)
  next
    case 3
    then have "mmap_notify_brk cur s = Inr s" using assms(2,3) b by (simp add: mmap_notify_brk_def Let_def)
    then show ?thesis using 3 assms by auto
  qed
qed

text \<open>
  C21. When the program break moves, the mapping under it follows: its allocation and its
  mapping sequence both end at the break rounded up to a page, the sequence stays contiguous and the
  page index consistent, provided the new range is free and the sequence has an entry to spare.
\<close>

theorem brk_mapping_follows:
  assumes "pi_inv s" "b = brk_mapping_bigalloc s" "z = ROUND_UP cur PAGE_SIZE"
    and "fits s b (bgn s b) z" "bgn s b \<le> ROUND_DOWN (min (en s b) z) PAGE_SIZE"
    and "p = allocator_private (big_allocations s b)" "p \<noteq> 0"
    and "seq_ok (seqs s p)" "spare_ok (seqs s p)" "ms_nused (seqs s p) < MAPPING_SEQUENCE_MAX_LEN"
    and "ms_begin (seqs s p) = bgn s b" "ms_end (seqs s p) = en s b"
  shows "\<exists>s'. mmap_notify_brk cur s = Inr s' \<and> pi_inv s' \<and> bgn s' b = bgn s b \<and> en s' b = z \<and>
    seq_ok (seqs s' p) \<and> ms_begin (seqs s' p) = bgn s b \<and> ms_end (seqs s' p) = z"
  using brk_follows_ok [OF assms(1-9) _ assms(11,12)] assms(10) by (auto simp: sequence_full_def)

text \<open>
  Under the hypotheses of a consistent page index and a contiguous sequence with the bounds of the mapping
  under the program break, following the break writes past the end of the sequence's array in
  exactly one case: the break grows past the mapping, all entries of the sequence are used and the last
  one is not anonymous.
\<close>

lemma brk_growth_overflows:
  assumes "pi_inv s" "b = brk_mapping_bigalloc s" "z = ROUND_UP cur PAGE_SIZE"
    and "fits s b (bgn s b) z" "bgn s b \<le> ROUND_DOWN (min (en s b) z) PAGE_SIZE"
    and "p = allocator_private (big_allocations s b)" "p \<noteq> 0"
    and "seq_ok (seqs s p)" "spare_ok (seqs s p)"
    and "ms_begin (seqs s p) = bgn s b" "ms_end (seqs s p) = en s b"
  shows "mmap_notify_brk cur s = Inl Out_Of_Bounds \<longleftrightarrow>
    en s b < z \<and> ms_nused (seqs s p) = MAPPING_SEQUENCE_MAX_LEN \<and>
    \<not> me_is_anon (ms_mappings (seqs s p) (MAPPING_SEQUENCE_MAX_LEN - 1))"
proof -
  have "mmap_notify_brk cur s = Inl Out_Of_Bounds" if "en s b < z" "sequence_full (seqs s p)"
  proof -
    obtain s1 where s1: "adjust_bigalloc_end b z s = Inr s1" "rebounded s b (bgn s b) z s1"
      using adjust_end_ok [OF assms(1,4,5)] by blast
    have "b \<noteq> 0" using assms(1,4) used_bounds(1) [of s b] by (auto simp: fits_def pi_inv_def)
    moreover have "allocator_private (big_allocations s1 b) = p" "seqs s1 p = seqs s p"
      using s1(2) assms(6) by (auto simp: rebounded_def upd_def)
    moreover have "grow_sequence z (seqs s p) = Inl Out_Of_Bounds"
      using that(2) by (simp add: grow_sequence_def sequence_full_def MAPPING_SEQUENCE_MAX_LEN_def)
    ultimately show ?thesis
      using that(1) s1(1) assms(2,3,7) by (simp add: mmap_notify_brk_def Let_def)
  qed
  moreover have "mmap_notify_brk cur s \<noteq> Inl Out_Of_Bounds" if "en s b < z \<Longrightarrow> \<not> sequence_full (seqs s p)"
    using brk_follows_ok [OF assms(1-9) that assms(10,11)] by auto
  ultimately show ?thesis unfolding sequence_full_def by blast
qed

section \<open>An example\<close>

definition ex_alloc :: alloc_state where
  "ex_alloc = \<lparr>big_allocations = ex_slots, pageindex = ex_index, nommap_bigalloc = 1,
     systrap_is_initialized = True, freed = [], biggest_sane = 4294967296,
     seqs = (\<lambda>_. empty_sequence), brk_mapping_bigalloc = 0, executable_end_addr = 0,
     executable_data_segment_start_addr = 0, mmap_initialized = True, curbrk = 0, last_caller = 0,
     brk_bigalloc = 0, brk_initialized = False, brk_trying_to_initialize = False,
     stack_lim_cur = 8388608, stack_lim_max = RLIM_INFINITY, stack_initialized = True,
     initial_stack_bigalloc = 0, auxv_bigalloc = 0, top_of_initial_stack = 0\<rparr>"

definition ex_env :: env where
  "ex_env = \<lparr>e_hooks = no_hooks, e_malloc = (\<lambda>_. 77), e_object_below = (\<lambda>_. 0), e_readlink = (\<lambda>_. ''/lib/a''),
     e_auxv = \<lparr>auxv_array_start = 0, auxv_array_terminator = 0, argv_vector_start = 0, argv_vector_terminator = 0,
       env_vector_start = 0, env_vector_terminator = 0, auxv_asciiz_start = 0, auxv_asciiz_end = 0,
       auxv_program_argcountp = 0, program_entry_point = 0\<rparr>\<rparr>"

lemma ex_alloc_shape: "same_shape ex_state ex_alloc"
  by (simp add: same_shape_def ex_alloc_def ex_state_def)

lemma ex_alloc_inv: "pi_inv ex_alloc"
  by (rule same_shape_inv [OF ex_alloc_shape ex_inv])

lemma ex_alloc_used: "used ex_alloc i \<longleftrightarrow> i = 1 \<or> i = 2 \<or> i = 3 \<or> i = 4"
  using same_shape_used [OF ex_alloc_shape] ex_used by simp

text \<open>
  A running program: the third allocation is the brk area, up to the break, and the fourth one the
  initial stack; the program's own handlers are installed.
\<close>

definition ex_live :: alloc_state where
  "ex_live = ex_alloc\<lparr>brk_mapping_bigalloc := 2, brk_bigalloc := 3, brk_initialized := True,
     curbrk := en ex_state 3, initial_stack_bigalloc := 4\<rparr>"

definition live_env :: env where
  "live_env = ex_env\<lparr>e_hooks := model_hooks (\<lambda>n s. (curbrk s, s\<lparr>curbrk := curbrk s + n\<rparr>)) 0 Inr\<rparr>"

lemma ex_live_shape: "same_shape ex_state ex_live"
  by (simp add: same_shape_def ex_live_def ex_alloc_def ex_state_def)

lemma ex_live_passes: "break_recorded ex_live" "262144 \<le> x \<Longrightarrow> away_from_stack ex_live x"
  by (auto simp: break_recorded_def away_from_stack_def stack_claims_def ex_live_def ex_alloc_def ex_state_def
      ex_slots_def ex_slot_def empty_bigalloc_def Let_def)

theorem mmap_munmap_roundtrip_witness:
  "\<exists>s1 s2. do_mmap live_env 262144 5000 3 34 None 0 0 ex_live = Inr s1 \<and> do_munmap live_env 262144 5000 s1 = Inr s2 \<and>
     pi_inv s2 \<and> pageindex s2 = ex_index \<and> freed s2 = [(1, 77)]"
proof -
  note u = same_shape_used [OF ex_live_shape, unfolded ex_used]
  have c: "clear_range ex_live 262144 8192"
    unfolding clear_range_def u by (simp add: ex_live_def ex_alloc_def ex_slots_def ex_slot_def)
  have l: "8192 = ROUND_UP 5000 PAGE_SIZE" by (simp add: ROUND_UP_def PAGE_SIZE_def)
  have k: "\<not> used ex_live 5" "0 < (5::nat)" "5 < NBIGALLOCS" by (simp_all add: u NBIGALLOCS_def)
  have f: "systrap_is_initialized ex_live" "big_allocations ex_live 0 = empty_bigalloc" "8192 \<le> biggest_sane ex_live"
    "pageindex ex_live = ex_index" "freed ex_live = []" "e_malloc live_env ex_live = 77"
    by (simp_all add: ex_live_def ex_alloc_def ex_slots_def live_env_def ex_env_def)
  have n: "0 < (8192 :: nat)" "0 < (262144 :: nat)" "262144 + 8192 < (2 :: nat) ^ 64" "4096 dvd (262144 :: nat)"
    "e_malloc live_env ex_live \<noteq> 0" "262144 \<le> (262144 :: nat)" "262144 \<le> 262144 + 8192 - (1 :: nat)"
    using f(6) by (simp_all add: dvd_eq_mod_eq_0)
  have h: "e_hooks live_env = model_hooks (\<lambda>n s. (curbrk s, s\<lparr>curbrk := curbrk s + n\<rparr>)) 0 Inr"
    "(\<lambda>n s. (curbrk s, s\<lparr>curbrk := curbrk s + n\<rparr>)) 0 s = (curbrk s, s)" for s :: alloc_state
    by (simp_all add: live_env_def)
  obtain s1 s2 where "do_mmap live_env 262144 5000 3 34 None 0 0 ex_live = Inr s1" "do_munmap live_env 262144 5000 s1 = Inr s2"
    "pi_inv s2" "pageindex s2 = pageindex ex_live" "freed s2 = freed ex_live @ [(private_nommap_free, e_malloc live_env ex_live)]"
    using mmap_munmap_roundtrip [OF same_shape_inv [OF ex_live_shape ex_inv] f(1,2) k l n(1-3) f(3) n(4) c
      h(1) h(2) ex_live_passes(1) ex_live_passes(2) [OF n(6)] ex_live_passes(2) [OF n(7)] n(5), of 3 34 None 0 0] by blast
  then show ?thesis unfolding f(4-6) private_nommap_free_def append_Nil by blast
qed

text \<open>The same state with the second allocation under the program break.\<close>

definition ex_brk :: "mapping_sequence \<Rightarrow> alloc_state" where
  "ex_brk q = upd 2 (\<lambda>r. r\<lparr>allocator_private := 77\<rparr>) (ex_alloc\<lparr>seqs := (\<lambda>_. q), brk_mapping_bigalloc := 2\<rparr>)"

definition brk_seq :: mapping_sequence where
  "brk_seq = \<lparr>ms_begin = 65536, ms_end = 131072, ms_filename = None, ms_nused = 1,
     ms_mappings = (\<lambda>_. null_entry)(0 := new_entry 65536 131072 3 34 0 None 0)\<rparr>"

lemma ex_brk_shape: "same_shape ex_state (ex_brk q)"
  by (simp add: same_shape_def ex_brk_def upd_def ex_alloc_def ex_state_def)

lemma ex_brk_fields:
  "brk_mapping_bigalloc (ex_brk q) = 2" "bgn (ex_brk q) 2 = 65536" "en (ex_brk q) 2 = 131072"
  "allocator_private (big_allocations (ex_brk q) 2) = 77" "seqs (ex_brk q) 77 = q"
  by (simp_all add: ex_brk_def upd_def ex_alloc_def ex_slots_def ex_slot_def)

lemma ex_brk_fits: "fits (ex_brk q) 2 (bgn (ex_brk q) 2) 135168"
  using ex_brk_shape [of q] unfolding fits_def same_shape_used [OF ex_brk_shape] ex_used
  by (auto simp: same_shape_def ex_fields dvd_eq_mod_eq_0 split: if_splits)

lemma ex_brk_adjust:
  "pi_inv (ex_brk q)" "135168 = ROUND_UP 131073 PAGE_SIZE"
  "bgn (ex_brk q) 2 \<le> ROUND_DOWN (min (en (ex_brk q) 2) 135168) PAGE_SIZE"
  using same_shape_inv [OF ex_brk_shape ex_inv, of q]
  by (simp_all add: ex_brk_fields ROUND_UP_def ROUND_DOWN_def PAGE_SIZE_def)

lemma brk_seq_ok: "seq_ok brk_seq" "spare_ok brk_seq"
proof -
  have "seq_entries brk_seq = [new_entry 65536 131072 3 34 0 None 0]" by (simp add: seq_entries_def brk_seq_def)
  then show "seq_ok brk_seq" by (rule single_seq_ok(1)) (simp_all add: brk_seq_def)
  show "spare_ok brk_seq" by (simp add: spare_ok_def brk_seq_def MAPPING_SEQUENCE_MAX_LEN_def list_all_iff)
qed

theorem brk_mapping_follows_witness:
  "\<exists>s'. mmap_notify_brk 131073 (ex_brk brk_seq) = Inr s' \<and> en s' 2 = 135168 \<and> seq_ok (seqs s' 77) \<and>
     ms_end (seqs s' 77) = 135168"
proof -
  have "2 = brk_mapping_bigalloc (ex_brk brk_seq)" "77 = allocator_private (big_allocations (ex_brk brk_seq) 2)"
    by (simp_all add: ex_brk_fields)
  note * = brk_mapping_follows [OF ex_brk_adjust(1) this(1) ex_brk_adjust(2) ex_brk_fits ex_brk_adjust(3) this(2)]
  show ?thesis
    using * brk_seq_ok by (fastforce simp: ex_brk_fields brk_seq_def MAPPING_SEQUENCE_MAX_LEN_def)
qed

text \<open>A full sequence of eight segments of a file.\<close>

definition full_seq :: mapping_sequence where
  "full_seq = \<lparr>ms_begin = 65536, ms_end = 131072, ms_filename = Some ''/bin/a'', ms_nused = 8,
     ms_mappings = (\<lambda>i. if i < 8
       then new_entry (65536 + 8192 * i) (65536 + 8192 * (i + 1)) 5 2 (8192 * int i) (Some ''/bin/a'') 0
       else null_entry)\<rparr>"

lemma full_seq_fields:
  "ms_begin full_seq = 65536" "ms_end full_seq = 131072" "ms_nused full_seq = MAPPING_SEQUENCE_MAX_LEN"
  "\<not> me_is_anon (ms_mappings full_seq (MAPPING_SEQUENCE_MAX_LEN - 1))"
  by (simp_all add: full_seq_def MAPPING_SEQUENCE_MAX_LEN_def new_entry_def)

lemma full_seq_ok: "seq_ok full_seq" "spare_ok full_seq"
proof -
  have "[0..<8] = [0, 1, 2, 3, 4, 5, 6, 7 :: nat]" by (simp add: upt_rec)
  then have "seq_entries full_seq = map (\<lambda>i. new_entry (65536 + 8192 * i) (65536 + 8192 * (i + 1)) 5 2
      (8192 * int i) (Some ''/bin/a'') 0) [0, 1, 2, 3, 4, 5, 6, 7]"
    by (simp add: seq_entries_def full_seq_def)
  then show "seq_ok full_seq"
    by (simp add: seq_ok_def full_seq_fields MAPPING_SEQUENCE_MAX_LEN_def new_entry_def)
  show "spare_ok full_seq" by (simp add: spare_ok_def full_seq_def MAPPING_SEQUENCE_MAX_LEN_def)
qed

lemma full_sequence_overflows:
  "mmap_notify_brk 131073 (ex_brk full_seq) = Inl Out_Of_Bounds"
proof -
  have "2 = brk_mapping_bigalloc (ex_brk full_seq)" "77 = allocator_private (big_allocations (ex_brk full_seq) 2)"
    by (simp_all add: ex_brk_fields)
  note * = brk_growth_overflows [OF ex_brk_adjust(1) this(1) ex_brk_adjust(2) ex_brk_fits ex_brk_adjust(3) this(2)]
  show ?thesis using * full_seq_ok by (simp add: ex_brk_fields full_seq_fields del: One_nat_def)
qed

end
