(* ===== verification/Allocsites.thy ===== *)
theory Allocsites
  imports Pageindex "HOL-Library.Word"
begin

text \<open>
  Allocation sites (\<open>src/allocsites.c\<close>, \<open>include/allocsites.h\<close>) and the lists of
  addresses that record unrecognised ones (\<open>src/addrlist.c\<close>).  Every loaded file may come with an array of
  site entries, sorted by address; the files are numbered through a spine of such
  arrays, so that every site has a 16-bit identifier.

  A pointer to a spine entry is its index.  The entries of the files, and the metadata
  records of the files, are memory indexed by address.  Symbol lookup and binary search come
  from librunt and the layout of a site entry from libuniqtype; they are the fields
  of \<open>sites_env\<close>.
\<close>

section \<open>Lists of addresses\<close>

text \<open>\<open>addrs\<close> has \<open>allocsz\<close> elements, the first \<open>al_count\<close> of which are in use.\<close>

record addrlist =
  al_count :: nat
  al_allocsz :: nat
  al_addrs :: "addr list"

fun contains_from :: "addrlist \<Rightarrow> addr \<Rightarrow> nat \<Rightarrow> nat \<Rightarrow> nat" where
  "contains_from l a i 0 = 0"
| "contains_from l a i (Suc n) = (if al_addrs l ! i = a then 1 + i else contains_from l a (i + 1) n)"

definition addrlist_contains :: "addrlist \<Rightarrow> addr \<Rightarrow> nat" where
  "addrlist_contains l a = contains_from l a 0 (al_count l)"

text \<open>
  \<open>realloc\<close> gives the contents the grown array has past the old ones, or \<open>None\<close>
  when it fails; the code writes through the null pointer then.
\<close>

definition addrlist_add :: "(nat \<Rightarrow> addr list option) \<Rightarrow> addrlist \<Rightarrow> addr \<Rightarrow> addrlist res" where
  "addrlist_add realloc l a =
     rbind (if al_count l = al_allocsz l then
              let allocsz = (al_allocsz l + 1) * 2 in
              case realloc (allocsz - al_allocsz l) of
                None \<Rightarrow> Inl Null_Deref
              | Some fresh \<Rightarrow> Inr (l\<lparr>al_allocsz := allocsz, al_addrs := al_addrs l @ fresh\<rparr>)
            else Inr l) (\<lambda>l.
       Inr (l\<lparr>al_addrs := (al_addrs l)[al_count l := a], al_count := al_count l + 1\<rparr>))"

section \<open>State\<close>

type_synonym allocsite_id_t = "16 word"

record allocsite_entry =
  allocsite_vaddr :: nat
  entry_uniqtype :: nat

text \<open>\<open>struct allocsites_vectors_by_base_id_entry\<close>.\<close>

record base_id_entry =
  start_id :: allocsite_id_t
  site_count :: allocsite_id_t
  file_base_addr :: addr
  entries_ptr :: addr

definition ALLOCSITES_INDEX_SIZE :: nat where
  "ALLOCSITES_INDEX_SIZE = 256"

text \<open>The fields of \<open>struct allocs_file_metadata\<close> that are used here; \<open>allocsites_info\<close> is \<open>None\<close> when null.\<close>

record file_metadata =
  meta_obj_handle :: nat
  allocsites_info :: "nat option"
  l_addr :: addr

record sites_state = pi_state +
  allocsites_vectors_by_base_id :: "nat \<Rightarrow> base_id_entry"
  id_entry_slot_next_free :: allocsite_id_t
  files :: "addr \<Rightarrow> file_metadata"
  site_entries :: "addr \<Rightarrow> allocsite_entry"

text \<open>
  \<open>find_allocsites\<close>: the address and size of the symbol \<open>allocsites\<close> of a
  metadata object.  \<open>bsearch_leq key n target\<close>: the index the binary search for
  \<open>target\<close> gives in an array of \<open>n\<close> elements with the given keys.
\<close>

record sites_env =
  find_allocsites :: "nat \<Rightarrow> (addr \<times> nat) option"
  sizeof_allocsite_entry :: nat
  bsearch_leq :: "(nat \<Rightarrow> nat) \<Rightarrow> nat \<Rightarrow> nat \<Rightarrow> nat option"

section \<open>Operations\<close>

definition init_allocsites_info :: "sites_env \<Rightarrow> addr \<Rightarrow> 'a sites_state_scheme \<Rightarrow>
    'a sites_state_scheme res" where
  "init_allocsites_info env file s =
     (if meta_obj_handle (files s file) = 0 then Inr s
      else case find_allocsites env (meta_obj_handle (files s file)) of
        None \<Rightarrow> Inr s
      | Some (first_entry, st_size) \<Rightarrow>
          let slot_pos = unat (id_entry_slot_next_free s);
              s = s\<lparr>id_entry_slot_next_free := id_entry_slot_next_free s + 1\<rparr>
          in if slot_pos > ALLOCSITES_INDEX_SIZE then Inl Abort
             else
               let prev = allocsites_vectors_by_base_id s (slot_pos - 1);
                   start = (if slot_pos = 0 then 0 else start_id prev + site_count prev)
               in if slot_pos \<noteq> 0 \<and> start < start_id prev then Inl Abort
                  else if slot_pos \<ge> ALLOCSITES_INDEX_SIZE then Inl Out_Of_Bounds
                  else Inr (s\<lparr>allocsites_vectors_by_base_id := (allocsites_vectors_by_base_id s)
                                (slot_pos := \<lparr>start_id = start,
                                   site_count = of_nat (st_size div sizeof_allocsite_entry env),
                                   file_base_addr = l_addr (files s file),
                                   entries_ptr = first_entry\<rparr>),
                              files := (files s)(file := (files s file)\<lparr>allocsites_info := Some slot_pos\<rparr>)\<rparr>))"

text \<open>\<open>get_file\<close> gives the address of the file's metadata, 0 if there is none.\<close>

definition get_file :: "'a sites_state_scheme hooks \<Rightarrow> addr \<Rightarrow> 'a sites_state_scheme \<Rightarrow>
    (addr \<times> 'a sites_state_scheme) res" where
  "get_file hk allocsite s =
     rbind (lookup_bigalloc_from_root hk allocsite A_static_file s) (\<lambda>(file_bigalloc, s).
       if file_bigalloc = 0 then Inr (0, s)
       else Inr (allocator_private (big_allocations s file_bigalloc), s))"

text \<open>The element at an index of an array of entries.\<close>

definition entry_at :: "sites_env \<Rightarrow> addr \<Rightarrow> nat \<Rightarrow> addr" where
  "entry_at env ptr i = ptr + i * sizeof_allocsite_entry env"

definition find_allocsite_entry_at :: "sites_env \<Rightarrow> 'a sites_state_scheme hooks \<Rightarrow> addr \<Rightarrow>
    'a sites_state_scheme \<Rightarrow> (addr option \<times> 'a sites_state_scheme) res" where
  "find_allocsite_entry_at env hk allocsite s =
     rbind (get_file hk allocsite s) (\<lambda>(file, s).
       if file = 0 then Inr (None, s)
       else
         let vaddr = unsigned_sub allocsite (l_addr (files s file)) in
         case allocsites_info (files s file) of
           None \<Rightarrow> Inr (None, s)
         | Some k \<Rightarrow>
             let info = allocsites_vectors_by_base_id s k in
             Inr (map_option (entry_at env (entries_ptr info))
                    (bsearch_leq env (\<lambda>i. allocsite_vaddr (site_entries s (entry_at env (entries_ptr info) i)))
                       (unat (site_count info)) vaddr), s))"

definition allocsite_id :: "sites_env \<Rightarrow> 'a sites_state_scheme hooks \<Rightarrow> addr \<Rightarrow>
    'a sites_state_scheme \<Rightarrow> (allocsite_id_t \<times> 'a sites_state_scheme) res" where
  "allocsite_id env hk allocsite s =
     rbind (get_file hk allocsite s) (\<lambda>(file, s).
       if file = 0 then Inr (0, s)
       else
         rbind (find_allocsite_entry_at env hk allocsite s) (\<lambda>(found_entry, s).
           case found_entry of
             None \<Rightarrow> Inr (- 1, s)
           | Some e \<Rightarrow>
               (case allocsites_info (files s file) of
                  None \<Rightarrow> Inl Null_Deref
                | Some k \<Rightarrow>
                    let info = allocsites_vectors_by_base_id s k in
                    Inr (start_id info +
                         of_nat ((e - entries_ptr info) div sizeof_allocsite_entry env), s))))"

definition allocsite_entry_by_id :: "sites_env \<Rightarrow> allocsite_id_t \<Rightarrow> 'a sites_state_scheme \<Rightarrow>
    (addr \<times> addr) option" where
  "allocsite_entry_by_id env i s =
     (case bsearch_leq env (\<lambda>k. unat (start_id (allocsites_vectors_by_base_id s k)))
             (unat (id_entry_slot_next_free s)) (unat i) of
        None \<Rightarrow> None
      | Some k \<Rightarrow>
          let found_id_entry = allocsites_vectors_by_base_id s k in
          Some (entry_at env (entries_ptr found_id_entry) (unat i - unat (start_id found_id_entry)),
                file_base_addr found_id_entry))"

definition allocsite_by_id :: "sites_env \<Rightarrow> allocsite_id_t \<Rightarrow> 'a sites_state_scheme \<Rightarrow> addr option" where
  "allocsite_by_id env i s =
     (case allocsite_entry_by_id env i s of
        None \<Rightarrow> None
      | Some (entry, base) \<Rightarrow> Some (base + allocsite_vaddr (site_entries s entry)))"

section \<open>The list of addresses is a list\<close>

definition addrlist_ok :: "addrlist \<Rightarrow> bool" where
  "addrlist_ok l \<longleftrightarrow> al_count l \<le> al_allocsz l \<and> length (al_addrs l) = al_allocsz l"

definition addrlist_list :: "addrlist \<Rightarrow> addr list" where
  "addrlist_list l = take (al_count l) (al_addrs l)"

lemma contains_from_iff:
  "contains_from l a i n \<noteq> 0 \<longleftrightarrow> (\<exists>j<n. al_addrs l ! (i + j) = a)"
  by (induction n arbitrary: i) (auto simp: Ex_less_Suc2)

lemma addrlist_contains_iff:
  "addrlist_ok l \<Longrightarrow> addrlist_contains l a \<noteq> 0 \<longleftrightarrow> a \<in> set (addrlist_list l)"
  unfolding addrlist_contains_def contains_from_iff addrlist_ok_def addrlist_list_def
  by (auto simp: in_set_conv_nth)

lemma addrlist_add_ok:
  assumes "addrlist_ok l" "\<And>n. \<exists>ys. realloc n = Some ys \<and> length ys = n"
  obtains l' where "addrlist_add realloc l a = Inr l'" "addrlist_ok l'"
    "addrlist_list l' = addrlist_list l @ [a]"
proof -
  obtain ys where ys: "realloc ((al_allocsz l + 1) * 2 - al_allocsz l) = Some ys"
    "length ys = (al_allocsz l + 1) * 2 - al_allocsz l" using assms(2) by blast
  define l0 where "l0 = (if al_count l = al_allocsz l
    then l\<lparr>al_allocsz := (al_allocsz l + 1) * 2, al_addrs := al_addrs l @ ys\<rparr> else l)"
  have l0: "al_count l0 = al_count l" "al_count l < al_allocsz l0" "length (al_addrs l0) = al_allocsz l0"
    "take (al_count l) (al_addrs l0) = addrlist_list l"
    using assms(1) ys(2) by (auto simp: l0_def addrlist_ok_def addrlist_list_def)
  have "addrlist_add realloc l a =
      Inr (l0\<lparr>al_addrs := (al_addrs l0)[al_count l0 := a], al_count := al_count l0 + 1\<rparr>)"
    using ys(1) by (simp add: addrlist_add_def l0_def Let_def)
  then show ?thesis
    using l0 by (elim that) (auto simp: addrlist_ok_def addrlist_list_def take_Suc_conv_app_nth)
qed

end
