(* ===== verification/Allocsites_Correct.thy ===== *)
theory Allocsites_Correct
  imports Allocsites Pageindex_Lookup
begin

text \<open>
  Identifiers of allocation sites: registering a file keeps the spine contiguous, and
  within it the identifier of a site leads back to the site.
\<close>

section \<open>The contract of the binary search\<close>

text \<open>
  In an array with ascending keys the search gives the last element whose key is
  not above the target, and nothing if all keys are.
\<close>

definition bsearch_law :: "sites_env \<Rightarrow> bool" where
  "bsearch_law env \<longleftrightarrow> (\<forall>key n t. (\<forall>i j. i < j \<and> j < n \<longrightarrow> key i \<le> key j) \<longrightarrow>
     (case bsearch_leq env key n t of
        None \<Rightarrow> \<forall>i<n. t < key i
      | Some k \<Rightarrow> k < n \<and> key k \<le> t \<and> (\<forall>i. k < i \<and> i < n \<longrightarrow> t < key i)))"

lemma bsearch_found:
  assumes "bsearch_law env" "\<And>i j. i < j \<Longrightarrow> j < n \<Longrightarrow> key i \<le> key j"
    "k < n" "key k \<le> t" "\<And>i. k < i \<Longrightarrow> i < n \<Longrightarrow> t < key i"
  shows "bsearch_leq env key n t = Some k"
proof -
  have "case bsearch_leq env key n t of
      None \<Rightarrow> \<forall>i<n. t < key i
    | Some k \<Rightarrow> k < n \<and> key k \<le> t \<and> (\<forall>i. k < i \<and> i < n \<longrightarrow> t < key i)"
    using assms(1,2) unfolding bsearch_law_def by blast
  then show ?thesis
  proof (cases "bsearch_leq env key n t")
    case (Some m)
    then have m: "m < n" "key m \<le> t" "\<And>i. m < i \<Longrightarrow> i < n \<Longrightarrow> t < key i"
      using \<open>case bsearch_leq env key n t of None \<Rightarrow> _ | Some k \<Rightarrow> _ k\<close> by auto
    have "m = k"
      using m(3) [of k] assms(5) [of m] assms(3,4) m(1,2) by (meson leD linorder_neqE_nat)
    then show ?thesis using Some by simp
  qed (use assms(3,4) in auto)
qed

section \<open>The spine\<close>

abbreviation slots :: "'a sites_state_scheme \<Rightarrow> nat" where
  "slots s \<equiv> unat (id_entry_slot_next_free s)"

abbreviation first_id :: "'a sites_state_scheme \<Rightarrow> nat \<Rightarrow> nat" where
  "first_id s k \<equiv> unat (start_id (allocsites_vectors_by_base_id s k))"

abbreviation n_sites :: "'a sites_state_scheme \<Rightarrow> nat \<Rightarrow> nat" where
  "n_sites s k \<equiv> unat (site_count (allocsites_vectors_by_base_id s k))"

definition spine_ok :: "'a sites_state_scheme \<Rightarrow> bool" where
  "spine_ok s \<longleftrightarrow> slots s \<le> ALLOCSITES_INDEX_SIZE \<and> (slots s > 0 \<longrightarrow> first_id s 0 = 0) \<and>
     (\<forall>k. Suc k < slots s \<longrightarrow> first_id s (Suc k) = first_id s k + n_sites s k)"

lemma first_id_mono:
  assumes "spine_ok s" "j \<le> k" "k < slots s"
  shows "first_id s j \<le> first_id s k"
  using assms(2,3)
proof (induction k)
  case (Suc k)
  then have "first_id s (Suc k) = first_id s k + n_sites s k"
    using assms(1) unfolding spine_ok_def by blast
  then show ?case using Suc by (cases "j = Suc k") auto
qed simp

lemma first_id_past:
  assumes "spine_ok s" "k < m" "m < slots s"
  shows "first_id s k + n_sites s k \<le> first_id s m"
proof -
  have "first_id s (Suc k) = first_id s k + n_sites s k"
    using assms unfolding spine_ok_def by (meson Suc_leI le_less_trans)
  moreover have "first_id s (Suc k) \<le> first_id s m"
    using assms by (intro first_id_mono) auto
  ultimately show ?thesis by simp
qed

section \<open>Registered files\<close>

abbreviation site_vaddr :: "sites_env \<Rightarrow> 'a sites_state_scheme \<Rightarrow> nat \<Rightarrow> nat \<Rightarrow> nat" where
  "site_vaddr env s k i \<equiv>
     allocsite_vaddr (site_entries s (entry_at env (entries_ptr (allocsites_vectors_by_base_id s k)) i))"

text \<open>File \<open>f\<close> is in slot \<open>k\<close>, its sites are sorted and their identifiers fit 16 bits.\<close>

definition registered :: "sites_env \<Rightarrow> 'a sites_state_scheme \<Rightarrow> addr \<Rightarrow> nat \<Rightarrow> bool" where
  "registered env s f k \<longleftrightarrow> f \<noteq> 0 \<and> allocsites_info (files s f) = Some k \<and> k < slots s \<and>
     file_base_addr (allocsites_vectors_by_base_id s k) = l_addr (files s f) \<and>
     first_id s k + n_sites s k \<le> 2 ^ 16 \<and>
     (\<forall>i j. i < j \<and> j < n_sites s k \<longrightarrow> site_vaddr env s k i < site_vaddr env s k j)"

lemma unsigned_sub_add: "x < 2 ^ 64 \<Longrightarrow> b \<le> x \<Longrightarrow> unsigned_sub x b = x - b"
  unfolding unsigned_sub_def by (metis Nat.add_diff_assoc2 add.commute less_imp_diff_less mod_add_self2 mod_less)

lemma find_entry_of_site:
  assumes "bsearch_law env" "registered env s f k" "get_file hk x s = Inr (f, s)"
    "i < n_sites s k" "x = l_addr (files s f) + site_vaddr env s k i" "x < 2 ^ 64"
  shows "find_allocsite_entry_at env hk x s =
    Inr (Some (entry_at env (entries_ptr (allocsites_vectors_by_base_id s k)) i), s)"
proof -
  have "unsigned_sub x (l_addr (files s f)) = site_vaddr env s k i"
    using assms(5,6) by (subst unsigned_sub_add) auto
  moreover have "bsearch_leq env (site_vaddr env s k) (n_sites s k) (site_vaddr env s k i) = Some i"
    using assms(2,4) unfolding registered_def
    by (intro bsearch_found [OF assms(1)]) (auto intro: less_imp_le)
  ultimately show ?thesis
    using assms(2,3) by (simp add: find_allocsite_entry_at_def registered_def Let_def)
qed

lemma unat_id:
  assumes "registered env s f k" "i < n_sites s k"
  shows "unat (start_id (allocsites_vectors_by_base_id s k) + of_nat i) = first_id s k + i"
proof -
  have "first_id s k + i < 2 ^ 16" using assms unfolding registered_def by linarith
  then show ?thesis by (simp add: unat_word_ariths unsigned_of_nat take_bit_eq_mod)
qed

lemma slot_of_id:
  assumes "bsearch_law env" "spine_ok s" "k < slots s" "i < n_sites s k"
  shows "bsearch_leq env (first_id s) (slots s) (first_id s k + i) = Some k"
proof (rule bsearch_found [OF assms(1)])
  show "first_id s a \<le> first_id s b" if "a < b" "b < slots s" for a b
    using first_id_mono [OF assms(2)] that by simp
  show "first_id s k + i < first_id s m" if "k < m" "m < slots s" for m
    using first_id_past [OF assms(2) that] assms(4) by simp
qed (use assms in auto)

lemma allocsite_by_id_ok:
  assumes "bsearch_law env" "spine_ok s" "registered env s f k" "i < n_sites s k"
  shows "allocsite_by_id env (start_id (allocsites_vectors_by_base_id s k) + of_nat i) s =
    Some (l_addr (files s f) + site_vaddr env s k i)"
proof -
  have "k < slots s" using assms(3) by (simp add: registered_def)
  then show ?thesis
    using slot_of_id [OF assms(1,2) _ assms(4)] assms(3)
    by (simp add: allocsite_by_id_def allocsite_entry_by_id_def unat_id [OF assms(3,4)] Let_def
        registered_def)
qed

section \<open>Registering a file\<close>

definition next_id :: "'a sites_state_scheme \<Rightarrow> nat" where
  "next_id s = (if slots s = 0 then 0 else first_id s (slots s - 1) + n_sites s (slots s - 1))"

text \<open>What a successful registration leaves.\<close>

definition with_slot :: "sites_env \<Rightarrow> addr \<Rightarrow> addr \<Rightarrow> nat \<Rightarrow> 'a sites_state_scheme \<Rightarrow> 'a sites_state_scheme" where
  "with_slot env f ptr st_size s = s
     \<lparr>id_entry_slot_next_free := id_entry_slot_next_free s + 1,
      allocsites_vectors_by_base_id := (allocsites_vectors_by_base_id s)
        (slots s := \<lparr>start_id = of_nat (next_id s),
           site_count = of_nat (st_size div sizeof_allocsite_entry env),
           file_base_addr = l_addr (files s f), entries_ptr = ptr\<rparr>),
      files := (files s)(f := (files s f)\<lparr>allocsites_info := Some (slots s)\<rparr>)\<rparr>"

lemma start_of_next:
  assumes "slots s \<noteq> 0" "next_id s < 2 ^ 16"
  shows "start_id (allocsites_vectors_by_base_id s (slots s - 1)) +
      site_count (allocsites_vectors_by_base_id s (slots s - 1)) = of_nat (next_id s)"
  using assms by (simp add: next_id_def)

lemma unat_of_nat_16: "n < 2 ^ 16 \<Longrightarrow> unat (of_nat n :: 16 word) = n"
  by (simp add: unsigned_of_nat take_bit_nat_eq_self)

lemma init_allocsites_info_eq:
  assumes "meta_obj_handle (files s f) \<noteq> 0"
    "find_allocsites env (meta_obj_handle (files s f)) = Some (ptr, st_size)"
    "slots s \<le> ALLOCSITES_INDEX_SIZE" "next_id s < 2 ^ 16"
  shows "init_allocsites_info env f s =
    (if slots s = ALLOCSITES_INDEX_SIZE then Inl Out_Of_Bounds else Inr (with_slot env f ptr st_size s))"
proof (cases "slots s = 0")
  case True
  then show ?thesis using assms
    by (simp add: init_allocsites_info_def with_slot_def next_id_def ALLOCSITES_INDEX_SIZE_def Let_def)
next
  case False
  have "unat (of_nat (next_id s) :: 16 word) = next_id s"
    using assms(4) by (rule unat_of_nat_16)
  moreover have "first_id s (slots s - 1) \<le> next_id s" using False by (simp add: next_id_def)
  ultimately have "\<not> of_nat (next_id s) < start_id (allocsites_vectors_by_base_id s (slots s - 1))"
    by (simp add: word_less_nat_alt)
  then show ?thesis
    using assms(1,2,3) False start_of_next [OF False assms(4)]
    by (simp add: init_allocsites_info_def with_slot_def Let_def)
qed

lemma slots_with_slot:
  assumes "slots s < ALLOCSITES_INDEX_SIZE"
  shows "slots (with_slot env f ptr st_size s) = Suc (slots s)"
  using assms by (simp add: with_slot_def ALLOCSITES_INDEX_SIZE_def unat_word_ariths)

lemma spine_ok_with_slot:
  assumes "spine_ok s" "slots s < ALLOCSITES_INDEX_SIZE" "next_id s < 2 ^ 16"
  shows "spine_ok (with_slot env f ptr st_size s)"
proof -
  let ?s = "with_slot env f ptr st_size s"
  have old: "first_id ?s k = first_id s k" "n_sites ?s k = n_sites s k" if "k < slots s" for k
    using that by (simp_all add: with_slot_def)
  have new: "first_id ?s (slots s) = next_id s"
    using unat_of_nat_16 [OF assms(3)] by (simp add: with_slot_def)
  have "first_id ?s (Suc k) = first_id ?s k + n_sites ?s k" if "Suc k < Suc (slots s)" for k
  proof (cases "Suc k = slots s")
    case True
    then have "next_id s = first_id s k + n_sites s k" unfolding next_id_def by (metis diff_Suc_1 nat.simps(3))
    then show ?thesis using True new old [of k] by simp
  next
    case False
    then show ?thesis using that assms(1) old [of k] old [of "Suc k"] unfolding spine_ok_def by simp
  qed
  moreover have "first_id ?s 0 = 0"
    using assms(1) new old [of 0] unfolding spine_ok_def next_id_def by (cases "slots s = 0") auto
  ultimately show ?thesis
    using assms(2) slots_with_slot [OF assms(2)] unfolding spine_ok_def by simp
qed

lemma registered_with_slot:
  assumes "slots s < ALLOCSITES_INDEX_SIZE" "f \<noteq> 0"
    "next_id s + st_size div sizeof_allocsite_entry env \<le> 2 ^ 16" "next_id s < 2 ^ 16"
    "st_size div sizeof_allocsite_entry env < 2 ^ 16"
    "\<And>i j. i < j \<Longrightarrow> j < st_size div sizeof_allocsite_entry env \<Longrightarrow>
       allocsite_vaddr (site_entries s (entry_at env ptr i)) < allocsite_vaddr (site_entries s (entry_at env ptr j))"
  shows "registered env (with_slot env f ptr st_size s) f (slots s)"
proof -
  let ?s = "with_slot env f ptr st_size s"
  have n: "n_sites ?s (slots s) = st_size div sizeof_allocsite_entry env"
    using unat_of_nat_16 [OF assms(5)] by (simp add: with_slot_def)
  have "first_id ?s (slots s) = next_id s"
    using unat_of_nat_16 [OF assms(4)] by (simp add: with_slot_def)
  then show ?thesis
    unfolding registered_def n slots_with_slot [OF assms(1)]
    using assms(2,3,6) by (simp add: with_slot_def)
qed

lemma registered_other_with_slot:
  assumes "registered env s g k" "g \<noteq> f" "slots s < ALLOCSITES_INDEX_SIZE"
  shows "registered env (with_slot env f ptr st_size s) g k"
  using assms(1,2) unfolding registered_def slots_with_slot [OF assms(3)]
  by (simp add: with_slot_def)

section \<open>Properties\<close>

text \<open>
  C27. Site identifiers are faithful: when the page index gives the registered file a site lies in, the site's
  identifier is the first one of its file plus its position among the file's sites, and looking
  that identifier up gives the site's address back.
\<close>

theorem allocsite_id_roundtrip:
  assumes "bsearch_law env" "sizeof_allocsite_entry env > 0" "spine_ok s" "registered env s f k"
    "get_file hk x s = Inr (f, s)" "i < n_sites s k"
    "x = l_addr (files s f) + site_vaddr env s k i" "x < 2 ^ 64"
  shows "\<exists>n. allocsite_id env hk x s = Inr (n, s) \<and> unat n = first_id s k + i \<and>
    allocsite_by_id env n s = Some x"
proof (intro exI conjI)
  show "allocsite_id env hk x s = Inr (start_id (allocsites_vectors_by_base_id s k) + of_nat i, s)"
    using find_entry_of_site [OF assms(1,4,5,6,7,8)] assms(2,4,5)
    by (simp add: allocsite_id_def registered_def entry_at_def)
qed (use unat_id [OF assms(4,6)] allocsite_by_id_ok [OF assms(1,3,4,6)] assms(7) in auto)

text \<open>
  With 256 files registered, the limit of the spine, the code writes past its end instead
  of aborting: the test for a full spine admits one position too many.
\<close>

lemma init_allocsites_info_overflows:
  assumes "slots s = ALLOCSITES_INDEX_SIZE" "meta_obj_handle (files s f) \<noteq> 0"
    "find_allocsites env (meta_obj_handle (files s f)) = Some (ptr, st_size)" "next_id s < 2 ^ 16"
  shows "init_allocsites_info env f s = Inl Out_Of_Bounds"
  using init_allocsites_info_eq [OF assms(2,3) _ assms(4)] assms(1) by simp

text \<open>
  C28. Registering a file whose sites are sorted and fit the identifier space, while the
  spine has room, gives it the next identifiers, keeps the spine contiguous and leaves every other
  registered file registered.
\<close>

theorem init_allocsites_info_registers:
  assumes "spine_ok s" "slots s < ALLOCSITES_INDEX_SIZE" "f \<noteq> 0" "meta_obj_handle (files s f) \<noteq> 0"
    "find_allocsites env (meta_obj_handle (files s f)) = Some (ptr, n * sizeof_allocsite_entry env)"
    "sizeof_allocsite_entry env > 0" "next_id s < 2 ^ 16" "n < 2 ^ 16" "next_id s + n \<le> 2 ^ 16"
    "\<And>i j. i < j \<Longrightarrow> j < n \<Longrightarrow>
       allocsite_vaddr (site_entries s (entry_at env ptr i)) < allocsite_vaddr (site_entries s (entry_at env ptr j))"
  shows "\<exists>s'. init_allocsites_info env f s = Inr s' \<and> spine_ok s' \<and>
    registered env s' f (slots s) \<and> first_id s' (slots s) = next_id s \<and> n_sites s' (slots s) = n \<and>
    {(g, k). g \<noteq> f \<and> registered env s g k} \<subseteq> {(g, k). registered env s' g k}"
proof (intro exI conjI)
  let ?s = "with_slot env f ptr (n * sizeof_allocsite_entry env) s"
  have d: "n * sizeof_allocsite_entry env div sizeof_allocsite_entry env = n" using assms(6) by simp
  show "init_allocsites_info env f s = Inr ?s"
    using init_allocsites_info_eq [OF assms(4,5) _ assms(7)] assms(2) by simp
  show "registered env ?s f (slots s)"
    by (rule registered_with_slot [OF assms(2,3)]) (use assms(7-10) d in auto)
  show "first_id ?s (slots s) = next_id s"
    using unat_of_nat_16 [OF assms(7)] by (simp add: with_slot_def)
  show "n_sites ?s (slots s) = n"
    using unat_of_nat_16 [OF assms(8)] d by (simp add: with_slot_def)
qed (use spine_ok_with_slot [OF assms(1,2,7)] registered_other_with_slot [OF _ _ assms(2)] in auto)

section \<open>A concrete file\<close>

definition ref_bsearch :: "(nat \<Rightarrow> nat) \<Rightarrow> nat \<Rightarrow> nat \<Rightarrow> nat option" where
  "ref_bsearch key n t =
     (case filter (\<lambda>i. key i \<le> t) [0..<n] of [] \<Rightarrow> None | xs \<Rightarrow> Some (last xs))"

definition ex_sites_env :: sites_env where
  "ex_sites_env = \<lparr>find_allocsites = (\<lambda>h. Some (500, 32)), sizeof_allocsite_entry = 16,
     bsearch_leq = ref_bsearch\<rparr>"

definition ex_sites :: sites_state where
  "ex_sites = \<lparr>big_allocations = (\<lambda>_. empty_bigalloc)(1 := empty_bigalloc
       \<lparr>ba_begin := 8192, ba_end := 12288, allocated_by := Some A_static_file, allocator_private := 100\<rparr>),
     pageindex = (\<lambda>_. 0)(2 := 1), nommap_bigalloc = 0, systrap_is_initialized = True, freed = [],
     biggest_sane = 2 ^ 20,
     allocsites_vectors_by_base_id = (\<lambda>_. \<lparr>start_id = 0, site_count = 0, file_base_addr = 0, entries_ptr = 0\<rparr>),
     id_entry_slot_next_free = 0,
     files = (\<lambda>_. \<lparr>meta_obj_handle = 1, allocsites_info = None, l_addr = 8192\<rparr>),
     site_entries = (\<lambda>a. \<lparr>allocsite_vaddr = a, entry_uniqtype = 0\<rparr>)\<rparr>"

lemma ref_bsearch_some:
  assumes "filter (\<lambda>i. key i \<le> t) [0..<n] \<noteq> []"
  shows "ref_bsearch key n t = Some (last (filter (\<lambda>i. key i \<le> t) [0..<n]))"
  using assms unfolding ref_bsearch_def by (cases "filter (\<lambda>i. key i \<le> t) [0..<n]") auto

lemma last_filter_upt:
  assumes "filter P [0..<n] \<noteq> []"
  shows "last (filter P [0..<n]) < n \<and> P (last (filter P [0..<n])) \<and>
    (\<forall>i. last (filter P [0..<n]) < i \<and> i < n \<longrightarrow> \<not> P i)"
  using assms
proof (induction n)
  case (Suc n)
  show ?case
  proof (cases "P n")
    case False
    then have "filter P [0..<Suc n] = filter P [0..<n]" by simp
    then show ?thesis using Suc False by (metis less_SucE less_SucI)
  qed auto
qed simp

lemma ref_bsearch_law: "bsearch_law ex_sites_env"
  unfolding bsearch_law_def
proof (intro allI impI)
  fix key :: "nat \<Rightarrow> nat" and n t :: nat
  show "case bsearch_leq ex_sites_env key n t of None \<Rightarrow> \<forall>i<n. t < key i
    | Some k \<Rightarrow> k < n \<and> key k \<le> t \<and> (\<forall>i. k < i \<and> i < n \<longrightarrow> t < key i)"
  proof (cases "filter (\<lambda>i. key i \<le> t) [0..<n] = []")
    case True
    then show ?thesis
      by (auto simp: ex_sites_env_def ref_bsearch_def filter_empty_conv not_le)
  next
    case False
    then show ?thesis
      using last_filter_upt [OF False] unfolding not_le
      by (simp only: ex_sites_env_def sites_env.simps ref_bsearch_some [OF False] option.case) blast
  qed
qed

lemma ex_spine: "spine_ok ex_sites"
  by (simp add: spine_ok_def ex_sites_def)

theorem init_allocsites_info_registers_witness:
  "\<exists>s'. init_allocsites_info ex_sites_env 100 ex_sites = Inr s' \<and> spine_ok s' \<and>
     registered ex_sites_env s' 100 (slots ex_sites) \<and> first_id s' (slots ex_sites) = next_id ex_sites \<and>
     n_sites s' (slots ex_sites) = 2 \<and>
     {(g, k). g \<noteq> 100 \<and> registered ex_sites_env ex_sites g k} \<subseteq> {(g, k). registered ex_sites_env s' g k}"
  by (rule init_allocsites_info_registers [OF ex_spine, where ptr = 500])
    (simp_all add: ex_sites_def ex_sites_env_def next_id_def entry_at_def ALLOCSITES_INDEX_SIZE_def)

lemma ex_get_file:
  "get_file hk 8708 (with_slot ex_sites_env 100 500 32 ex_sites) =
     Inr (100, with_slot ex_sites_env 100 500 32 ex_sites)"
  by (simp add: get_file_def lookup_bigalloc_from_root_def find_bigalloc_from_root_def
      find_bigalloc_recursive_def find_bigalloc_at_def allocator_matches_def with_slot_def ex_sites_def
      PAGENUM_def NBIGALLOCS_def root_of.simps empty_bigalloc_def Let_def)

lemma ex_registered: "registered ex_sites_env (with_slot ex_sites_env 100 500 32 ex_sites) 100 0"
  using registered_with_slot [of ex_sites 100 32 ex_sites_env 500]
  by (simp add: ex_sites_def ex_sites_env_def ALLOCSITES_INDEX_SIZE_def next_id_def entry_at_def)

lemma ex_spine_registered: "spine_ok (with_slot ex_sites_env 100 500 32 ex_sites)"
  by (rule spine_ok_with_slot [OF ex_spine])
    (simp_all add: ex_sites_def ALLOCSITES_INDEX_SIZE_def next_id_def)

theorem allocsite_id_roundtrip_witness:
  "\<forall>hk. \<exists>n. allocsite_id ex_sites_env hk 8708 (with_slot ex_sites_env 100 500 32 ex_sites) =
         Inr (n, with_slot ex_sites_env 100 500 32 ex_sites) \<and>
       unat n = first_id (with_slot ex_sites_env 100 500 32 ex_sites) 0 + 1 \<and>
       allocsite_by_id ex_sites_env n (with_slot ex_sites_env 100 500 32 ex_sites) = Some 8708"
  by (intro allI allocsite_id_roundtrip [OF ref_bsearch_law _ ex_spine_registered ex_registered ex_get_file])
    (simp_all add: with_slot_def ex_sites_def ex_sites_env_def entry_at_def)

end
