(* ===== verification/Malloc_Meta.thy ===== *)
theory Malloc_Meta
  imports Pageindex "HOL-Library.Word"
begin

unbundle bit_operations_syntax

text \<open>
  The metadata stored in heap chunks (\<open>include/malloc-meta.h\<close>).  An insert is
  one 64-bit word at the end of a chunk.  Its bit fields are laid out by the x86-64 ABI
  from the low end: an initial insert has \<open>always_0\<close> in bit 0, the allocation site
  in bits 1 to 47 and twelve unused bits; an insert with a type has
  \<open>always_1\<close> in bit 0, a signed site identifier in bits 1 to 15 and the shifted address of the
  type descriptor in bits 16 to 59.  Both have the lifetime policies in bits 60 to 63.
\<close>

section \<open>Bit fields\<close>

type_synonym insert = "64 word"

definition bit_field :: "nat \<Rightarrow> nat \<Rightarrow> 64 word \<Rightarrow> 64 word" where
  "bit_field pos width w = take_bit width (drop_bit pos w)"

definition set_bit_field :: "nat \<Rightarrow> nat \<Rightarrow> 64 word \<Rightarrow> 64 word \<Rightarrow> 64 word" where
  "set_bit_field pos width v w =
     (w AND NOT (push_bit pos (mask width))) OR push_bit pos (take_bit width v)"

definition initial_alloc_site :: "insert \<Rightarrow> 64 word" where
  "initial_alloc_site ins = bit_field 1 47 ins"

definition initial_unused :: "insert \<Rightarrow> 64 word" where
  "initial_unused ins = bit_field 48 12 ins"

definition insert_lifetime_policies :: "insert \<Rightarrow> 64 word" where
  "insert_lifetime_policies ins = bit_field 60 4 ins"

definition with_type_alloc_site_id :: "insert \<Rightarrow> int" where
  "with_type_alloc_site_id ins = sint (ucast (bit_field 1 15 ins) :: 15 word)"

definition with_type_uniqtype_shifted :: "insert \<Rightarrow> 64 word" where
  "with_type_uniqtype_shifted ins = bit_field 16 44 ins"

section \<open>Operations on inserts\<close>

text \<open>
  The two assignments made when a chunk is indexed, which leave bit 0 and
  the lifetime policies as they are in memory.
\<close>

definition write_initial :: "64 word \<Rightarrow> insert \<Rightarrow> insert" where
  "write_initial caller ins = set_bit_field 1 47 caller (set_bit_field 48 12 0 ins)"

text \<open>The compound literal that replaces a whole insert; fields not named in it are 0.\<close>

definition with_type_insert :: "64 word \<Rightarrow> 64 word \<Rightarrow> insert" where
  "with_type_insert uniqtype_shifted alloc_site_id =
     set_bit_field 16 44 uniqtype_shifted
       (set_bit_field 1 15 alloc_site_id (set_bit_field 0 1 1 0))"

definition UNIQTYPE_SHIFT_FOR_INSERT :: "64 word \<Rightarrow> 64 word" where
  "UNIQTYPE_SHIFT_FOR_INSERT u = drop_bit 3 u"

definition UNIQTYPE_UNSHIFT_FROM_INSERT :: "64 word \<Rightarrow> 64 word" where
  "UNIQTYPE_UNSHIFT_FROM_INSERT bits = push_bit 3 bits"

definition INSERT_IS_WITH_TYPE :: "insert \<Rightarrow> bool" where
  "INSERT_IS_WITH_TYPE ins \<longleftrightarrow> initial_unused ins \<noteq> 0"

definition INSERT_DESCRIBES_OBJECT :: "64 word \<Rightarrow> insert \<Rightarrow> bool" where
  "INSERT_DESCRIBES_OBJECT MINIMUM_USER_ADDRESS ins \<longleftrightarrow>
     with_type_alloc_site_id ins \<noteq> 0 \<or> initial_alloc_site ins \<ge> MINIMUM_USER_ADDRESS"

definition INSERT_IS_NULL :: "insert \<Rightarrow> bool" where
  "INSERT_IS_NULL ins \<longleftrightarrow> \<not> INSERT_IS_WITH_TYPE ins \<and> initial_alloc_site ins = 0"

definition LIFETIME_POLICY_FLAG :: "nat \<Rightarrow> 64 word" where
  "LIFETIME_POLICY_FLAG i = push_bit i 1"

definition MANUAL_DEALLOCATION_FLAG :: "64 word" where
  "MANUAL_DEALLOCATION_FLAG = LIFETIME_POLICY_FLAG 0"

definition HAS_LIFETIME_POLICIES_ATTACHED :: "64 word \<Rightarrow> bool" where
  "HAS_LIFETIME_POLICIES_ATTACHED lti \<longleftrightarrow> lti AND NOT MANUAL_DEALLOCATION_FLAG \<noteq> 0"

section \<open>Sizes\<close>

text \<open>\<open>sizeof (struct insert)\<close>.\<close>

definition sizeof_insert :: nat where
  "sizeof_insert = 8"

definition PAD_TO_ALIGN :: "nat \<Rightarrow> nat \<Rightarrow> nat" where
  "PAD_TO_ALIGN n a = (if n mod a = 0 then n else n + a - n mod a)"

definition CHUNK_SIZE_WITH_TRAILER :: "nat \<Rightarrow> nat \<Rightarrow> nat \<Rightarrow> nat" where
  "CHUNK_SIZE_WITH_TRAILER sz trailer_size trailer_align = PAD_TO_ALIGN (sz + trailer_size) trailer_align"

definition caller_usable_size_for_chunk_and_usable_size :: "nat \<Rightarrow> nat" where
  "caller_usable_size_for_chunk_and_usable_size alloc_usable_size =
     unsigned_sub alloc_usable_size sizeof_insert"

definition insert_for_chunk_and_caller_usable_size :: "addr \<Rightarrow> nat \<Rightarrow> addr" where
  "insert_for_chunk_and_caller_usable_size userptr caller_usable_size = userptr + caller_usable_size"

definition caller_usable_size_for_chunk :: "addr \<Rightarrow> (addr \<Rightarrow> nat) \<Rightarrow> nat" where
  "caller_usable_size_for_chunk userptr sizefn =
     caller_usable_size_for_chunk_and_usable_size (sizefn userptr)"

definition insert_for_chunk :: "addr \<Rightarrow> (addr \<Rightarrow> nat) \<Rightarrow> addr" where
  "insert_for_chunk userptr sizefn =
     insert_for_chunk_and_caller_usable_size userptr (caller_usable_size_for_chunk userptr sizefn)"

section \<open>Fields do not interfere\<close>

lemma bit_bit_field [simp]:
  "bit (bit_field pos width w) n \<longleftrightarrow> n < width \<and> bit w (pos + n)"
  by (auto simp: bit_field_def bit_take_bit_iff bit_drop_bit_eq)

lemma bit_set_bit_field:
  "bit (set_bit_field pos width v w) n \<longleftrightarrow>
     (if pos \<le> n \<and> n < pos + width then n < 64 \<and> bit v (n - pos) else bit w n)"
  by (auto simp: set_bit_field_def bit_simps dest: bit_imp_le_length)

lemma field_same:
  "pos + width \<le> 64 \<Longrightarrow> bit_field pos width (set_bit_field pos width v w) = take_bit width v"
  by (rule bit_eqI) (auto simp: bit_set_bit_field bit_take_bit_iff)

lemma field_other:
  "pos + width \<le> pos' \<or> pos' + width' \<le> pos \<Longrightarrow>
   bit_field pos width (set_bit_field pos' width' v w) = bit_field pos width w"
  by (rule bit_eqI) (auto simp: bit_set_bit_field)

lemma field_zero [simp]: "bit_field pos width 0 = 0"
  by (simp add: bit_field_def)

lemmas fields = field_same field_other

lemma unat_drop_3: "unat (drop_bit 3 u) = unat u div 8" for u :: "64 word"
  by (simp add: drop_bit_eq_div unat_div)

lemma less_pow:
  fixes w :: "64 word"
  shows "n < 64 \<Longrightarrow> (w < 2 ^ n) \<longleftrightarrow> unat w < 2 ^ n"
proof -
  assume "n < 64"
  then have "unat (of_nat (2 ^ n) :: 64 word) = 2 ^ n"
    by (subst unsigned_of_nat) (simp add: take_bit_nat_eq_self)
  then show ?thesis by (simp add: word_less_nat_alt)
qed

lemma drop_3_less: "u < 2 ^ 47 \<Longrightarrow> drop_bit 3 u < 2 ^ 44" for u :: "64 word"
  by (simp add: word_less_nat_alt unat_drop_3)

lemma take_bit_small: "w < 2 ^ n \<Longrightarrow> n < 64 \<Longrightarrow> take_bit n w = w" for w :: "64 word"
  by (simp add: less_pow word_unat_eq_iff unsigned_take_bit_eq take_bit_nat_eq_self)

lemma shift_unshift:
  assumes "8 dvd unat u"
  shows "push_bit 3 (drop_bit 3 u) = (u :: 64 word)"
  using assms unsigned_less [of u, where 'a = nat]
  by (simp add: word_unat_eq_iff push_bit_eq_mult unat_word_ariths unat_drop_3)

section \<open>Reading back what was written\<close>

lemma with_type_fields:
  "with_type_uniqtype_shifted (with_type_insert v i) = take_bit 44 v"
  "with_type_alloc_site_id (with_type_insert v i) = sint (ucast i :: 15 word)"
  "insert_lifetime_policies (with_type_insert v i) = 0"
  "initial_unused (with_type_insert v i) = bit_field 32 12 v"
proof -
  show "with_type_uniqtype_shifted (with_type_insert v i) = take_bit 44 v"
    by (simp add: with_type_uniqtype_shifted_def with_type_insert_def fields)
  have "(ucast (take_bit 15 i) :: 15 word) = ucast i"
    by (rule bit_eqI) (auto simp: bit_simps)
  then show "with_type_alloc_site_id (with_type_insert v i) = sint (ucast i :: 15 word)"
    by (simp add: with_type_alloc_site_id_def with_type_insert_def fields)
  show "insert_lifetime_policies (with_type_insert v i) = 0"
    by (simp add: insert_lifetime_policies_def with_type_insert_def fields)
  show "initial_unused (with_type_insert v i) = bit_field 32 12 v"
    by (rule bit_eqI) (auto simp: initial_unused_def with_type_insert_def bit_set_bit_field)
qed

lemma initial_fields:
  "initial_alloc_site (write_initial caller ins) = take_bit 47 caller"
  "initial_unused (write_initial caller ins) = 0"
  "insert_lifetime_policies (write_initial caller ins) = insert_lifetime_policies ins"
  by (simp_all add: initial_alloc_site_def initial_unused_def insert_lifetime_policies_def
      write_initial_def fields)

text \<open>The unused bits of an initial insert are the upper bits of the type's address.\<close>

lemma upper_bits_zero: 
  assumes "u < 2 ^ 47"
  shows "bit_field 32 12 (drop_bit 3 u) = 0 \<longleftrightarrow> u < 2 ^ 35"
proof -
  have "drop_bit 3 u < 2 ^ 44"
    by (rule drop_3_less [OF assms])
  then have "take_bit 44 (drop_bit 3 u) = drop_bit 3 u"
    by (simp add: take_bit_small)
  have "bit_field 32 12 (drop_bit 3 u) = drop_bit 32 (take_bit 44 (drop_bit 3 u))"
    by (simp add: bit_field_def drop_bit_take_bit)
  also have "\<dots> = drop_bit 35 u"
    using \<open>take_bit 44 (drop_bit 3 u) = drop_bit 3 u\<close> by simp
  also have "\<dots> = 0 \<longleftrightarrow> u < 2 ^ 35"
    by (simp add: word_less_nat_alt word_unat_eq_iff drop_bit_eq_div unat_div div_eq_0_iff)
  finally show ?thesis .
qed

text \<open>
  C25. Storing metadata in a heap chunk loses nothing: the address of a type descriptor (8-byte aligned, below
  \<open>2 ^ 47\<close>) and a site identifier in the signed 15-bit range are read back from an insert with a type
  as they were, and the address of an allocation site from an initial insert, which is never
  taken for one with a type and keeps the lifetime policies of the chunk.
\<close>

theorem insert_roundtrip:
  assumes "8 dvd unat u" "u < 2 ^ 47" "- (2 ^ 14) \<le> i" "i < 2 ^ 14" "site < 2 ^ 47"
  shows "UNIQTYPE_UNSHIFT_FROM_INSERT
           (with_type_uniqtype_shifted (with_type_insert (UNIQTYPE_SHIFT_FOR_INSERT u) (word_of_int i))) = u
       \<and> with_type_alloc_site_id (with_type_insert (UNIQTYPE_SHIFT_FOR_INSERT u) (word_of_int i)) = i
       \<and> initial_alloc_site (write_initial site ins) = site
       \<and> insert_lifetime_policies (write_initial site ins) = insert_lifetime_policies ins
       \<and> \<not> INSERT_IS_WITH_TYPE (write_initial site ins)"
proof (intro conjI)
  have "drop_bit 3 u < 2 ^ 44"
    by (rule drop_3_less [OF assms(2)])
  then show "UNIQTYPE_UNSHIFT_FROM_INSERT
      (with_type_uniqtype_shifted (with_type_insert (UNIQTYPE_SHIFT_FOR_INSERT u) (word_of_int i))) = u"
    using assms(1) by (simp add: UNIQTYPE_UNSHIFT_FROM_INSERT_def UNIQTYPE_SHIFT_FOR_INSERT_def
        with_type_fields take_bit_small shift_unshift)
  have "sint (ucast (word_of_int i :: 64 word) :: 15 word) = signed_take_bit 14 i"
    by (simp add: unsigned_of_int signed_of_int signed_take_bit_take_bit)
  also have "\<dots> = i"
    using assms(3,4) by (simp add: signed_take_bit_int_eq_self)
  finally show "with_type_alloc_site_id (with_type_insert (UNIQTYPE_SHIFT_FOR_INSERT u) (word_of_int i)) = i"
    by (simp add: with_type_fields)
qed (use assms(5) in \<open>simp_all add: initial_fields INSERT_IS_WITH_TYPE_def take_bit_small\<close>)

theorem insert_roundtrip_witness:
  "UNIQTYPE_UNSHIFT_FROM_INSERT
     (with_type_uniqtype_shifted (with_type_insert (UNIQTYPE_SHIFT_FOR_INSERT 4096) (word_of_int (-1)))) = 4096
   \<and> with_type_alloc_site_id (with_type_insert (UNIQTYPE_SHIFT_FOR_INSERT 4096) (word_of_int (-1))) = -1
   \<and> initial_alloc_site (write_initial 77 0) = 77
   \<and> insert_lifetime_policies (write_initial 77 0) = insert_lifetime_policies 0
   \<and> \<not> INSERT_IS_WITH_TYPE (write_initial 77 0)"
  by (rule insert_roundtrip) (simp_all add: word_less_nat_alt)

text \<open>
  C26. The code recognises an insert with a type by the upper bits of the type's
  address, not by \<open>always_1\<close>: it does so exactly when the descriptor lies at or above
  \<open>2 ^ 35\<close>.  An insert with a descriptor below that, or with the null type that
  marks an unrecognised site, is taken for an initial insert.
\<close>

theorem with_type_recognised_iff:
  assumes "u < 2 ^ 47"
  shows "INSERT_IS_WITH_TYPE (with_type_insert (UNIQTYPE_SHIFT_FOR_INSERT u) i) \<longleftrightarrow> 2 ^ 35 \<le> u"
  using upper_bits_zero [OF assms]
  by (auto simp: INSERT_IS_WITH_TYPE_def with_type_fields UNIQTYPE_SHIFT_FOR_INSERT_def not_less)

theorem with_type_recognised_iff_witness:
  "INSERT_IS_WITH_TYPE (with_type_insert (UNIQTYPE_SHIFT_FOR_INSERT 4096) 5) \<longleftrightarrow> 2 ^ 35 \<le> (4096 :: 64 word)"
  by (rule with_type_recognised_iff) simp

end
