(* ===== verification/Malloc_Index.thy ===== *)
theory Malloc_Index
  imports Malloc_Meta Allocsites Range_Cache
begin

unbundle bit_operations_syntax

text \<open>
  The index of heap chunks (\<open>include/generic_malloc_index.h\<close>): one bitmap per arena with a
  bit for every 16 bytes, set where a chunk begins, and an insert at the end of each
  chunk.  Large chunks are also big allocations.  The model is that of a build with
  \<open>NDEBUG\<close>, in which a lookup hides the part of the bitmap that no chunk around the
  queried address can begin in.

  The arena records are memory indexed by address, with the words of the bitmap held in
  the record; the inserts are memory indexed by address.  The heap's own size function, the private
  malloc and the operations on bitmaps (\<open>bitmap.h\<close> of librunt) are the fields of \<open>heap_env\<close>.
  The arena locks are not modelled.
\<close>

section \<open>State\<close>

record arena_bitmap_info =
  nwords :: nat
  bitmap :: "64 word list"
  bitmap_base_addr :: addr
  bitmap_insert_count :: nat
  biggest_allocated_object :: nat
  biggest_unpromoted_object :: nat

record heap_state = sites_state +
  arena_infos :: "addr \<Rightarrow> arena_bitmap_info"
  insert_mem :: "addr \<Rightarrow> insert"
  ool_cache :: memrange_cache
  current_allocsite :: addr
  unrecognised_heap_alloc_sites :: addrlist
  hit_heap_case :: nat
  aborted_unindexed_heap :: nat
  aborted_unrecognised_allocsite :: nat
  aborted_unknown_storage :: nat

text \<open>
  \<open>private_malloc\<close>: the address of a fresh record; \<open>realloc_succeeds\<close>: whether there is
  memory for a bitmap of that many words; \<open>bitmap_rfind words i\<close>:
  \<open>bitmap_rfind_first_set_leq_l\<close>, with \<open>None\<close> for the value -1.
\<close>

record heap_env =
  sizefn :: "addr \<Rightarrow> nat"
  private_malloc :: "heap_state \<Rightarrow> addr"
  realloc_succeeds :: "nat \<Rightarrow> bool"
  realloc_addrs :: "nat \<Rightarrow> addr list option"
  free_info_fn :: nat
  bitmap_set :: "64 word list \<Rightarrow> nat \<Rightarrow> 64 word list"
  bitmap_clear :: "64 word list \<Rightarrow> nat \<Rightarrow> 64 word list"
  bitmap_rfind :: "64 word list \<Rightarrow> nat \<Rightarrow> nat option"
  sites :: sites_env

text \<open>The error values of \<open>liballocs.h\<close> that the modelled code returns or tests for.\<close>

datatype liballocs_err =
    Unindexed_Heap_Object | Unrecognised_Alloc_Site | Unrecognised_Static_Object | Object_Of_Unknown_Storage

definition MALLOC_ALIGN :: nat where
  "MALLOC_ALIGN = 16"

definition BITMAP_WORD_NBITS :: nat where
  "BITMAP_WORD_NBITS = 64"

definition upd_info :: "addr \<Rightarrow> (arena_bitmap_info \<Rightarrow> arena_bitmap_info) \<Rightarrow> heap_state \<Rightarrow> heap_state" where
  "upd_info ip f s = s\<lparr>arena_infos := (arena_infos s)(ip := f (arena_infos s ip))\<rparr>"

definition set_insert :: "addr \<Rightarrow> insert \<Rightarrow> heap_state \<Rightarrow> heap_state" where
  "set_insert p ins s = s\<lparr>insert_mem := (insert_mem s)(p := ins)\<rparr>"

section \<open>Sizes and arenas\<close>

definition allocsize_to_usersize :: "nat \<Rightarrow> nat" where
  "allocsize_to_usersize allocsz = unsigned_sub allocsz sizeof_insert"

definition usersize_to_allocsize :: "nat \<Rightarrow> nat" where
  "usersize_to_allocsize usersz = (usersz + sizeof_insert) mod 2 ^ 64"

definition usersize :: "heap_env \<Rightarrow> addr \<Rightarrow> nat" where
  "usersize env userptr = allocsize_to_usersize (sizefn env userptr)"

definition generic_malloc_fresh_big :: "heap_state hooks \<Rightarrow> allocator option \<Rightarrow> addr \<Rightarrow> nat \<Rightarrow> nat \<Rightarrow>
    heap_state \<Rightarrow> (nat \<times> heap_state) res" where
  "generic_malloc_fresh_big hk a allocptr bigalloc_size containing_bigalloc s =
     rbind (new_bigalloc hk allocptr bigalloc_size 0 0 containing_bigalloc a s) (\<lambda>(b, s).
       if b = 0 then Inl Abort else Inr (b, s))"

definition generic_malloc_ensure_big :: "heap_state hooks \<Rightarrow> allocator \<Rightarrow> addr \<Rightarrow> nat \<Rightarrow>
    heap_state \<Rightarrow> (nat \<times> heap_state) res" where
  "generic_malloc_ensure_big hk a adr sz s =
     rbind (lookup_bigalloc_from_root hk adr a s) (\<lambda>(maybe_already, s).
       if maybe_already \<noteq> 0 then Inr (maybe_already, s)
       else rbind (find_deepest_bigalloc hk adr s) (\<lambda>(containing, s).
              generic_malloc_fresh_big hk (Some a) adr sz containing s))"

definition ensure_arena_has_info :: "heap_env \<Rightarrow> nat \<Rightarrow> heap_state \<Rightarrow> (addr \<times> heap_state) res" where
  "ensure_arena_has_info env arena s =
     (if arena = 0 then Inl Null_Deref
      else if suballocator_private (big_allocations s arena) \<noteq> 0
        then Inr (suballocator_private (big_allocations s arena), s)
      else
        let info = private_malloc env s;
            s = upd arena (\<lambda>r. r\<lparr>suballocator_private := info,
                                suballocator_private_free := free_info_fn env\<rparr>) s
        in if info = 0 then Inl Null_Deref
           else Inr (info, upd_info info (\<lambda>_.
                  \<lparr>nwords = 0, bitmap = [],
                   bitmap_base_addr =
                     ROUND_DOWN (ba_begin (big_allocations s arena)) (MALLOC_ALIGN * BITMAP_WORD_NBITS),
                   bitmap_insert_count = 0, biggest_allocated_object = 0,
                   biggest_unpromoted_object = 0\<rparr>) s))"

definition arena_for_userptr :: "heap_env \<Rightarrow> heap_state hooks \<Rightarrow> allocator \<Rightarrow> addr \<Rightarrow> heap_state \<Rightarrow>
    (nat \<times> heap_state) res" where
  "arena_for_userptr env hk a userptr s =
     rbind (lookup_bigalloc_from_root_by_suballocator hk userptr a s) (\<lambda>(b, s).
       if b \<noteq> 0 then Inr (b, s)
       else rbind (find_deepest_bigalloc hk userptr s) (\<lambda>(b, s).
         if b = 0 then Inl Null_Deref
         else rbind (ensure_arena_has_info env b (upd b (\<lambda>r. r\<lparr>suballocator := Some a\<rparr>) s))
                (\<lambda>(_, s). Inr (b, s))))"

definition arena_info_for_userptr :: "heap_env \<Rightarrow> heap_state hooks \<Rightarrow> allocator \<Rightarrow> addr \<Rightarrow> heap_state \<Rightarrow>
    (addr \<times> heap_state) res" where
  "arena_info_for_userptr env hk a userptr s =
     rbind (arena_for_userptr env hk a userptr s) (\<lambda>(b, s).
       Inr (if b \<noteq> 0 then suballocator_private (big_allocations s b) else 0, s))"

definition ensure_arena_info_for_userptr :: "heap_env \<Rightarrow> heap_state hooks \<Rightarrow> allocator \<Rightarrow> addr \<Rightarrow>
    heap_state \<Rightarrow> (addr \<times> heap_state) res" where
  "ensure_arena_info_for_userptr env hk a userptr s =
     rbind (arena_for_userptr env hk a userptr s) (\<lambda>(arena, s). ensure_arena_has_info env arena s)"

section \<open>Insertion and deletion\<close>

definition SHOULD_PROMOTE_TO_BIGALLOC :: "nat \<Rightarrow> bool" where
  "SHOULD_PROMOTE_TO_BIGALLOC usable_size \<longleftrightarrow> usable_size > 131072"

text \<open>The growth of the bitmap, which keeps the old words and clears the new ones.\<close>

definition grow_bitmap :: "heap_env \<Rightarrow> addr \<Rightarrow> arena_bitmap_info \<Rightarrow> arena_bitmap_info res" where
  "grow_bitmap env end_addr info =
     (let total_words = unsigned_sub (ROUND_UP end_addr (MALLOC_ALIGN * BITMAP_WORD_NBITS))
                          (bitmap_base_addr info) div (MALLOC_ALIGN * BITMAP_WORD_NBITS)
      in if nwords info < total_words then
           if \<not> realloc_succeeds env total_words then Inl Abort
           else Inr (info\<lparr>bitmap := take (nwords info) (bitmap info) @
                                      replicate (total_words - nwords info) 0,
                          nwords := total_words\<rparr>)
         else Inr info)"

definition ensure_has_bitmap_to :: "heap_env \<Rightarrow> heap_state hooks \<Rightarrow> allocator \<Rightarrow> addr \<Rightarrow> addr \<Rightarrow>
    heap_state \<Rightarrow> heap_state res" where
  "ensure_has_bitmap_to env hk a ip end_addr s =
     rbind (lookup_bigalloc_under_by_suballocator hk (end_addr - 1) a 0 s) (\<lambda>(arena, s).
       if arena = 0 then Inl Null_Deref
       else rbind (grow_bitmap env end_addr (arena_infos s ip)) (\<lambda>info.
              Inr (upd_info ip (\<lambda>_. info) s)))"

text \<open>Writing a bit of the bitmap, which must lie within its words.\<close>

definition set_chunk_bit :: "heap_env \<Rightarrow> addr \<Rightarrow> arena_bitmap_info \<Rightarrow> arena_bitmap_info res" where
  "set_chunk_bit env p info =
     (let i = unsigned_sub p (bitmap_base_addr info) div MALLOC_ALIGN in
      if i < BITMAP_WORD_NBITS * nwords info
      then Inr (info\<lparr>bitmap := bitmap_set env (bitmap info) i\<rparr>) else Inl Out_Of_Bounds)"

definition clear_chunk_bit :: "heap_env \<Rightarrow> addr \<Rightarrow> arena_bitmap_info \<Rightarrow> arena_bitmap_info res" where
  "clear_chunk_bit env p info =
     (let i = unsigned_sub p (bitmap_base_addr info) div MALLOC_ALIGN in
      if i < BITMAP_WORD_NBITS * nwords info
      then Inr (info\<lparr>bitmap := bitmap_clear env (bitmap info) i\<rparr>) else Inl Out_Of_Bounds)"

definition generic_malloc_index_insert :: "heap_env \<Rightarrow> heap_state hooks \<Rightarrow> allocator \<Rightarrow> addr \<Rightarrow>
    addr \<Rightarrow> nat \<Rightarrow> addr \<Rightarrow> heap_state \<Rightarrow> (addr \<times> heap_state) res" where
  "generic_malloc_index_insert env hk a ip allocptr caller_requested_size caller s =
     rbind (ensure_has_bitmap_to env hk a ip (allocptr + caller_requested_size) s) (\<lambda>s.
     rbind (lookup_bigalloc_under_by_suballocator hk allocptr a 0 s) (\<lambda>(arena, s).
       if arena = 0 then Inl Null_Deref
       else
         let alloc_usable_size = sizefn env allocptr;
             caller_usable_size = caller_usable_size_for_chunk_and_usable_size alloc_usable_size;
             p_insert = insert_for_chunk_and_caller_usable_size allocptr caller_usable_size;
             s = set_insert p_insert (write_initial (of_nat caller) (insert_mem s p_insert)) s;
             s = upd_info ip (\<lambda>info. info\<lparr>biggest_allocated_object :=
                   max caller_usable_size (biggest_allocated_object info)\<rparr>) s
         in rbind (if SHOULD_PROMOTE_TO_BIGALLOC alloc_usable_size then
                     rbind (generic_malloc_fresh_big hk (suballocator (big_allocations s arena))
                              allocptr caller_requested_size arena s) (\<lambda>(_, s). Inr s)
                   else Inr (upd_info ip (\<lambda>info. info\<lparr>biggest_unpromoted_object :=
                          max caller_usable_size (biggest_unpromoted_object info)\<rparr>) s)) (\<lambda>s.
            rbind (set_chunk_bit env allocptr (arena_infos s ip)) (\<lambda>info.
              Inr (p_insert, upd_info ip (\<lambda>_. info) s)))))"

definition generic_malloc_index_delete :: "heap_env \<Rightarrow> heap_state hooks \<Rightarrow> allocator \<Rightarrow> addr \<Rightarrow>
    addr \<Rightarrow> heap_state \<Rightarrow> heap_state res" where
  "generic_malloc_index_delete env hk a ip userptr s =
     (let s = s\<lparr>ool_cache := uncache_all userptr (sizefn env userptr) (ool_cache s)\<rparr> in
      rbind (lookup_bigalloc_under hk userptr a 0 s) (\<lambda>(b, s).
        if b \<noteq> 0 then
          case allocated_by (big_allocations s b) of
            None \<Rightarrow> Inl Null_Deref
          | Some al \<Rightarrow> rbind (delete_bigalloc_at hk userptr al s) (\<lambda>(_, s). Inr s)
        else
          rbind (lookup_bigalloc_under_by_suballocator hk userptr a 0 s) (\<lambda>(arena, s).
          rbind (clear_chunk_bit env userptr (arena_infos s ip)) (\<lambda>info.
            Inr (upd_info ip (\<lambda>_. info) s)))))"

text \<open>
  A null \<open>new_allocptr\<close> is 0.  \<open>__notify_copy\<close> is the empty function of
  \<open>init.c\<close>, unless a client overrides it.
\<close>

definition generic_malloc_index_reinsert_after_resize :: "heap_env \<Rightarrow> heap_state hooks \<Rightarrow> allocator \<Rightarrow>
    addr \<Rightarrow> addr \<Rightarrow> nat \<Rightarrow> nat \<Rightarrow> nat \<Rightarrow> addr \<Rightarrow> addr \<Rightarrow> heap_state \<Rightarrow> (addr \<times> heap_state) res" where
  "generic_malloc_index_reinsert_after_resize env hk a oldinfo userptr modified_size old_usable_size
       requested_size caller new_allocptr s =
     (let site = (if current_allocsite s \<noteq> 0 then current_allocsite s else caller) in
      rbind (if new_allocptr \<noteq> 0 \<and> new_allocptr \<noteq> userptr then
               rbind (ensure_arena_info_for_userptr env hk a new_allocptr s) (\<lambda>(newinfo, s).
                 generic_malloc_index_insert env hk a newinfo new_allocptr requested_size site s)
             else generic_malloc_index_insert env hk a oldinfo userptr requested_size site s) (\<lambda>(ins, s).
      rbind (lookup_bigalloc_from_root hk userptr a s) (\<lambda>(b, s).
        if new_allocptr = userptr \<and> modified_size < old_usable_size \<and> b \<noteq> 0
        then rbind (truncate_bigalloc_at_end b (userptr + modified_size) s) (\<lambda>s. Inr (ins, s))
        else Inr (ins, s))))"

section \<open>Lookup\<close>

text \<open>
  The number of bits hidden, for an address and the size of the biggest chunk that is not a big
  allocation.
\<close>

definition hidden_bits :: "arena_bitmap_info \<Rightarrow> addr \<Rightarrow> nat" where
  "hidden_bits info mem =
     (let fake_bitmap_base_addr = ROUND_DOWN (unsigned_sub mem (biggest_unpromoted_object info))
            (MALLOC_ALIGN * BITMAP_WORD_NBITS)
      in if fake_bitmap_base_addr > bitmap_base_addr info
         then BITMAP_WORD_NBITS *
           ((fake_bitmap_base_addr - bitmap_base_addr info) div (MALLOC_ALIGN * BITMAP_WORD_NBITS))
         else 0)"

text \<open>\<open>start_idx\<close> is an \<open>unsigned\<close>, of 32 bits.\<close>

definition start_index :: "arena_bitmap_info \<Rightarrow> addr \<Rightarrow> nat" where
  "start_index info mem = (unsigned_sub mem (bitmap_base_addr info) div MALLOC_ALIGN) mod 2 ^ 32"

definition chunk_at_or_below :: "heap_env \<Rightarrow> arena_bitmap_info \<Rightarrow> nat \<Rightarrow> addr \<Rightarrow> addr option" where
  "chunk_at_or_below env info nbits_hidden mem =
     map_option (\<lambda>found_bitidx. bitmap_base_addr info + MALLOC_ALIGN * (found_bitidx + nbits_hidden))
       (bitmap_rfind env (drop (nbits_hidden div BITMAP_WORD_NBITS) (take (nwords info) (bitmap info)))
          (unsigned_sub (start_index info mem) nbits_hidden))"

text \<open>The insert, the start of the object and its size, for the arena record at \<open>ip\<close>.\<close>

definition lookup_object_info_via_bitmap :: "heap_env \<Rightarrow> addr \<Rightarrow> addr \<Rightarrow> heap_state \<Rightarrow>
    (addr \<times> addr \<times> nat) option" where
  "lookup_object_info_via_bitmap env ip mem s =
     (if ip = 0 then None
      else
        let info = arena_infos s ip in
        map_option (\<lambda>object_start. (insert_for_chunk object_start (sizefn env), object_start,
                                     usersize env object_start))
          (chunk_at_or_below env info (hidden_bits info mem) mem))"

text \<open>The same without \<open>NDEBUG\<close>, where nothing is hidden.\<close>

definition lookup_object_info_unoptimised :: "heap_env \<Rightarrow> addr \<Rightarrow> addr \<Rightarrow> heap_state \<Rightarrow>
    (addr \<times> addr \<times> nat) option" where
  "lookup_object_info_unoptimised env ip mem s =
     (if ip = 0 then None
      else
        map_option (\<lambda>object_start. (insert_for_chunk object_start (sizefn env), object_start,
                                     usersize env object_start))
          (chunk_at_or_below env (arena_infos s ip) 0 mem))"

definition lookup_object_info :: "heap_env \<Rightarrow> heap_state hooks \<Rightarrow> nat \<Rightarrow> addr \<Rightarrow> heap_state \<Rightarrow>
    ((addr \<times> addr \<times> nat) option \<times> heap_state) res" where
  "lookup_object_info env hk arena mem s =
     (if ba_begin (big_allocations s 1) = 0 then Inr (None, s)
      else if arena = 0 then Inl Null_Deref
      else case suballocator (big_allocations s arena) of
        None \<Rightarrow> Inl Null_Deref
      | Some a \<Rightarrow>
          rbind (arena_info_for_userptr env hk a mem s) (\<lambda>(ip, s).
            Inr (lookup_object_info_via_bitmap env ip mem s, s)))"

section \<open>Queries\<close>

text \<open>
  \<open>extract_and_output_alloc_site_and_type\<close>: the error, if any, then the site and the type that
  are written to the caller's variables, \<open>None\<close> where nothing is written.
\<close>

type_synonym site_and_type = "liballocs_err option \<times> addr option \<times> addr option"

definition unknown_insert :: insert where
  "unknown_insert = with_type_insert 0 (ucast (- 1 :: allocsite_id_t))"

definition finish_extract :: "addr \<Rightarrow> addr option \<Rightarrow> nat \<Rightarrow> heap_state \<Rightarrow> site_and_type \<times> heap_state" where
  "finish_extract p_ins site alloc_uniqtype s =
     (if alloc_uniqtype = 0 then
        ((Some Unrecognised_Alloc_Site, site, None),
         set_insert p_ins unknown_insert
           (s\<lparr>aborted_unrecognised_allocsite := aborted_unrecognised_allocsite s + 1\<rparr>))
      else ((None, site, Some alloc_uniqtype), s))"

definition extract_and_output_alloc_site_and_type :: "heap_env \<Rightarrow> heap_state hooks \<Rightarrow> addr option \<Rightarrow>
    heap_state \<Rightarrow> (site_and_type \<times> heap_state) res" where
  "extract_and_output_alloc_site_and_type env hk maybe_ins s =
     (case maybe_ins of
        None \<Rightarrow> Inr ((Some Unindexed_Heap_Object, None, None),
                    s\<lparr>aborted_unindexed_heap := aborted_unindexed_heap s + 1\<rparr>)
      | Some p_ins \<Rightarrow>
          if INSERT_IS_WITH_TYPE (insert_mem s p_ins) then
            Inr (finish_extract p_ins (Some 0)
              (unat (UNIQTYPE_UNSHIFT_FROM_INSERT (with_type_uniqtype_shifted (insert_mem s p_ins)))) s)
          else
            let alloc_site = unat (initial_alloc_site (insert_mem s p_ins)) in
            rbind (find_allocsite_entry_at (sites env) hk alloc_site s) (\<lambda>(entry, s).
              let alloc_uniqtype = (case entry of None \<Rightarrow> 0 | Some e \<Rightarrow> entry_uniqtype (site_entries s e)) in
              rbind (if alloc_uniqtype = 0 \<and> alloc_site \<noteq> 0 \<and>
                        addrlist_contains (unrecognised_heap_alloc_sites s) alloc_site = 0
                     then rbind (addrlist_add (realloc_addrs env) (unrecognised_heap_alloc_sites s) alloc_site)
                            (\<lambda>l. Inr (s\<lparr>unrecognised_heap_alloc_sites := l\<rparr>))
                     else Inr s) (\<lambda>s.
              rbind (allocsite_id (sites env) hk alloc_site s) (\<lambda>(i, s).
                Inr (finish_extract p_ins (Some alloc_site) alloc_uniqtype
                  (set_insert p_ins
                     (with_type_insert (UNIQTYPE_SHIFT_FOR_INSERT (of_nat alloc_uniqtype)) (ucast i)) s))))))"

text \<open>
  \<open>__generic_malloc_get_info\<close>: the error, if any, and the base and size, or nothing where they
  are not written; the site and type are extracted when the caller asks for either.
\<close>

definition generic_malloc_get_info :: "heap_env \<Rightarrow> heap_state hooks \<Rightarrow> allocator \<Rightarrow> addr \<Rightarrow> nat \<Rightarrow> bool \<Rightarrow>
    heap_state \<Rightarrow> ((site_and_type \<times> (addr \<times> nat) option) \<times> heap_state) res" where
  "generic_malloc_get_info env hk a obj maybe_the_allocation want_type_or_site s =
     (let s = s\<lparr>hit_heap_case := hit_heap_case s + 1\<rparr>;
          b = big_allocations s maybe_the_allocation
      in rbind (if maybe_the_allocation \<noteq> 0 \<and> allocated_by b = Some a then
                  let base = ba_begin b; caller_usable_size = ba_end b - ba_begin b in
                  Inr (Some (insert_for_chunk_and_caller_usable_size base (caller_usable_size + sizeof_insert),
                             base, caller_usable_size), s)
                else
                  rbind (arena_info_for_userptr env hk a obj s) (\<lambda>(ip, s).
                    Inr (map_option (\<lambda>(heap_info, base, alloc_usable_chunksize).
                           (heap_info, base, caller_usable_size_for_chunk_and_usable_size alloc_usable_chunksize))
                         (lookup_object_info_via_bitmap env ip obj s), s))) (\<lambda>(found, s).
           case found of
             None \<Rightarrow> Inr (((Some Unindexed_Heap_Object, None, None), None),
                         s\<lparr>aborted_unindexed_heap := aborted_unindexed_heap s + 1\<rparr>)
           | Some (heap_info, base, caller_usable_size) \<Rightarrow>
               if want_type_or_site then
                 rbind (extract_and_output_alloc_site_and_type env hk (Some heap_info) s) (\<lambda>(r, s).
                   Inr ((r, Some (base, caller_usable_size)), s))
               else Inr (((None, None, None), Some (base, caller_usable_size)), s)))"

definition generic_malloc_set_type :: "heap_env \<Rightarrow> heap_state hooks \<Rightarrow> allocator \<Rightarrow> addr \<Rightarrow> nat \<Rightarrow>
    heap_state \<Rightarrow> (liballocs_err option \<times> heap_state) res" where
  "generic_malloc_set_type env hk a obj new_type s =
     rbind (arena_for_userptr env hk a obj s) (\<lambda>(arena, s).
     rbind (lookup_object_info env hk arena obj s) (\<lambda>(found, s).
       case found of
         None \<Rightarrow> Inr (Some Unindexed_Heap_Object, s)
       | Some (p_ins, _) \<Rightarrow>
           rbind (if INSERT_IS_WITH_TYPE (insert_mem s p_ins)
                  then Inr (word_of_int (with_type_alloc_site_id (insert_mem s p_ins)), s)
                  else rbind (allocsite_id (sites env) hk (unat (initial_alloc_site (insert_mem s p_ins))) s)
                         (\<lambda>(i, s). Inr (ucast i, s))) (\<lambda>(existing_alloc_site_id, s).
             Inr (None, set_insert p_ins (with_type_insert (UNIQTYPE_SHIFT_FOR_INSERT (of_nat new_type))
                          existing_alloc_site_id) s))))"

end
