(* ===== verification/Malloc_Index_Correct.thy ===== *)
theory Malloc_Index_Correct
  imports Malloc_Index Pageindex_Subtree Allocsites_Correct Pageindex_Example
begin

text \<open>
  Correctness of the heap chunk index: the bitmap of an arena as the set of the addresses
  where chunks begin, the search in it, and what insertion and deletion do to it.
\<close>

section \<open>The contract of the bitmap operations\<close>

definition bit_at :: "64 word list \<Rightarrow> nat \<Rightarrow> bool" where
  "bit_at ws i \<longleftrightarrow> i div 64 < length ws \<and> bit (ws ! (i div 64)) (i mod 64)"

text \<open>Setting and clearing change one bit; the search gives the last set bit up to a position.\<close>

definition bitmap_laws :: "heap_env \<Rightarrow> bool" where
  "bitmap_laws env \<longleftrightarrow>
     (\<forall>ws i. i < 64 * length ws \<longrightarrow>
        length (bitmap_set env ws i) = length ws \<and>
        (\<forall>j. bit_at (bitmap_set env ws i) j \<longleftrightarrow> j = i \<or> bit_at ws j)) \<and>
     (\<forall>ws i. i < 64 * length ws \<longrightarrow>
        length (bitmap_clear env ws i) = length ws \<and>
        (\<forall>j. bit_at (bitmap_clear env ws i) j \<longleftrightarrow> j \<noteq> i \<and> bit_at ws j)) \<and>
     (\<forall>ws i. i < 64 * length ws \<longrightarrow>
        (case bitmap_rfind env ws i of
           None \<Rightarrow> \<forall>j\<le>i. \<not> bit_at ws j
         | Some k \<Rightarrow> k \<le> i \<and> bit_at ws k \<and> (\<forall>j. k < j \<and> j \<le> i \<longrightarrow> \<not> bit_at ws j)))"

lemma bit_at_length: "bit_at ws i \<Longrightarrow> i < 64 * length ws"
  by (auto simp: bit_at_def)

lemma bit_at_drop: "k \<le> length ws \<Longrightarrow> bit_at (drop k ws) i \<longleftrightarrow> bit_at ws (i + 64 * k)"
  by (auto simp: bit_at_def)

lemma bit_at_append_zero: "bit_at (ws @ replicate n 0) i \<longleftrightarrow> bit_at ws i"
  by (auto simp: bit_at_def nth_append)

section \<open>The bitmap of an arena as a set of chunks\<close>

definition info_ok :: "arena_bitmap_info \<Rightarrow> bool" where
  "info_ok info \<longleftrightarrow> length (bitmap info) = nwords info \<and> 1024 dvd bitmap_base_addr info"

definition chunks :: "arena_bitmap_info \<Rightarrow> addr set" where
  "chunks info = {bitmap_base_addr info + 16 * i |i. bit_at (bitmap info) i}"

text \<open>The addresses the bitmap covers, as far as its 32-bit indices reach.\<close>

definition covered :: "arena_bitmap_info \<Rightarrow> addr \<Rightarrow> bool" where
  "covered info mem \<longleftrightarrow> bitmap_base_addr info \<le> mem \<and> mem < bitmap_base_addr info + 1024 * nwords info \<and>
     mem < bitmap_base_addr info + 2 ^ 36 \<and> mem < 2 ^ 64"

lemma start_index_eq:
  assumes "covered info mem"
  shows "start_index info mem = (mem - bitmap_base_addr info) div 16"
    "(mem - bitmap_base_addr info) div 16 < 64 * nwords info"
proof -
  have m: "mem - bitmap_base_addr info < 1024 * nwords info" "mem - bitmap_base_addr info < 2 ^ 36"
    using assms by (auto simp: covered_def)
  then show "(mem - bitmap_base_addr info) div 16 < 64 * nwords info" by simp
  have "(mem - bitmap_base_addr info) div 16 < 2 ^ 32" using m(2) by simp
  moreover have "unsigned_sub mem (bitmap_base_addr info) = mem - bitmap_base_addr info"
    using assms by (intro unsigned_sub_add) (auto simp: covered_def)
  ultimately show "start_index info mem = (mem - bitmap_base_addr info) div 16"
    by (simp add: start_index_def MALLOC_ALIGN_def)
qed

text \<open>The last chunk at or below an address, if it is not below \<open>low\<close>.\<close>

definition last_chunk :: "arena_bitmap_info \<Rightarrow> addr \<Rightarrow> addr \<Rightarrow> addr option \<Rightarrow> bool" where
  "last_chunk info low mem r \<longleftrightarrow>
     (case r of
        None \<Rightarrow> \<forall>c\<in>chunks info. c \<le> mem \<longrightarrow> c < low
      | Some c \<Rightarrow> c \<in> chunks info \<and> low \<le> c \<and> c \<le> mem \<and> (\<forall>c'\<in>chunks info. c' \<le> mem \<longrightarrow> c' \<le> c))"

lemma last_chunk_unique:
  assumes "last_chunk info low mem r" "last_chunk info low mem r'"
  shows "r = r'"
proof (cases r)
  case None
  then show ?thesis
    using assms unfolding last_chunk_def by (cases r') (simp_all, meson leD)
next
  case (Some c)
  note c = assms(1) [unfolded last_chunk_def Some option.case]
  show ?thesis
  proof (cases r')
    case None
    then show ?thesis using assms(2) c unfolding last_chunk_def by (simp, meson leD)
  next
    case (Some c')
    then have "c' \<in> chunks info" "c' \<le> mem" "\<forall>d\<in>chunks info. d \<le> mem \<longrightarrow> d \<le> c'"
      using assms(2) by (auto simp: last_chunk_def)
    then have "c = c'" using c by (meson le_antisym)
    then show ?thesis using Some \<open>r = Some c\<close> by simp
  qed
qed

lemma search_from:
  assumes laws: "bitmap_laws env" and ok: "info_ok info" and cov: "covered info mem"
    and h: "h = 64 * k" "bitmap_base_addr info + 16 * h \<le> mem"
  shows "last_chunk info (bitmap_base_addr info + 16 * h) mem (chunk_at_or_below env info h mem)"
proof -
  let ?b = "bitmap_base_addr info"
  define ws where "ws = drop k (bitmap info)"
  define i where "i = (mem - ?b) div 16 - h"
  note start = start_index_eq [OF cov]
  have len: "length (bitmap info) = nwords info" using ok by (simp add: info_ok_def)
  have hi: "h \<le> (mem - ?b) div 16" using h(2) by linarith
  then have kl: "k \<le> length (bitmap info)" using start(2) h(1) len by linarith
  have lt: "i < 64 * length ws" using hi start(2) h(1) len by (simp add: ws_def i_def)
  have le: "?b + 16 * (j + h) \<le> mem \<longleftrightarrow> j \<le> i" for j
  proof -
    have "j + h \<le> (mem - ?b) div 16 \<longleftrightarrow> 16 * (j + h) \<le> mem - ?b"
      by (simp add: less_eq_div_iff_mult_less_eq mult.commute)
    then show ?thesis using hi cov unfolding i_def covered_def by linarith
  qed
  have bits: "bit_at ws j \<longleftrightarrow> bit_at (bitmap info) (j + h)" for j
    unfolding ws_def h(1) by (rule bit_at_drop [OF kl])
  have mem_lt: "(mem - ?b) div 16 < 2 ^ 64" using cov unfolding covered_def by linarith
  have eq: "chunk_at_or_below env info h mem = map_option (\<lambda>f. ?b + 16 * (f + h)) (bitmap_rfind env ws i)"
    unfolding chunk_at_or_below_def start(1) unsigned_sub_add [OF mem_lt hi]
    by (simp add: ws_def i_def h(1) len MALLOC_ALIGN_def BITMAP_WORD_NBITS_def)
  have r: "case bitmap_rfind env ws i of
      None \<Rightarrow> \<forall>j\<le>i. \<not> bit_at ws j
    | Some k \<Rightarrow> k \<le> i \<and> bit_at ws k \<and> (\<forall>j. k < j \<and> j \<le> i \<longrightarrow> \<not> bit_at ws j)"
    using laws lt unfolding bitmap_laws_def by blast
  have shift: "\<exists>j. c = ?b + 16 * (j + h) \<and> bit_at ws j" if "c \<in> chunks info" "?b + 16 * h \<le> c" for c
  proof -
    obtain n where n: "c = ?b + 16 * n" "bit_at (bitmap info) n" using \<open>c \<in> chunks info\<close> by (auto simp: chunks_def)
    then have "h \<le> n" using that(2) by simp
    then show ?thesis using n bits [of "n - h"] by (intro exI [of _ "n - h"]) simp
  qed
  show ?thesis
  proof (cases "bitmap_rfind env ws i")
    case None
    then have "c < ?b + 16 * h" if "c \<in> chunks info" "c \<le> mem" for c
      using shift [OF that(1)] that(2) le r by (metis not_le option.simps(4))
    then show ?thesis unfolding eq last_chunk_def None by simp
  next
    case (Some f)
    then have f: "f \<le> i" "bit_at ws f" "\<And>j. f < j \<Longrightarrow> j \<le> i \<Longrightarrow> \<not> bit_at ws j" using r by auto
    have "c \<le> ?b + 16 * (f + h)" if cm: "c \<in> chunks info" "c \<le> mem" for c
    proof (rule ccontr)
      assume c: "\<not> c \<le> ?b + 16 * (f + h)"
      then obtain j where "c = ?b + 16 * (j + h)" "bit_at ws j" using shift [OF cm(1)] by auto
      then show False using f(3) [of j] le [of j] c cm(2) by simp
    qed
    moreover have "?b + 16 * (f + h) \<in> chunks info" using f(2) bits unfolding chunks_def by blast
    ultimately show ?thesis unfolding eq last_chunk_def Some using f(1) le by simp
  qed
qed

text \<open>The hidden part ends at or below both the address and the largest chunk's reach.\<close>

lemma hidden_bits_props:
  assumes "info_ok info" "covered info mem" "biggest_unpromoted_object info \<le> mem"
  obtains k where "hidden_bits info mem = 64 * k"
    "bitmap_base_addr info + 16 * hidden_bits info mem \<le> mem"
    "bitmap_base_addr info + 16 * hidden_bits info mem \<le>
       max (bitmap_base_addr info) (mem - biggest_unpromoted_object info)"
proof -
  let ?b = "bitmap_base_addr info" and ?m = "mem - biggest_unpromoted_object info"
  define fake where "fake = 1024 * (?m div 1024)"
  have m: "unsigned_sub mem (biggest_unpromoted_object info) = ?m"
    using assms(2,3) by (intro unsigned_sub_add) (auto simp: covered_def)
  have eq: "hidden_bits info mem = (if fake > ?b then 64 * ((fake - ?b) div 1024) else 0)"
    by (simp add: hidden_bits_def Let_def m fake_def ROUND_DOWN_def MALLOC_ALIGN_def BITMAP_WORD_NBITS_def)
  have "1024 dvd fake" "1024 dvd ?b" using assms(1) by (simp_all add: fake_def info_ok_def)
  then have "1024 dvd fake - ?b" by (rule dvd_diff_nat)
  then have fake: "?b + 16 * hidden_bits info mem = fake" if "fake > ?b"
    using that unfolding eq by (simp add: dvd_mult_div_cancel)
  have "fake \<le> ?m" by (simp add: fake_def)
  have "?b \<le> mem" using assms(2) by (simp add: covered_def)
  show ?thesis
  proof (cases "fake > ?b")
    case True
    then show ?thesis using fake \<open>fake \<le> ?m\<close>
      by (intro that [of "(fake - ?b) div 1024"]) (simp only: eq if_True, linarith+)
  next
    case False
    then show ?thesis using \<open>?b \<le> mem\<close> by (intro that [of 0]) (simp_all add: eq)
  qed
qed

section \<open>The optimised search\<close>

lemma optimised_search:
  assumes "bitmap_laws env" "info_ok info" "covered info mem" "biggest_unpromoted_object info \<le> mem"
  shows "last_chunk info (bitmap_base_addr info) mem (chunk_at_or_below env info 0 mem)"
    "chunk_at_or_below env info (hidden_bits info mem) mem = Some c \<Longrightarrow>
       chunk_at_or_below env info 0 mem = Some c"
    "chunk_at_or_below env info 0 mem = Some c \<Longrightarrow> mem \<le> c + biggest_unpromoted_object info \<Longrightarrow>
       chunk_at_or_below env info (hidden_bits info mem) mem = Some c"
proof -
  let ?b = "bitmap_base_addr info" and ?h = "hidden_bits info mem"
  have "?b \<le> mem" using assms(3) by (simp add: covered_def)
  then show full: "last_chunk info ?b mem (chunk_at_or_below env info 0 mem)"
    using search_from [OF assms(1-3), of 0 0] by simp
  obtain k where k: "?h = 64 * k" "?b + 16 * ?h \<le> mem"
    "?b + 16 * ?h \<le> max ?b (mem - biggest_unpromoted_object info)"
    using hidden_bits_props [OF assms(2-4)] .
  note opt = search_from [OF assms(1-3) k(1,2)]
  show "chunk_at_or_below env info 0 mem = Some c" if "chunk_at_or_below env info ?h mem = Some c"
  proof -
    have "last_chunk info ?b mem (Some c)" using opt that by (simp add: last_chunk_def)
    then show ?thesis using last_chunk_unique [OF full] by blast
  qed
  show "chunk_at_or_below env info ?h mem = Some c"
    if "chunk_at_or_below env info 0 mem = Some c" "mem \<le> c + biggest_unpromoted_object info"
  proof -
    have "?b \<le> c" "c \<in> chunks info" "c \<le> mem" "\<forall>c'\<in>chunks info. c' \<le> mem \<longrightarrow> c' \<le> c"
      using full that(1) by (simp_all add: last_chunk_def)
    moreover have "?b + 16 * ?h \<le> c" using k(3) that(2) \<open>?b \<le> c\<close> by linarith
    ultimately have "last_chunk info (?b + 16 * ?h) mem (Some c)" by (simp add: last_chunk_def)
    then show ?thesis using last_chunk_unique [OF opt] by blast
  qed
qed

text \<open>
  C29. Hiding the part of the bitmap that no chunk around the address can begin in does not change what a
  lookup finds.  The optimised lookup gives what the plain one gives, or nothing if no chunk
  begins at the address or below it by at most the size of the biggest chunk that was not
  promoted to a big allocation.
\<close>

theorem optimised_lookup_equiv:
  assumes "bitmap_laws env" "ip \<noteq> 0" "info_ok (arena_infos s ip)" "covered (arena_infos s ip) mem"
    "biggest_unpromoted_object (arena_infos s ip) \<le> mem"
  shows "lookup_object_info_via_bitmap env ip mem s = lookup_object_info_unoptimised env ip mem s \<or>
    lookup_object_info_via_bitmap env ip mem s = None \<and>
    {c \<in> chunks (arena_infos s ip). c \<le> mem \<and>
       mem \<le> c + biggest_unpromoted_object (arena_infos s ip)} = {}"
proof (cases "chunk_at_or_below env (arena_infos s ip) (hidden_bits (arena_infos s ip) mem) mem")
  case (Some c)
  then show ?thesis
    using optimised_search(2) [OF assms(1,3-5) Some] assms(2)
    by (simp add: lookup_object_info_via_bitmap_def lookup_object_info_unoptimised_def Let_def)
next
  case None
  let ?i = "arena_infos s ip"
  have "lookup_object_info_via_bitmap env ip mem s = None"
    using assms(2) None by (simp add: lookup_object_info_via_bitmap_def Let_def)
  moreover have False if c: "c \<in> chunks ?i" "c \<le> mem" "mem \<le> c + biggest_unpromoted_object ?i" for c
  proof -
    have "bitmap_base_addr ?i \<le> c" using c(1) by (auto simp: chunks_def)
    then obtain c0 where c0: "chunk_at_or_below env ?i 0 mem = Some c0" "c \<le> c0"
      using optimised_search(1) [OF assms(1,3-5)] c(1,2)
      unfolding last_chunk_def by (auto split: option.splits)
    then have "mem \<le> c0 + biggest_unpromoted_object ?i" using c(3) by linarith
    then show False using optimised_search(3) [OF assms(1,3-5) c0(1)] None by simp
  qed
  ultimately show ?thesis by blast
qed

section \<open>Well-formed arenas\<close>

text \<open>
  Chunks are big enough for an insert and do not overlap, and those that are not promoted are no
  bigger than recorded.  The arena lies at an address above that size.
\<close>

definition arena_ok :: "heap_env \<Rightarrow> arena_bitmap_info \<Rightarrow> bool" where
  "arena_ok env info \<longleftrightarrow> info_ok info \<and> biggest_unpromoted_object info \<le> bitmap_base_addr info \<and>
     (\<forall>c\<in>chunks info. 8 \<le> sizefn env c \<and> sizefn env c < 2 ^ 64) \<and>
     (\<forall>c\<in>chunks info. \<forall>c'\<in>chunks info. c < c' \<longrightarrow> c + sizefn env c \<le> c') \<and>
     (\<forall>c\<in>chunks info. sizefn env c \<le> 131072 \<longrightarrow> sizefn env c - 8 \<le> biggest_unpromoted_object info)"

lemma usersize_eq: "8 \<le> sizefn env c \<Longrightarrow> sizefn env c < 2 ^ 64 \<Longrightarrow> usersize env c = sizefn env c - 8"
  by (simp add: usersize_def allocsize_to_usersize_def sizeof_insert_def unsigned_sub_add)

lemma usable_eq:
  "8 \<le> n \<Longrightarrow> n < 2 ^ 64 \<Longrightarrow> caller_usable_size_for_chunk_and_usable_size n = n - 8"
  by (simp add: caller_usable_size_for_chunk_and_usable_size_def sizeof_insert_def unsigned_sub_add)

lemma insert_for_chunk_eq:
  "8 \<le> sizefn env c \<Longrightarrow> sizefn env c < 2 ^ 64 \<Longrightarrow>
   insert_for_chunk c (sizefn env) = c + (sizefn env c - 8)"
  by (simp add: insert_for_chunk_def insert_for_chunk_and_caller_usable_size_def
      caller_usable_size_for_chunk_def usable_eq)

text \<open>In a well-formed arena a lookup inside a chunk finds it.\<close>

lemma lookup_in_chunk:
  assumes "bitmap_laws env" "ip \<noteq> 0" "arena_ok env (arena_infos s ip)" "c \<in> chunks (arena_infos s ip)"
    "sizefn env c \<le> 131072" "c \<le> mem" "mem < c + (sizefn env c - 8)" "covered (arena_infos s ip) mem"
  shows "lookup_object_info_via_bitmap env ip mem s =
    Some (c + (sizefn env c - 8), c, sizefn env c - 8)"
proof -
  let ?i = "arena_infos s ip"
  have ok: "info_ok ?i" "biggest_unpromoted_object ?i \<le> bitmap_base_addr ?i"
    "8 \<le> sizefn env c" "sizefn env c < 2 ^ 64" "sizefn env c - 8 \<le> biggest_unpromoted_object ?i"
    and disj: "\<And>c'. c' \<in> chunks ?i \<Longrightarrow> c < c' \<Longrightarrow> c + sizefn env c \<le> c'"
    using assms(3-5) unfolding arena_ok_def by auto
  have big: "biggest_unpromoted_object ?i \<le> mem" using ok(2) assms(8) by (simp add: covered_def)
  have "bitmap_base_addr ?i \<le> c" using assms(4) by (auto simp: chunks_def)
  have "c' \<le> c" if c': "c' \<in> chunks ?i" "c' \<le> mem" for c'
  proof (rule ccontr)
    assume "\<not> c' \<le> c"
    then have "c + sizefn env c \<le> c'" using disj [OF c'(1)] by simp
    then show False using c'(2) assms(7) by linarith
  qed
  then have "last_chunk ?i (bitmap_base_addr ?i) mem (Some c)"
    using assms(4,6) \<open>bitmap_base_addr ?i \<le> c\<close> by (simp add: last_chunk_def)
  then have "chunk_at_or_below env ?i 0 mem = Some c"
    using last_chunk_unique [OF optimised_search(1) [OF assms(1) ok(1) assms(8) big]] by blast
  then have "chunk_at_or_below env ?i (hidden_bits ?i mem) mem = Some c"
    using ok(5) assms(7) by (intro optimised_search(3) [OF assms(1) ok(1) assms(8) big]) auto
  then show ?thesis
    using assms(2) ok(3,4) by (simp add: lookup_object_info_via_bitmap_def Let_def usersize_eq insert_for_chunk_eq)
qed

section \<open>Insertion and deletion in an arena\<close>

lemma chunk_bit_index:
  assumes "info_ok info" "16 dvd p" "bitmap_base_addr info \<le> p" "p < 2 ^ 64"
  obtains i where "unsigned_sub p (bitmap_base_addr info) div MALLOC_ALIGN = i"
    "p = bitmap_base_addr info + 16 * i"
proof -
  have "16 dvd bitmap_base_addr info" using assms(1) by (auto simp: info_ok_def elim!: dvdE)
  then have "16 dvd p - bitmap_base_addr info" using assms(2) by (rule dvd_diff_nat [rotated])
  then show ?thesis
    using assms(3) unsigned_sub_add [OF assms(4,3)]
    by (intro that) (auto simp: MALLOC_ALIGN_def)
qed

lemma grow_bitmap_ok:
  assumes "info_ok info" "bitmap_base_addr info \<le> e" "e + 1024 < 2 ^ 64" "\<And>n. realloc_succeeds env n"
  shows "\<exists>info'. grow_bitmap env e info = Inr info' \<and> info_ok info' \<and>
    chunks info' = chunks info \<and> bitmap_base_addr info' = bitmap_base_addr info \<and>
    biggest_unpromoted_object info' = biggest_unpromoted_object info \<and>
    e \<le> bitmap_base_addr info + 1024 * nwords info'"
proof -
  let ?b = "bitmap_base_addr info"
  define up where "up = ROUND_UP e 1024"
  define n where "n = (up - ?b) div 1024"
  have up: "e \<le> up" "up < 2 ^ 64" "1024 dvd up"
    using assms(3) by (auto simp: up_def ROUND_UP_def)
  have "1024 dvd up - ?b" using up(3) assms(1) by (intro dvd_diff_nat) (auto simp: info_ok_def)
  then have reach: "?b + 1024 * n = up" using assms(2) up(1) by (simp add: n_def)
  have "unsigned_sub up ?b = up - ?b" using up(1,2) assms(2) by (intro unsigned_sub_add) auto
  then have eq: "grow_bitmap env e info =
      (if nwords info < n then Inr (info\<lparr>bitmap := bitmap info @ replicate (n - nwords info) 0, nwords := n\<rparr>)
       else Inr info)"
    using assms(1,4) by (simp add: grow_bitmap_def Let_def up_def n_def info_ok_def MALLOC_ALIGN_def BITMAP_WORD_NBITS_def)
  show ?thesis
  proof (cases "nwords info < n")
    case True
    then show ?thesis using assms(1) reach up(1)
      by (simp add: eq info_ok_def chunks_def bit_at_append_zero)
  next
    case False
    then have "?b + 1024 * n \<le> ?b + 1024 * nwords info" by simp
    then show ?thesis using False assms(1) reach up(1) by (simp add: eq)
  qed
qed

lemma set_chunk_bit_ok:
  assumes "bitmap_laws env" "info_ok info" "16 dvd p" "bitmap_base_addr info \<le> p"
    "p < bitmap_base_addr info + 1024 * nwords info" "p < 2 ^ 64"
  shows "\<exists>ws. set_chunk_bit env p info = Inr (info\<lparr>bitmap := ws\<rparr>) \<and> info_ok (info\<lparr>bitmap := ws\<rparr>) \<and>
    chunks (info\<lparr>bitmap := ws\<rparr>) = insert p (chunks info)"
proof -
  obtain i where i: "unsigned_sub p (bitmap_base_addr info) div MALLOC_ALIGN = i"
    "p = bitmap_base_addr info + 16 * i" using chunk_bit_index [OF assms(2-4,6)] .
  have lt: "i < 64 * length (bitmap info)" using assms(2,5) i(2) by (simp add: info_ok_def)
  have b: "length (bitmap_set env (bitmap info) i) = length (bitmap info)"
    "\<And>j. bit_at (bitmap_set env (bitmap info) i) j \<longleftrightarrow> j = i \<or> bit_at (bitmap info) j"
    using assms(1) lt unfolding bitmap_laws_def by blast+
  show ?thesis
    using lt assms(2) i b by (intro exI [of _ "bitmap_set env (bitmap info) i"])
      (auto simp: set_chunk_bit_def Let_def info_ok_def chunks_def BITMAP_WORD_NBITS_def)
qed

lemma clear_chunk_bit_ok:
  assumes "bitmap_laws env" "info_ok info" "p \<in> chunks info" "p < 2 ^ 64"
  shows "\<exists>ws. clear_chunk_bit env p info = Inr (info\<lparr>bitmap := ws\<rparr>) \<and> info_ok (info\<lparr>bitmap := ws\<rparr>) \<and>
    chunks (info\<lparr>bitmap := ws\<rparr>) = chunks info - {p}"
proof -
  obtain i where p: "p = bitmap_base_addr info + 16 * i" "bit_at (bitmap info) i"
    using assms(3) by (auto simp: chunks_def)
  have i: "unsigned_sub p (bitmap_base_addr info) div MALLOC_ALIGN = i"
    using unsigned_sub_add [OF assms(4), of "bitmap_base_addr info"] p(1) by (simp add: MALLOC_ALIGN_def)
  have lt: "i < 64 * length (bitmap info)" by (rule bit_at_length [OF p(2)])
  have b: "length (bitmap_clear env (bitmap info) i) = length (bitmap info)"
    "\<And>j. bit_at (bitmap_clear env (bitmap info) i) j \<longleftrightarrow> j \<noteq> i \<and> bit_at (bitmap info) j"
    using assms(1) lt unfolding bitmap_laws_def by blast+
  let ?i = "info\<lparr>bitmap := bitmap_clear env (bitmap info) i\<rparr>"
  have "clear_chunk_bit env p info = Inr ?i"
    using lt assms(2) unfolding clear_chunk_bit_def Let_def i by (simp add: info_ok_def BITMAP_WORD_NBITS_def)
  moreover have "info_ok ?i" using assms(2) b(1) by (simp add: info_ok_def)
  moreover have "chunks ?i = chunks info - {p}" unfolding chunks_def p(1) by (auto simp: b(2))
  ultimately show ?thesis by blast
qed

section \<open>Framing\<close>

lemma heap_same_shape:
  "same_shape s (upd_info ip f s)" "same_shape s (set_insert p ins s)" "same_shape s (s\<lparr>ool_cache := c\<rparr>)"
  by (simp_all add: same_shape_def upd_info_def set_insert_def)

lemma heap_frame [simp]:
  "big_allocations (upd_info ip f s) = big_allocations s"
  "big_allocations (set_insert p ins s) = big_allocations s"
  "arena_infos (upd_info ip f s) = (arena_infos s)(ip := f (arena_infos s ip))"
  "arena_infos (set_insert p ins s) = arena_infos s"
  "insert_mem (upd_info ip f s) = insert_mem s"
  "insert_mem (set_insert p ins s) = (insert_mem s)(p := ins)"
  by (simp_all add: upd_info_def set_insert_def)

lemma heap_inv [simp]:
  "pi_inv s \<Longrightarrow> pi_inv (upd_info ip f s)" "pi_inv s \<Longrightarrow> pi_inv (set_insert p ins s)"
  "pi_inv s \<Longrightarrow> pi_inv (s\<lparr>ool_cache := c\<rparr>)"
  by (blast intro: same_shape_inv heap_same_shape)+

lemma arena_info_unique:
  assumes "pi_inv s" "{k. used s k \<and> contains_addr s k x \<and> suballocator (big_allocations s k) = Some a} = {arena}"
  shows "arena_info_for_userptr env hk a x s = Inr (suballocator_private (big_allocations s arena), s)"
proof -
  have ar: "used s arena" "contains_addr s arena x" using assms(2) by auto
  obtain r where r: "find_bigalloc_recursive hk 0 x a True s = Inr (r, s)"
    "outermost s {k. used s k \<and> contains_addr s k x \<and> allocator_matches s a True k} r"
    using find_from_root_ok [OF assms(1) ar] by blast
  have "{k. used s k \<and> contains_addr s k x \<and> allocator_matches s a True k} = {arena}"
    using assms(2) by (simp add: allocator_matches_def)
  then have "r = arena" "r \<noteq> 0" using r(2) by (auto simp: outermost_def split: if_splits)
  then show ?thesis
    using r(1) by (simp add: arena_info_for_userptr_def arena_for_userptr_def
        lookup_bigalloc_from_root_by_suballocator_def)
qed

lemma arena_found:
  assumes "pi_inv s" "used s arena" "contains_addr s arena x" "suballocator (big_allocations s arena) = Some a"
  shows "\<exists>r. lookup_bigalloc_under_by_suballocator hk x a 0 s = Inr (r, s) \<and> r \<noteq> 0"
proof -
  obtain r where r: "find_bigalloc_recursive hk 0 x a True s = Inr (r, s)"
    "outermost s {k. used s k \<and> contains_addr s k x \<and> allocator_matches s a True k} r"
    using find_from_root_ok [OF assms(1-3)] by blast
  have "arena \<in> {k. used s k \<and> contains_addr s k x \<and> allocator_matches s a True k}"
    using assms(2-4) by (simp add: allocator_matches_def)
  then have "r \<noteq> 0" using r(2) unfolding outermost_def by (metis empty_iff)
  then show ?thesis using r(1) by (simp add: lookup_bigalloc_under_by_suballocator_def)
qed

section \<open>Inserting a chunk\<close>

text \<open>The arena record after a chunk of a given caller-usable size has gone in.\<close>

lemma arena_ok_insert:
  assumes "arena_ok env info" "info_ok info'" "chunks info' = insert p (chunks info)"
    "bitmap_base_addr info' = bitmap_base_addr info"
    "biggest_unpromoted_object info' = max (sizefn env p - 8) (biggest_unpromoted_object info)"
    "8 \<le> sizefn env p" "sizefn env p \<le> 131072"
    "\<And>c. c \<in> chunks info \<Longrightarrow> c + sizefn env c \<le> p \<or> p + sizefn env p \<le> c"
    "sizefn env p \<le> bitmap_base_addr info"
  shows "arena_ok env info'"
proof -
  have old: "info_ok info" "biggest_unpromoted_object info \<le> bitmap_base_addr info"
    and size: "\<And>c. c \<in> chunks info \<Longrightarrow> 8 \<le> sizefn env c \<and> sizefn env c < 2 ^ 64"
    and disj: "\<And>c c'. c \<in> chunks info \<Longrightarrow> c' \<in> chunks info \<Longrightarrow> c < c' \<Longrightarrow> c + sizefn env c \<le> c'"
    and small: "\<And>c. c \<in> chunks info \<Longrightarrow> sizefn env c \<le> 131072 \<Longrightarrow>
      sizefn env c - 8 \<le> biggest_unpromoted_object info"
    using assms(1) unfolding arena_ok_def by blast+
  have new: "c \<in> chunks info' \<longleftrightarrow> c = p \<or> c \<in> chunks info" for c using assms(3) by simp
  show ?thesis
    unfolding arena_ok_def
  proof (intro conjI ballI impI)
    fix c c' assume c: "c \<in> chunks info'" "c' \<in> chunks info'" "c < c'"
    consider "c \<in> chunks info" "c' \<in> chunks info" | "c = p" "c' \<in> chunks info" | "c \<in> chunks info" "c' = p"
      using c new [of c] new [of c'] by (metis less_irrefl)
    then show "c + sizefn env c \<le> c'"
    proof cases
      case 1 then show ?thesis using disj c(3) by blast
    next
      case 2 then show ?thesis using assms(8) [OF 2(2)] size [OF 2(2)] c(3) by auto
    next
      case 3 then show ?thesis using assms(6) assms(8) [OF 3(1)] c(3) by linarith
    qed
  next
    fix c assume c: "c \<in> chunks info'"
    show "8 \<le> sizefn env c" using c new [of c] size [of c] assms(6) by auto
    show "sizefn env c < 2 ^ 64" using c new [of c] size [of c] assms(7) by auto
    show "sizefn env c - 8 \<le> biggest_unpromoted_object info'" if "sizefn env c \<le> 131072"
      using c new [of c] small [OF _ that] assms(5) by auto
  qed (use old assms in auto)
qed

lemma insert_steps:
  assumes "pi_inv s" "used s arena" "suballocator (big_allocations s arena) = Some a"
    "ba_begin (big_allocations s arena) \<le> p" "p + req \<le> ba_end (big_allocations s arena)" "0 < req"
    "grow_bitmap env (p + req) (arena_infos s ip) = Inr info1"
    "8 \<le> sizefn env p" "sizefn env p \<le> 131072"
    "set_chunk_bit env p (info1\<lparr>biggest_allocated_object := max (sizefn env p - 8) (biggest_allocated_object info1),
        biggest_unpromoted_object := max (sizefn env p - 8) (biggest_unpromoted_object info1)\<rparr>) = Inr info2"
  shows "\<exists>s'. generic_malloc_index_insert env hk a ip p req caller s = Inr (p + (sizefn env p - 8), s') \<and>
    pi_inv s' \<and> arena_infos s' = (arena_infos s)(ip := info2) \<and>
    insert_mem s' = (insert_mem s)(p + (sizefn env p - 8) :=
      write_initial (of_nat caller) (insert_mem s (p + (sizefn env p - 8))))"
proof -
  define s1 where "s1 = upd_info ip (\<lambda>_. info1) s"
  have s1: "pi_inv s1" "used s1 arena" "big_allocations s1 = big_allocations s"
    using assms(1,2) by (simp_all add: s1_def BIGALLOC_IN_USE_def)
  have "contains_addr s arena (p + req - 1)" "contains_addr s1 arena p"
    using assms(4-6) s1(3) by (auto simp: contains_addr_def)
  then obtain r1 r2 where r:
    "lookup_bigalloc_under_by_suballocator hk (p + req - 1) a 0 s = Inr (r1, s)" "r1 \<noteq> 0"
    "lookup_bigalloc_under_by_suballocator hk p a 0 s1 = Inr (r2, s1)" "r2 \<noteq> 0"
    using arena_found [OF assms(1,2) _ assms(3)] arena_found [OF s1(1,2)] s1(3) assms(3) by metis
  have ens: "ensure_has_bitmap_to env hk a ip (p + req) s = Inr s1"
    using r(1,2) assms(7) by (simp add: ensure_has_bitmap_to_def s1_def)
  have u: "caller_usable_size_for_chunk_and_usable_size (sizefn env p) = sizefn env p - 8"
    using assms(8,9) by (intro usable_eq) auto
  define q where "q = p + (sizefn env p - 8)"
  define s2 where "s2 = set_insert q (write_initial (of_nat caller) (insert_mem s1 q)) s1"
  define s3 where "s3 = upd_info ip (\<lambda>info. info\<lparr>biggest_unpromoted_object :=
      max (sizefn env p - 8) (biggest_unpromoted_object info)\<rparr>)
    (upd_info ip (\<lambda>info. info\<lparr>biggest_allocated_object :=
      max (sizefn env p - 8) (biggest_allocated_object info)\<rparr>) s2)"
  have "set_chunk_bit env p (arena_infos s3 ip) = Inr info2"
    using assms(10) by (simp add: s3_def s2_def s1_def)
  then have "generic_malloc_index_insert env hk a ip p req caller s = Inr (q, upd_info ip (\<lambda>_. info2) s3)"
    unfolding generic_malloc_index_insert_def ens rbind.simps r(3) prod.case Let_def u
      insert_for_chunk_and_caller_usable_size_def if_not_P [OF r(4)]
      SHOULD_PROMOTE_TO_BIGALLOC_def if_not_P [OF assms(9) [folded not_less]]
      q_def [symmetric] s2_def [symmetric] s3_def [symmetric]
    by (simp only: rbind.simps)
  moreover have "pi_inv (upd_info ip (\<lambda>_. info2) s3)" using s1(1) by (simp add: s3_def s2_def)
  ultimately show ?thesis
    by (intro exI [of _ "upd_info ip (\<lambda>_. info2) s3"]) (simp add: s3_def s2_def s1_def q_def)
qed

text \<open>
  C30. Indexing a chunk below the promotion limit, in a part of its arena where no other chunk lies,
  succeeds: the arena stays well formed and has exactly this chunk more, the insert at the end of
  the chunk holds the allocation site, and a lookup of any address the caller asked for finds the
  chunk, its insert and its size.
\<close>

theorem index_insert_then_lookup:
  assumes "bitmap_laws env" "\<And>n. realloc_succeeds env n" "pi_inv s" "used s arena"
    "suballocator (big_allocations s arena) = Some a"
    "ba_begin (big_allocations s arena) \<le> p" "p + req \<le> ba_end (big_allocations s arena)"
    "ip \<noteq> 0" "arena_ok env (arena_infos s ip)" "16 dvd p" "bitmap_base_addr (arena_infos s ip) \<le> p"
    "req + 8 \<le> sizefn env p" "sizefn env p \<le> 131072"
    "\<And>c. c \<in> chunks (arena_infos s ip) \<Longrightarrow> c + sizefn env c \<le> p \<or> p + sizefn env p \<le> c"
    "p + req \<le> bitmap_base_addr (arena_infos s ip) + 2 ^ 36" "p + req + 1024 < 2 ^ 64" "site < 2 ^ 47"
    "p \<le> mem" "mem < p + req" "sizefn env p \<le> bitmap_base_addr (arena_infos s ip)"
  shows "\<exists>s'. generic_malloc_index_insert env hk a ip p req site s = Inr (p + (sizefn env p - 8), s') \<and>
    pi_inv s' \<and> arena_ok env (arena_infos s' ip) \<and>
    chunks (arena_infos s' ip) = insert p (chunks (arena_infos s ip)) \<and>
    initial_alloc_site (insert_mem s' (p + (sizefn env p - 8))) = of_nat site \<and>
    lookup_object_info_via_bitmap env ip mem s' = Some (p + (sizefn env p - 8), p, sizefn env p - 8)"
proof -
  let ?i = "arena_infos s ip"
  have "info_ok ?i" using assms(9) by (simp add: arena_ok_def)
  then obtain i1 where i1: "grow_bitmap env (p + req) ?i = Inr i1" "info_ok i1" "chunks i1 = chunks ?i"
    "bitmap_base_addr i1 = bitmap_base_addr ?i" "biggest_unpromoted_object i1 = biggest_unpromoted_object ?i"
    "p + req \<le> bitmap_base_addr ?i + 1024 * nwords i1"
    using grow_bitmap_ok [of ?i "p + req" env] assms(2,11,16) by auto
  define i2 where "i2 = i1\<lparr>biggest_allocated_object := max (sizefn env p - 8) (biggest_allocated_object i1),
      biggest_unpromoted_object := max (sizefn env p - 8) (biggest_unpromoted_object i1)\<rparr>"
  have i2: "info_ok i2" "chunks i2 = chunks ?i" "bitmap_base_addr i2 = bitmap_base_addr ?i" "nwords i2 = nwords i1"
    using i1(2-4) by (simp_all add: i2_def info_ok_def chunks_def)
  have lt: "p < bitmap_base_addr i2 + 1024 * nwords i2" "p < 2 ^ 64" "0 < req"
    using i1(6) i2(3,4) assms(16,18,19) by linarith+
  obtain ws where ws: "set_chunk_bit env p i2 = Inr (i2\<lparr>bitmap := ws\<rparr>)" "info_ok (i2\<lparr>bitmap := ws\<rparr>)"
    "chunks (i2\<lparr>bitmap := ws\<rparr>) = insert p (chunks ?i)"
    using set_chunk_bit_ok [OF assms(1) i2(1) assms(10) _ lt(1,2)] assms(11) i2(2,3) by auto
  have size: "8 \<le> sizefn env p" using assms(12) by simp
  obtain s' where s': "generic_malloc_index_insert env hk a ip p req site s = Inr (p + (sizefn env p - 8), s')"
    "pi_inv s'" "arena_infos s' = (arena_infos s)(ip := i2\<lparr>bitmap := ws\<rparr>)"
    "insert_mem s' = (insert_mem s)(p + (sizefn env p - 8) :=
      write_initial (of_nat site) (insert_mem s (p + (sizefn env p - 8))))"
    using insert_steps [OF assms(3-7) lt(3) i1(1) size assms(13) ws(1) [unfolded i2_def]] by (auto simp: i2_def)
  have ok: "arena_ok env (arena_infos s' ip)"
    using arena_ok_insert [OF assms(9) ws(2,3) _ _ size assms(13,14,20)] s'(3) i1(5) i2(3) by (simp add: i2_def)
  have cov: "covered (arena_infos s' ip) mem"
    using i1(6) i2(3,4) assms(11,15,16,18,19) by (simp add: s'(3) covered_def)
  have "of_nat site < (2 ^ 47 :: 64 word)"
    using assms(17) by (simp add: word_less_nat_alt unsigned_of_nat take_bit_nat_eq_self)
  then have "initial_alloc_site (insert_mem s' (p + (sizefn env p - 8))) = of_nat site"
    by (simp add: s'(4) initial_fields take_bit_small)
  moreover have "lookup_object_info_via_bitmap env ip mem s' = Some (p + (sizefn env p - 8), p, sizefn env p - 8)"
    by (rule lookup_in_chunk [OF assms(1,8) ok _ assms(13,18) _ cov]) (use s'(3) ws(3) assms(12,19) in auto)
  ultimately show ?thesis using s' ok ws(3) by auto
qed

section \<open>Deleting a chunk\<close>

lemma arena_ok_subset:
  assumes "arena_ok env info" "info_ok (info\<lparr>bitmap := ws\<rparr>)" "chunks (info\<lparr>bitmap := ws\<rparr>) \<subseteq> chunks info"
  shows "arena_ok env (info\<lparr>bitmap := ws\<rparr>)"
proof -
  have sub: "c \<in> chunks info" if "c \<in> chunks (info\<lparr>bitmap := ws\<rparr>)" for c using assms(3) that by blast
  show ?thesis
    using assms(1,2) unfolding arena_ok_def by (simp add: sub)
qed

lemma not_big:
  assumes "pi_inv s" "used s k" "contains_addr s k x"
    "\<And>k. used s k \<Longrightarrow> contains_addr s k x \<Longrightarrow> allocated_by (big_allocations s k) \<noteq> Some a"
  shows "lookup_bigalloc_under hk x a 0 s = Inr (0, s)"
proof -
  obtain r where r: "find_bigalloc_recursive hk 0 x a False s = Inr (r, s)"
    "outermost s {k. used s k \<and> contains_addr s k x \<and> allocator_matches s a False k} r"
    using find_from_root_ok [OF assms(1-3)] by blast
  have "{k. used s k \<and> contains_addr s k x \<and> allocator_matches s a False k} = {}"
    using assms(4) by (auto simp: allocator_matches_def)
  then have "r = 0" using r(2) unfolding outermost_def by (metis empty_iff)
  then show ?thesis using r(1) by (simp add: lookup_bigalloc_under_def)
qed

text \<open>
  C31. Deleting a chunk that is not a big allocation removes exactly it from its arena, which stays well
  formed, and invalidates what the range cache holds of it; lookups inside any other chunk below the promotion limit
  still find that chunk.
\<close>

theorem index_delete_forgets:
  assumes "bitmap_laws env" "pi_inv s" "used s arena" "contains_addr s arena p"
    "suballocator (big_allocations s arena) = Some a"
    "\<And>k. used s k \<Longrightarrow> contains_addr s k p \<Longrightarrow> allocated_by (big_allocations s k) \<noteq> Some a"
    "ip \<noteq> 0" "arena_ok env (arena_infos s ip)" "p \<in> chunks (arena_infos s ip)" "p < 2 ^ 64"
    "d \<in> chunks (arena_infos s ip)" "d \<noteq> p" "sizefn env d \<le> 131072"
    "d \<le> mem" "mem < d + (sizefn env d - 8)" "covered (arena_infos s ip) mem"
  shows "\<exists>s'. generic_malloc_index_delete env hk a ip p s = Inr s' \<and> pi_inv s' \<and>
    arena_ok env (arena_infos s' ip) \<and> chunks (arena_infos s' ip) = chunks (arena_infos s ip) - {p} \<and>
    ool_cache s' = uncache_all p (sizefn env p) (ool_cache s) \<and>
    lookup_object_info_via_bitmap env ip mem s' = Some (d + (sizefn env d - 8), d, sizefn env d - 8)"
proof -
  let ?i = "arena_infos s ip"
  define s0 where "s0 = s\<lparr>ool_cache := uncache_all p (sizefn env p) (ool_cache s)\<rparr>"
  have s0: "pi_inv s0" "used s0 arena" "contains_addr s0 arena p" "big_allocations s0 = big_allocations s"
    "arena_infos s0 = arena_infos s"
    using assms(2-4) by (simp_all add: s0_def BIGALLOC_IN_USE_def contains_addr_def)
  have nb: "lookup_bigalloc_under hk p a 0 s0 = Inr (0, s0)"
    using assms(6) s0(4) by (intro not_big [OF s0(1-3)]) (auto simp: BIGALLOC_IN_USE_def contains_addr_def)
  obtain r where r: "lookup_bigalloc_under_by_suballocator hk p a 0 s0 = Inr (r, s0)"
    using arena_found [OF s0(1-3)] assms(5) s0(4) by auto
  have "info_ok ?i" using assms(8) by (simp add: arena_ok_def)
  then obtain ws where ws: "clear_chunk_bit env p ?i = Inr (?i\<lparr>bitmap := ws\<rparr>)" "info_ok (?i\<lparr>bitmap := ws\<rparr>)"
    "chunks (?i\<lparr>bitmap := ws\<rparr>) = chunks ?i - {p}"
    using clear_chunk_bit_ok [OF assms(1) _ assms(9,10)] by blast
  define s' where "s' = upd_info ip (\<lambda>_. ?i\<lparr>bitmap := ws\<rparr>) s0"
  have del: "generic_malloc_index_delete env hk a ip p s = Inr s'"
    unfolding generic_malloc_index_delete_def Let_def s0_def [symmetric] nb rbind.simps prod.case
    using r ws(1) s0(5) by (simp add: s'_def)
  have i': "arena_infos s' ip = ?i\<lparr>bitmap := ws\<rparr>" by (simp add: s'_def)
  have ok: "arena_ok env (arena_infos s' ip)"
    unfolding i' using ws(3) by (intro arena_ok_subset [OF assms(8) ws(2)]) auto
  have "covered (arena_infos s' ip) mem" using assms(16) unfolding i' by (simp add: covered_def)
  then have "lookup_object_info_via_bitmap env ip mem s' = Some (d + (sizefn env d - 8), d, sizefn env d - 8)"
    using assms(11,12) ws(3) by (intro lookup_in_chunk [OF assms(1,7) ok _ assms(13-15)]) (auto simp: i')
  moreover have "pi_inv s'" using s0(1) by (simp add: s'_def)
  moreover have "ool_cache s' = uncache_all p (sizefn env p) (ool_cache s)"
    by (simp add: s'_def s0_def upd_info_def)
  ultimately show ?thesis using del ok ws(3) i' by auto
qed

text \<open>
  C32. Deleting a chunk that was promoted to a big allocation deletes the big allocation but
  leaves the chunk's bit set: no lookup in the bitmap changes, so the freed chunk is still found.
\<close>

theorem promoted_delete_leaves_bit:
  assumes "pi_inv s" "used s b" "contains_addr s b p" "allocated_by (big_allocations s b) = Some a"
    "\<not> contains_addr s (nommap_bigalloc s) p"
  shows "\<exists>s'. generic_malloc_index_delete env hk a ip p s = Inr s' \<and> pi_inv s' \<and> \<not> used s' b \<and>
    chunks (arena_infos s' ip) = chunks (arena_infos s ip) \<and>
    lookup_object_info_via_bitmap env ip mem s' = lookup_object_info_via_bitmap env ip mem s"
proof -
  define s0 where "s0 = s\<lparr>ool_cache := uncache_all p (sizefn env p) (ool_cache s)\<rparr>"
  have s0: "pi_inv s0" "used s0 b" "contains_addr s0 b p" "big_allocations s0 = big_allocations s"
    "arena_infos s0 = arena_infos s" "nommap_bigalloc s0 = nommap_bigalloc s"
    using assms(1-3) by (simp_all add: s0_def BIGALLOC_IN_USE_def contains_addr_def)
  let ?K = "{k. used s0 k \<and> contains_addr s0 k p \<and> allocator_matches s0 a False k}"
  obtain r where r: "find_bigalloc_recursive hk 0 p a False s0 = Inr (r, s0)" "outermost s0 ?K r"
    using find_from_root_ok [OF s0(1-3)] by blast
  have "b \<in> ?K" using s0(2-4) assms(4) by (simp add: allocator_matches_def)
  then have r': "r \<noteq> 0" "r \<in> ?K" "anc s0 r b"
    using r(2) unfolding outermost_def by (metis empty_iff)+
  have "r \<noteq> nommap_bigalloc s0"
    using r'(2) assms(5) s0(4,6) by (auto simp: contains_addr_def)
  then obtain s' where s': "bigalloc_del r s0 = Inr s'" "pi_inv s'" "pruned s0 (desc s0 r) (par s0 r) s'"
    using bigalloc_del_ok [OF s0(1)] r'(2) by blast
  have "generic_malloc_index_delete env hk a ip p s = Inr s'"
    using r(1) r'(1,2) s'(1) unfolding generic_malloc_index_delete_def Let_def s0_def [symmetric]
    by (simp add: lookup_bigalloc_under_def delete_bigalloc_at_def find_bigalloc_from_root_def allocator_matches_def)
  moreover have "\<not> used s' b"
    using s'(3) r'(3) s0(2) by (auto simp: pruned_def BIGALLOC_IN_USE_def desc_def)
  moreover have "pi_state.more s' = pi_state.more s0" using s'(3) by (simp add: pruned_def)
  then have "arena_infos s' = arena_infos s0" by (cases s'; cases s0) simp
  ultimately show ?thesis
    using s'(2) s0(5) by (intro exI [of _ s']) (simp add: lookup_object_info_via_bitmap_def)
qed

section \<open>Queries\<close>

text \<open>
  The lookup already gives the size without the insert, and the query takes the insert's size off
  once more: the size reported is eight bytes short of what the caller may use.
\<close>

lemma get_info_size_short:
  assumes "bitmap_laws env" "ip \<noteq> 0" "arena_ok env (arena_infos s ip)" "c \<in> chunks (arena_infos s ip)"
    "sizefn env c \<le> 131072" "16 \<le> sizefn env c" "c \<le> mem" "mem < c + (sizefn env c - 8)"
    "covered (arena_infos s ip) mem"
    "\<And>n. arena_info_for_userptr env hk a mem (s\<lparr>hit_heap_case := n\<rparr>) = Inr (ip, s\<lparr>hit_heap_case := n\<rparr>)"
    "b = 0 \<or> allocated_by (big_allocations s b) \<noteq> Some a"
  shows "generic_malloc_get_info env hk a mem b False s =
    Inr (((None, None, None), Some (c, sizefn env c - 16)), s\<lparr>hit_heap_case := hit_heap_case s + 1\<rparr>)"
proof -
  define s1 where "s1 = s\<lparr>hit_heap_case := hit_heap_case s + 1\<rparr>"
  have "lookup_object_info_via_bitmap env ip mem s1 = lookup_object_info_via_bitmap env ip mem s"
    by (simp add: lookup_object_info_via_bitmap_def s1_def)
  also have "\<dots> = Some (c + (sizefn env c - 8), c, sizefn env c - 8)"
    by (rule lookup_in_chunk [OF assms(1-5,7-9)])
  finally have l: "lookup_object_info_via_bitmap env ip mem s1 = Some (c + (sizefn env c - 8), c, sizefn env c - 8)" .
  have u: "caller_usable_size_for_chunk_and_usable_size (sizefn env c - 8) = sizefn env c - 16"
    using assms(5,6) by (subst usable_eq) auto
  show ?thesis
    using assms(10) [of "hit_heap_case s + 1"] l u assms(11)
    unfolding generic_malloc_get_info_def Let_def s1_def [symmetric] by (auto simp: s1_def)
qed

text \<open>
  C33. The marker written to a chunk whose allocation site is not recognised does not stop the search
  from being repeated: it is read as an initial insert with the site \<open>0x7fff\<close>, so the next
  query looks that address up, reports it as the site and adds it to the unrecognised ones.
\<close>

theorem unknown_marker_not_recognised:
  assumes "insert_mem s p = unknown_insert"
    "find_allocsite_entry_at (sites env) hk 32767 s = Inr (None, s)"
    "\<And>l. allocsite_id (sites env) hk 32767 (s\<lparr>unrecognised_heap_alloc_sites := l\<rparr>) =
       Inr (i, s\<lparr>unrecognised_heap_alloc_sites := l\<rparr>)"
    "addrlist_ok (unrecognised_heap_alloc_sites s)"
    "\<And>n. \<exists>ys. realloc_addrs env n = Some ys \<and> length ys = n"
  shows "\<exists>s'. extract_and_output_alloc_site_and_type env hk (Some p) s =
      Inr ((Some Unrecognised_Alloc_Site, Some 32767, None), s') \<and>
    32767 \<in> set (addrlist_list (unrecognised_heap_alloc_sites s')) \<and>
    insert_mem s' p = unknown_insert"
proof -
  let ?l = "unrecognised_heap_alloc_sites s"
  have nt: "\<not> INSERT_IS_WITH_TYPE unknown_insert"
    by (simp add: unknown_insert_def INSERT_IS_WITH_TYPE_def with_type_fields)
  have "initial_alloc_site unknown_insert = mask 15"
    by (rule bit_eqI)
      (auto simp: unknown_insert_def initial_alloc_site_def with_type_insert_def bit_set_bit_field bit_simps)
  then have site: "unat (initial_alloc_site unknown_insert) = 32767"
    by (simp add: mask_eq_exp_minus_1)
  obtain l' where l': "addrlist_add (realloc_addrs env) ?l 32767 = Inr l'" "addrlist_list l' = addrlist_list ?l @ [32767]"
    using addrlist_add_ok [OF assms(4,5)] .
  obtain l where l: "(if addrlist_contains ?l 32767 = 0 then addrlist_add (realloc_addrs env) ?l 32767 else Inr ?l) = Inr l"
    "32767 \<in> set (addrlist_list l)"
    using l' addrlist_contains_iff [OF assms(4), of 32767]
    by (cases "addrlist_contains ?l 32767 = 0") auto
  define s1 where "s1 = s\<lparr>unrecognised_heap_alloc_sites := l\<rparr>"
  have add: "(if addrlist_contains ?l 32767 = 0
      then rbind (addrlist_add (realloc_addrs env) ?l 32767) (\<lambda>l. Inr (s\<lparr>unrecognised_heap_alloc_sites := l\<rparr>))
      else Inr s) = Inr s1"
    using l(1) by (auto simp: s1_def split: if_splits)
  show ?thesis
    using nt site assms(1,2) add assms(3) [of l, folded s1_def] l(2)
    by (simp add: extract_and_output_alloc_site_and_type_def Let_def finish_extract_def)
      (simp add: s1_def set_insert_def)
qed

section \<open>A concrete heap\<close>

text \<open>
  The second allocation of the example state is an arena of the default malloc with two small chunks; a
  third, promoted one is the third allocation.
\<close>

definition ref_bitmap_set :: "64 word list \<Rightarrow> nat \<Rightarrow> 64 word list" where
  "ref_bitmap_set ws i = ws[i div 64 := set_bit (i mod 64) (ws ! (i div 64))]"

definition ref_bitmap_clear :: "64 word list \<Rightarrow> nat \<Rightarrow> 64 word list" where
  "ref_bitmap_clear ws i = ws[i div 64 := unset_bit (i mod 64) (ws ! (i div 64))]"

definition ref_bitmap_rfind :: "64 word list \<Rightarrow> nat \<Rightarrow> nat option" where
  "ref_bitmap_rfind ws i = ref_bsearch (\<lambda>j. if bit_at ws j then 0 else 1) (Suc i) 0"

definition ex_heap_env :: heap_env where
  "ex_heap_env = \<lparr>sizefn = (\<lambda>c. if c = 69632 then 140000 else 64), private_malloc = (\<lambda>_. 900),
     realloc_succeeds = (\<lambda>_. True), realloc_addrs = (\<lambda>n. Some (replicate n 0)), free_info_fn = 3,
     bitmap_set = ref_bitmap_set, bitmap_clear = ref_bitmap_clear, bitmap_rfind = ref_bitmap_rfind,
     sites = ex_sites_env\<rparr>"

definition ex_info :: arena_bitmap_info where
  "ex_info = \<lparr>nwords = 5, bitmap = [1040, 0, 0, 0, 1], bitmap_base_addr = 65536,
     bitmap_insert_count = 0, biggest_allocated_object = 139992, biggest_unpromoted_object = 56\<rparr>"

definition ex_heap :: heap_state where
  "ex_heap = \<lparr>big_allocations = ex_slots(2 := (ex_slots 2)\<lparr>suballocator := Some A_default_lib_malloc,
       suballocator_private := 900\<rparr>),
     pageindex = ex_index, nommap_bigalloc = 1, systrap_is_initialized = True, freed = [],
     biggest_sane = 4294967296,
     allocsites_vectors_by_base_id = (\<lambda>_. \<lparr>start_id = 0, site_count = 0, file_base_addr = 0, entries_ptr = 0\<rparr>),
     id_entry_slot_next_free = 0,
     files = (\<lambda>_. \<lparr>meta_obj_handle = 0, allocsites_info = None, l_addr = 0\<rparr>),
     site_entries = (\<lambda>_. \<lparr>allocsite_vaddr = 0, entry_uniqtype = 0\<rparr>),
     arena_infos = (\<lambda>_. ex_info), insert_mem = (\<lambda>_. unknown_insert), ool_cache = ool_cache_init,
     current_allocsite = 0, unrecognised_heap_alloc_sites = \<lparr>al_count = 0, al_allocsz = 0, al_addrs = []\<rparr>,
     hit_heap_case = 0, aborted_unindexed_heap = 0, aborted_unrecognised_allocsite = 0,
     aborted_unknown_storage = 0\<rparr>"

lemma ref_rfind:
  "case ref_bitmap_rfind ws i of
     None \<Rightarrow> \<forall>j\<le>i. \<not> bit_at ws j
   | Some k \<Rightarrow> k \<le> i \<and> bit_at ws k \<and> (\<forall>j. k < j \<and> j \<le> i \<longrightarrow> \<not> bit_at ws j)"
proof (cases "filter (bit_at ws) [0..<Suc i] = []")
  case True
  then have "\<forall>j\<le>i. \<not> bit_at ws j" by (auto simp: filter_empty_conv less_Suc_eq_le)
  moreover have "ref_bitmap_rfind ws i = None"
    using True by (simp add: ref_bitmap_rfind_def ref_bsearch_def if_distrib del: upt_Suc)
  ultimately show ?thesis by simp
next
  case False
  then have "ref_bitmap_rfind ws i = Some (last (filter (bit_at ws) [0..<Suc i]))"
    using ref_bsearch_some [of "\<lambda>j. if bit_at ws j then 0 else 1" 0 "Suc i"]
    by (simp add: ref_bitmap_rfind_def if_distrib del: upt_Suc)
  then show ?thesis using last_filter_upt [OF False] by (simp only: option.case less_Suc_eq_le) blast
qed

lemma div_mod_64: "j div 64 = i div 64 \<Longrightarrow> j mod 64 = i mod 64 \<Longrightarrow> j = (i :: nat)"
  by (metis mult_div_mod_eq)

lemma ex_laws: "bitmap_laws ex_heap_env"
  unfolding bitmap_laws_def
proof (intro conjI allI impI)
  fix ws :: "64 word list" and i j :: nat
  assume i: "i < 64 * length ws"
  then have l: "i div 64 < length ws" by (simp add: div_less_iff_less_mult mult.commute)
  show "length (bitmap_set ex_heap_env ws i) = length ws" "length (bitmap_clear ex_heap_env ws i) = length ws"
    by (simp_all add: ex_heap_env_def ref_bitmap_set_def ref_bitmap_clear_def)
  show "bit_at (bitmap_set ex_heap_env ws i) j \<longleftrightarrow> j = i \<or> bit_at ws j"
    using l by (cases "j div 64 = i div 64")
      (auto simp: ex_heap_env_def ref_bitmap_set_def bit_at_def bit_simps dest: div_mod_64)
  show "bit_at (bitmap_clear ex_heap_env ws i) j \<longleftrightarrow> j \<noteq> i \<and> bit_at ws j"
    using l by (cases "j div 64 = i div 64")
      (auto simp: ex_heap_env_def ref_bitmap_clear_def bit_at_def bit_simps dest: div_mod_64)
next
  fix ws :: "64 word list" and i :: nat
  show "case bitmap_rfind ex_heap_env ws i of
      None \<Rightarrow> \<forall>j\<le>i. \<not> bit_at ws j
    | Some k \<Rightarrow> k \<le> i \<and> bit_at ws k \<and> (\<forall>j. k < j \<and> j \<le> i \<longrightarrow> \<not> bit_at ws j)"
    using ref_rfind by (simp add: ex_heap_env_def)
qed

lemma ex_heap_shape: "same_shape ex_state ex_heap"
  by (simp add: same_shape_def ex_heap_def ex_state_def)

lemma ex_heap_inv: "pi_inv ex_heap"
  by (rule same_shape_inv [OF ex_heap_shape ex_inv])

lemma ex_heap_used: "used ex_heap i \<longleftrightarrow> i = 1 \<or> i = 2 \<or> i = 3 \<or> i = 4"
  using same_shape_used [OF ex_heap_shape] ex_used by simp

lemma ex_chunks: "chunks ex_info = {65600, 65696, 69632}"
proof -
  have w: "bit (1040 :: 64 word) n \<longleftrightarrow> n = 4 \<or> n = 10" for n
  proof (cases "n < 64")
    case True
    have "\<forall>n\<in>set [0..<64]. bit (1040 :: 64 word) n \<longleftrightarrow> n = 4 \<or> n = 10" by code_simp
    then have "\<forall>n<64. bit (1040 :: 64 word) n \<longleftrightarrow> n = 4 \<or> n = 10"
      by (simp only: set_upt atLeastLessThan_iff Ball_def) blast
    then show ?thesis using True by blast
  qed (auto dest: bit_imp_le_length)
  have b: "bit_at [1040, 0, 0, 0, 1] i \<longleftrightarrow> i = 4 \<or> i = 10 \<or> i = 256" for i
  proof -
    have "i div 64 = 0 \<or> i div 64 = 1 \<or> i div 64 = 2 \<or> i div 64 = 3 \<or> i div 64 = 4 \<or> 5 \<le> i div 64" by linarith
    then show ?thesis
      using mult_div_mod_eq [of 64 i] w [of i] by (elim disjE) (auto simp: bit_at_def w bit_1_iff)
  qed
  show ?thesis unfolding chunks_def ex_info_def by (auto simp: b)
qed

lemma ex_arena_ok: "arena_ok ex_heap_env ex_info"
  unfolding arena_ok_def ex_chunks by (simp add: info_ok_def ex_info_def ex_heap_env_def)

lemma ex_heap_sel:
  "arena_infos ex_heap ip = ex_info" "suballocator (big_allocations ex_heap 2) = Some A_default_lib_malloc"
  "ba_begin (big_allocations ex_heap 2) = 65536" "ba_end (big_allocations ex_heap 2) = 131072"
  "insert_mem ex_heap p = unknown_insert"
  by (simp_all add: ex_heap_def ex_slots_def ex_slot_def)

theorem optimised_lookup_equiv_witness:
  "lookup_object_info_via_bitmap ex_heap_env 900 65700 ex_heap =
     lookup_object_info_unoptimised ex_heap_env 900 65700 ex_heap"
proof -
  have "65696 \<in> {c \<in> chunks (arena_infos ex_heap 900). c \<le> 65700 \<and>
      65700 \<le> c + biggest_unpromoted_object (arena_infos ex_heap 900)}"
    unfolding ex_heap_sel ex_chunks by (simp add: ex_info_def)
  then have "{c \<in> chunks (arena_infos ex_heap 900). c \<le> 65700 \<and>
      65700 \<le> c + biggest_unpromoted_object (arena_infos ex_heap 900)} \<noteq> {}" by blast
  moreover have "info_ok (arena_infos ex_heap 900)" "covered (arena_infos ex_heap 900) 65700"
    "biggest_unpromoted_object (arena_infos ex_heap 900) \<le> 65700" "(900 :: nat) \<noteq> 0"
    by (simp_all add: ex_heap_sel covered_def info_ok_def ex_info_def)
  ultimately show ?thesis
    using optimised_lookup_equiv [OF ex_laws, of 900 ex_heap 65700] by blast
qed

theorem index_insert_then_lookup_witness:
  "\<forall>hk. \<exists>s'. generic_malloc_index_insert ex_heap_env hk A_default_lib_malloc 900 65792 40 77 ex_heap = Inr (65848, s') \<and>
     chunks (arena_infos s' 900) = {65600, 65696, 65792, 69632} \<and>
     lookup_object_info_via_bitmap ex_heap_env 900 65800 s' = Some (65848, 65792, 56)"
proof
  fix hk
  have "\<exists>s'. generic_malloc_index_insert ex_heap_env hk A_default_lib_malloc 900 65792 40 77 ex_heap =
      Inr (65792 + (sizefn ex_heap_env 65792 - 8), s') \<and> pi_inv s' \<and> arena_ok ex_heap_env (arena_infos s' 900) \<and>
    chunks (arena_infos s' 900) = insert 65792 (chunks (arena_infos ex_heap 900)) \<and>
    initial_alloc_site (insert_mem s' (65792 + (sizefn ex_heap_env 65792 - 8))) = of_nat 77 \<and>
    lookup_object_info_via_bitmap ex_heap_env 900 65800 s' =
      Some (65792 + (sizefn ex_heap_env 65792 - 8), 65792, sizefn ex_heap_env 65792 - 8)"
    by (rule index_insert_then_lookup [OF ex_laws _ ex_heap_inv, where arena = 2])
      (auto simp: ex_heap_used ex_heap_sel ex_arena_ok ex_chunks, auto simp: ex_heap_env_def ex_info_def)
  then show "\<exists>s'. generic_malloc_index_insert ex_heap_env hk A_default_lib_malloc 900 65792 40 77 ex_heap = Inr (65848, s') \<and>
     chunks (arena_infos s' 900) = {65600, 65696, 65792, 69632} \<and>
     lookup_object_info_via_bitmap ex_heap_env 900 65800 s' = Some (65848, 65792, 56)"
    unfolding ex_heap_sel ex_chunks by (auto simp: ex_heap_env_def)
qed

lemma ex_not_big:
  "used ex_heap k \<Longrightarrow> contains_addr ex_heap k 65696 \<Longrightarrow>
   allocated_by (big_allocations ex_heap k) \<noteq> Some A_default_lib_malloc"
  unfolding ex_heap_used
  by (auto simp: ex_heap_def ex_slots_def ex_slot_def contains_addr_def)

theorem index_delete_forgets_witness:
  "\<forall>hk. \<exists>s'. generic_malloc_index_delete ex_heap_env hk A_default_lib_malloc 900 65696 ex_heap = Inr s' \<and>
     chunks (arena_infos s' 900) = {65600, 69632} \<and>
     lookup_object_info_via_bitmap ex_heap_env 900 65610 s' = Some (65656, 65600, 56)"
proof
  fix hk
  have "\<exists>s'. generic_malloc_index_delete ex_heap_env hk A_default_lib_malloc 900 65696 ex_heap = Inr s' \<and> pi_inv s' \<and>
    arena_ok ex_heap_env (arena_infos s' 900) \<and>
    chunks (arena_infos s' 900) = chunks (arena_infos ex_heap 900) - {65696} \<and>
    ool_cache s' = uncache_all 65696 (sizefn ex_heap_env 65696) (ool_cache ex_heap) \<and>
    lookup_object_info_via_bitmap ex_heap_env 900 65610 s' =
      Some (65600 + (sizefn ex_heap_env 65600 - 8), 65600, sizefn ex_heap_env 65600 - 8)"
    by (rule index_delete_forgets [OF ex_laws ex_heap_inv, where arena = 2, OF _ _ _ ex_not_big])
      (auto simp: ex_heap_used ex_heap_sel ex_arena_ok ex_chunks contains_addr_def,
       auto simp: ex_heap_env_def ex_info_def covered_def)
  then show "\<exists>s'. generic_malloc_index_delete ex_heap_env hk A_default_lib_malloc 900 65696 ex_heap = Inr s' \<and>
     chunks (arena_infos s' 900) = {65600, 69632} \<and>
     lookup_object_info_via_bitmap ex_heap_env 900 65610 s' = Some (65656, 65600, 56)"
    unfolding ex_heap_sel ex_chunks by (auto simp: ex_heap_env_def)
qed

theorem promoted_delete_leaves_bit_witness:
  "\<forall>hk. \<exists>s'. generic_malloc_index_delete ex_heap_env hk A_default_lib_malloc 900 69632 ex_heap = Inr s' \<and>
     pi_inv s' \<and> \<not> used s' 3 \<and> chunks (arena_infos s' 900) = {65600, 65696, 69632}"
proof
  fix hk
  have "contains_addr ex_heap 3 69632" "allocated_by (big_allocations ex_heap 3) = Some A_default_lib_malloc"
    "\<not> contains_addr ex_heap (nommap_bigalloc ex_heap) 69632"
    by (simp_all add: contains_addr_def ex_heap_def ex_slots_def ex_slot_def)
  then show "\<exists>s'. generic_malloc_index_delete ex_heap_env hk A_default_lib_malloc 900 69632 ex_heap = Inr s' \<and>
     pi_inv s' \<and> \<not> used s' 3 \<and> chunks (arena_infos s' 900) = {65600, 65696, 69632}"
    using promoted_delete_leaves_bit [OF ex_heap_inv, of 3 69632 A_default_lib_malloc ex_heap_env hk 900]
    unfolding ex_heap_sel ex_chunks ex_heap_used by auto
qed

text \<open>No file is mapped at the address of the marker.\<close>

lemma ex_no_file: "get_file hk 32767 (ex_heap\<lparr>unrecognised_heap_alloc_sites := l\<rparr>) =
    Inr (0, ex_heap\<lparr>unrecognised_heap_alloc_sites := l\<rparr>)"
  by (simp add: get_file_def lookup_bigalloc_from_root_def find_bigalloc_from_root_def
      find_bigalloc_recursive_def find_bigalloc_at_def allocator_matches_def ex_heap_def ex_index_def ex_slots_def
      PAGENUM_def NBIGALLOCS_def root_of.simps find_in_children.simps empty_bigalloc_def Let_def)

theorem unknown_marker_not_recognised_witness:
  "\<forall>hk. \<exists>s'. extract_and_output_alloc_site_and_type ex_heap_env hk (Some 65656) ex_heap =
       Inr ((Some Unrecognised_Alloc_Site, Some 32767, None), s') \<and>
     32767 \<in> set (addrlist_list (unrecognised_heap_alloc_sites s')) \<and> insert_mem s' 65656 = unknown_insert"
proof
  fix hk
  have "get_file hk 32767 ex_heap = Inr (0, ex_heap)"
    using ex_no_file [of hk "unrecognised_heap_alloc_sites ex_heap"] by simp
  then have "find_allocsite_entry_at (sites ex_heap_env) hk 32767 ex_heap = Inr (None, ex_heap)"
    by (simp add: find_allocsite_entry_at_def)
  moreover have "allocsite_id (sites ex_heap_env) hk 32767 (ex_heap\<lparr>unrecognised_heap_alloc_sites := l\<rparr>) =
      Inr (0, ex_heap\<lparr>unrecognised_heap_alloc_sites := l\<rparr>)" for l
    by (simp add: allocsite_id_def ex_no_file)
  ultimately show "\<exists>s'. extract_and_output_alloc_site_and_type ex_heap_env hk (Some 65656) ex_heap =
       Inr ((Some Unrecognised_Alloc_Site, Some 32767, None), s') \<and>
     32767 \<in> set (addrlist_list (unrecognised_heap_alloc_sites s')) \<and> insert_mem s' 65656 = unknown_insert"
    by (rule unknown_marker_not_recognised [OF ex_heap_sel(5)])
      (simp_all add: ex_heap_def ex_heap_env_def addrlist_ok_def)
qed

end
