(* ===== verification/Subobjects.thy ===== *)
theory Subobjects
  imports Uniqtypes
begin

text \<open>
  The search for subobjects inside an object of a known type: the inline functions of
  \<open>include/liballocs.h\<close>.  A type descriptor is its address, and the descriptors are read through
  \<open>ut_ops\<close>; the position of a subobject in its container is the index of its entry in the
  container's \<open>related\<close> array.  The recursion follows the nesting of types, and its fuel bounds
  the depth of the nesting.
\<close>

section \<open>The first subobject that spans an offset\<close>

text \<open>
  \<open>ut_rel0_off\<close>: what the member offset of the first \<open>related\<close> entry reads as in an array type,
  where the entry holds the element type.
\<close>

record subobj_ops = ut_ops +
  ut_rel0_off :: "nat \<Rightarrow> nat"

abbreviation member_count :: "('a ut_ops_scheme) \<Rightarrow> nat \<Rightarrow> nat" where
  "member_count ops u \<equiv> length (ut_members ops u)"

abbreviation member_off :: "('a ut_ops_scheme) \<Rightarrow> nat \<Rightarrow> nat \<Rightarrow> nat" where
  "member_off ops u i \<equiv> snd (ut_members ops u ! i)"

abbreviation member_type :: "('a ut_ops_scheme) \<Rightarrow> nat \<Rightarrow> nat \<Rightarrow> nat" where
  "member_type ops u i \<equiv> fst (ut_members ops u ! i)"

function bisect :: "(nat \<Rightarrow> nat) \<Rightarrow> nat \<Rightarrow> nat \<Rightarrow> nat \<Rightarrow> nat \<times> nat" where
  "bisect off target lower_ind upper_ind =
     (if lower_ind + 1 < upper_ind then
        let bisect_ind = (upper_ind + lower_ind) div 2 in
        if off bisect_ind > target then bisect off target lower_ind bisect_ind
        else bisect off target bisect_ind upper_ind
      else (lower_ind, upper_ind))"
  by pat_completeness auto

termination
  by (relation "measure (\<lambda>(off, target, l, u). u - l)") auto

fun scan_back :: "(nat \<Rightarrow> nat) \<Rightarrow> nat \<Rightarrow> nat" where
  "scan_back off 0 = 0"
| "scan_back off (Suc i) = (if off i = off (Suc i) then scan_back off i else Suc i)"

declare bisect.simps [simp del]

text \<open>The new offset, the subobject's type and its position.\<close>

definition first_subobject_spanning :: "('a ut_ops_scheme) \<Rightarrow> nat \<Rightarrow> nat \<Rightarrow> (nat \<times> nat \<times> nat) option" where
  "first_subobject_spanning ops target u =
     (if ut_kind ops u = ARRAY then
        let element = ut_element ops u in
        if ut_size ops element \<noteq> 0 \<and> ut_length ops u > target div ut_size ops element
        then Some (target mod ut_size ops element, element, 0) else None
      else
        let (lower_ind, upper_ind) = bisect (member_off ops u) target 0 (member_count ops u) in
        if lower_ind + 1 = upper_ind then
          if member_off ops u lower_ind > target then None
          else
            let lower_ind = scan_back (member_off ops u) lower_ind in
            Some (target - member_off ops u lower_ind, member_type ops u lower_ind, lower_ind)
        else None)"

section \<open>Walking the subobjects that span an offset\<close>

text \<open>
  The callback receives the subobject's type, its offset and depth, its container with its position
  and the container's offset, and changes a state.  The offset is divided by the
  element's size before the size is tested.
\<close>

type_synonym 's walk_cb = "nat \<Rightarrow> nat \<Rightarrow> nat \<Rightarrow> nat \<Rightarrow> nat \<Rightarrow> nat \<Rightarrow> 's \<Rightarrow> int \<times> 's"

function walk_subobjects_spanning_rec :: "nat \<Rightarrow> ('a ut_ops_scheme) \<Rightarrow> 's walk_cb \<Rightarrow> nat \<Rightarrow> nat \<Rightarrow> nat \<Rightarrow> nat \<Rightarrow>
    's \<Rightarrow> (int \<times> 's) res"
  and walk_members :: "nat \<Rightarrow> ('a ut_ops_scheme) \<Rightarrow> 's walk_cb \<Rightarrow> nat \<Rightarrow> nat \<Rightarrow> nat \<Rightarrow> nat \<Rightarrow> nat \<Rightarrow> nat \<Rightarrow>
    's \<Rightarrow> (int \<times> 's) res" where
  "walk_subobjects_spanning_rec fuel ops cb accum_offset accum_depth target u s =
     (if fuel = 0 then Inl Out_Of_Fuel
      else if ut_kind ops u = ARRAY then
        let element = ut_element ops u in
        if ut_size ops element = 0 then Inl Div_By_Zero
        else
          let skip = target div ut_size ops element in
          if ut_length ops u > skip then
            case cb element (accum_offset + skip * ut_size ops element) (accum_depth + 1) u 0 accum_offset s of
              (ret, s) \<Rightarrow>
                if ret \<noteq> 0 then Inr (ret, s)
                else walk_subobjects_spanning_rec (fuel - 1) ops cb
                       (accum_offset + skip * ut_size ops element) (accum_depth + 1)
                       (target mod ut_size ops element) element s
          else Inr (0, s)
      else
        let (lower_ind, upper_ind) = bisect (member_off ops u) target 0 (member_count ops u) in
        if lower_ind + 1 = upper_ind then
          if member_off ops u lower_ind > target then Inr (0, s)
          else walk_members (fuel - 1) ops cb accum_offset accum_depth target u
                 (member_off ops u lower_ind) (scan_back (member_off ops u) lower_ind) s
        else Inr (0, s))"
| "walk_members fuel ops cb accum_offset accum_depth target u offset i s =
     (if i < member_count ops u \<and> member_off ops u i = offset then
        if target < ut_size ops u then
          case cb (member_type ops u i) (accum_offset + offset) (accum_depth + 1) u i accum_offset s of
            (ret, s) \<Rightarrow>
              if ret \<noteq> 0 then Inr (ret, s)
              else rbind (walk_subobjects_spanning_rec fuel ops cb (accum_offset + offset) (accum_depth + 1)
                            (target - offset) (member_type ops u i) s) (\<lambda>(ret, s).
                     if ret \<noteq> 0 then Inr (ret, s)
                     else walk_members fuel ops cb accum_offset accum_depth target u offset (i + 1) s)
        else walk_members fuel ops cb accum_offset accum_depth target u offset (i + 1) s
      else Inr (0, s))"
  by pat_completeness auto

termination
  by (relation "measures
      [\<lambda>x. case x of Inl (fuel, _) \<Rightarrow> fuel | Inr (fuel, _) \<Rightarrow> fuel,
       \<lambda>x. case x of Inl _ \<Rightarrow> 0
                 | Inr (fuel, ops, cb, ao, ad, t, u, off, i, s) \<Rightarrow> Suc (member_count ops u - i)]") auto

declare walk_subobjects_spanning_rec.simps [simp del] walk_members.simps [simp del]

definition walk_subobjects_spanning :: "nat \<Rightarrow> ('a ut_ops_scheme) \<Rightarrow> 's walk_cb \<Rightarrow> nat \<Rightarrow> nat \<Rightarrow> 's \<Rightarrow>
    (int \<times> 's) res" where
  "walk_subobjects_spanning fuel ops cb target u s =
     walk_subobjects_spanning_rec fuel ops cb 0 0 target u s"

section \<open>A subobject of a given type\<close>

text \<open>What is written through the caller's pointers, all of which are taken to be given.\<close>

record match_out =
  last_attempted_uniqtype :: nat
  last_uniqtype_offset :: nat
  cumulative_offset_searched :: nat
  cur_containing_uniqtype :: nat
  cur_contained_pos :: "nat option"

text \<open>The member offset read at a position of a container that may be an array.\<close>

definition contained_off :: "subobj_ops \<Rightarrow> nat \<Rightarrow> nat \<Rightarrow> nat" where
  "contained_off ops u pos = (if ut_kind ops u = ARRAY then ut_rel0_off ops u else member_off ops u pos)"

function find_matching_subobject :: "nat \<Rightarrow> subobj_ops \<Rightarrow> nat \<Rightarrow> nat \<Rightarrow> nat \<Rightarrow> match_out \<Rightarrow>
    (bool \<times> match_out) res"
  and match_from :: "nat \<Rightarrow> subobj_ops \<Rightarrow> nat \<Rightarrow> nat \<Rightarrow> nat \<Rightarrow> nat \<Rightarrow> nat \<Rightarrow> match_out \<Rightarrow>
    (bool \<times> match_out) res" where
  "find_matching_subobject fuel ops target u test out =
     (if fuel = 0 then Inl Out_Of_Fuel
      else if target = 0 \<and> (test = 0 \<or> u = test)
        then Inr (True, out\<lparr>cur_containing_uniqtype := 0, cur_contained_pos := None\<rparr>)
      else case first_subobject_spanning ops target u of
        None \<Rightarrow> Inr (False, out)
      | Some (sub_target, contained_uniqtype, pos) \<Rightarrow>
          match_from (fuel - 1) ops sub_target u contained_uniqtype pos test
            (out\<lparr>cumulative_offset_searched :=
                   (cumulative_offset_searched out + contained_off ops u pos) mod 2 ^ 32,
                 last_attempted_uniqtype := contained_uniqtype, last_uniqtype_offset := sub_target\<rparr>))"
| "match_from fuel ops sub_target containing contained_uniqtype pos test out =
     rbind (find_matching_subobject fuel ops sub_target contained_uniqtype test out) (\<lambda>(success, out).
       if success then Inr (True, out\<lparr>cur_containing_uniqtype := containing, cur_contained_pos := Some pos\<rparr>)
       else if member_count ops containing \<le> pos + 1 \<or>
               member_off ops containing (pos + 1) \<noteq> member_off ops containing pos
         then Inr (False, out)
       else match_from fuel ops sub_target containing (member_type ops containing (pos + 1)) (pos + 1) test out)"
  by pat_completeness auto

termination
  by (relation "measures
      [\<lambda>x. case x of Inl (fuel, _) \<Rightarrow> fuel | Inr (fuel, _) \<Rightarrow> fuel,
       \<lambda>x. case x of Inl _ \<Rightarrow> 0
                 | Inr (fuel, ops, t, u, c, pos, test, out) \<Rightarrow> Suc (member_count ops u - pos)]") auto

declare find_matching_subobject.simps [simp del] match_from.simps [simp del]

end
