(* ===== verification/Subobjects_Correct.thy ===== *)
theory Subobjects_Correct
  imports Subobjects
begin

text \<open>
  Correctness of the subobject search: the bisection finds the first of the members with the
  greatest offset not above the target, and the recursive search for a type returns and decides
  whether there is a subobject of that type at the target.
\<close>

section \<open>Bisection\<close>

lemma bisect_spec:
  assumes mono: "\<And>i j. i \<le> j \<Longrightarrow> j < n \<Longrightarrow> off i \<le> off j"
    and "l < u" "u \<le> n" "l = 0 \<or> off l \<le> t" "u = n \<or> t < off u"
  shows "\<exists>k. bisect off t l u = (k, k + 1) \<and> k < n \<and> (k = 0 \<or> off k \<le> t) \<and>
    (\<forall>j. k < j \<and> j < n \<longrightarrow> t < off j)"
  using assms(2-5)
proof (induction "u - l" arbitrary: l u rule: less_induct)
  case less
  let ?m = "(u + l) div 2"
  show ?case
  proof (cases "l + 1 < u")
    case True
    then have m: "l < ?m" "?m < u" by auto
    show ?thesis
    proof (cases "off ?m > t")
      case above: True
      have "?m - l < u - l" "l < ?m" "?m \<le> n" "?m = n \<or> t < off ?m" using m less.prems(2) above by auto
      then show ?thesis
        using less.hyps [of ?m l] less.prems(3) True above by (subst bisect.simps) (simp add: Let_def)
    next
      case below: False
      have "u - ?m < u - l" "?m = 0 \<or> off ?m \<le> t" using m below by auto
      then show ?thesis
        using less.hyps [of u ?m] m less.prems(2,4) True below by (subst bisect.simps) (simp add: Let_def)
    qed
  next
    case False
    then have u: "u = l + 1" using less.prems(1) by simp
    have "t < off j" if "l < j" "j < n" for j
    proof -
      have "u \<noteq> n" "u \<le> j" using u that by auto
      then show ?thesis using less.prems(4) mono [of u j] that(2) by simp
    qed
    then show ?thesis using u less.prems by (subst bisect.simps) auto
  qed
qed

lemma scan_back_spec:
  "scan_back off i \<le> i \<and> off (scan_back off i) = off i \<and>
   (scan_back off i = 0 \<or> off (scan_back off i - 1) \<noteq> off i)"
  by (induction i) auto

section \<open>Types\<close>

text \<open>Members are in the order of their offsets, and arrays have none.\<close>

definition members_ok :: "('a ut_ops_scheme) \<Rightarrow> bool" where
  "members_ok ops \<longleftrightarrow> (\<forall>u. sorted (map snd (ut_members ops u)) \<and> (ut_kind ops u = ARRAY \<longrightarrow> ut_members ops u = []))"

lemma member_off_mono:
  "members_ok ops \<Longrightarrow> i \<le> j \<Longrightarrow> j < member_count ops u \<Longrightarrow> member_off ops u i \<le> member_off ops u j"
  using sorted_nth_mono [of "map snd (ut_members ops u)" i j] by (simp add: members_ok_def)

text \<open>Position \<open>i\<close> is one of the members with the greatest offset not above \<open>t\<close>.\<close>

definition spanning_member :: "('a ut_ops_scheme) \<Rightarrow> nat \<Rightarrow> nat \<Rightarrow> nat \<Rightarrow> bool" where
  "spanning_member ops t u i \<longleftrightarrow> ut_kind ops u \<noteq> ARRAY \<and> i < member_count ops u \<and> member_off ops u i \<le> t \<and>
     (\<forall>j<member_count ops u. member_off ops u j \<le> t \<longrightarrow> member_off ops u j \<le> member_off ops u i)"

definition spanning_element :: "('a ut_ops_scheme) \<Rightarrow> nat \<Rightarrow> nat \<Rightarrow> bool" where
  "spanning_element ops t u \<longleftrightarrow> ut_kind ops u = ARRAY \<and> ut_size ops (ut_element ops u) \<noteq> 0 \<and>
     t div ut_size ops (ut_element ops u) < ut_length ops u"

lemma spanning_same_off:
  "spanning_member ops t u i \<Longrightarrow> spanning_member ops t u j \<longleftrightarrow>
     j < member_count ops u \<and> member_off ops u j = member_off ops u i"
  unfolding spanning_member_def by (metis le_antisym)

text \<open>The bisection and the scan back, on the members of a structure or union.\<close>

lemma first_member:
  assumes "members_ok ops" "ut_kind ops u \<noteq> ARRAY"
  shows "case first_subobject_spanning ops t u of
      None \<Rightarrow> {i. spanning_member ops t u i} = {}
    | Some (t', u', i) \<Rightarrow> spanning_member ops t u i \<and> (\<forall>j. spanning_member ops t u j \<longrightarrow> i \<le> j) \<and>
        u' = member_type ops u i \<and> t' = t - member_off ops u i"
proof (cases "member_count ops u = 0")
  case True
  then have "bisect (member_off ops u) t 0 (member_count ops u) = (0, 0)" by (subst bisect.simps) simp
  then show ?thesis using assms(2) True by (simp add: first_subobject_spanning_def spanning_member_def)
next
  case False
  let ?off = "member_off ops u" and ?n = "member_count ops u"
  obtain k where k: "bisect ?off t 0 ?n = (k, k + 1)" "k < ?n" "k = 0 \<or> ?off k \<le> t"
    "\<And>j. k < j \<Longrightarrow> j < ?n \<Longrightarrow> t < ?off j"
    using bisect_spec [of ?n ?off 0 ?n t] member_off_mono [OF assms(1)] False by auto
  show ?thesis
  proof (cases "?off k > t")
    case True
    then have "k = 0" using k(3) by linarith
    then have "t < ?off j" if "j < ?n" for j using k(4) [of j] True that by (cases "j = 0") auto
    then have "{i. spanning_member ops t u i} = {}" unfolding spanning_member_def using leD by blast
    then show ?thesis using assms(2) k(1) True by (simp add: first_subobject_spanning_def)
  next
    case False
    define i where "i = scan_back ?off k"
    have i: "i \<le> k" "?off i = ?off k" "i = 0 \<or> ?off (i - 1) \<noteq> ?off k"
      using scan_back_spec [of ?off k] by (auto simp: i_def)
    have le: "?off j \<le> ?off k" if "j < ?n" "?off j \<le> t" for j
      using k(4) [of j] that member_off_mono [OF assms(1), of j k u] k(2) by (meson leD leI)
    have span: "spanning_member ops t u i"
      unfolding spanning_member_def using assms(2) i(1,2) k(2) False le by auto
    have "i \<le> j" if j: "spanning_member ops t u j" for j
    proof (rule ccontr)
      assume "\<not> i \<le> j"
      then have "j \<le> i - 1" "i - 1 < ?n" "i \<noteq> 0" "i - 1 \<le> i" "i < ?n" using i(1) k(2) by auto
      then have "?off j \<le> ?off (i - 1)" "?off (i - 1) \<le> ?off i"
        using member_off_mono [OF assms(1)] by blast+
      moreover have "?off j = ?off i" using spanning_same_off [OF span] j by blast
      ultimately show False using i(2,3) \<open>i \<noteq> 0\<close> by simp
    qed
    then show ?thesis
      using assms(2) k(1) False span by (simp add: first_subobject_spanning_def i_def [symmetric])
  qed
qed

lemma first_subobject_spec:
  assumes "members_ok ops"
  shows "case first_subobject_spanning ops t u of
      None \<Rightarrow> \<not> spanning_element ops t u \<and> {i. spanning_member ops t u i} = {}
    | Some (t', u', i) \<Rightarrow>
        if ut_kind ops u = ARRAY then spanning_element ops t u \<and> i = 0 \<and> u' = ut_element ops u \<and>
          t' = t mod ut_size ops u'
        else i = Min {i. spanning_member ops t u i} \<and> spanning_member ops t u i \<and>
          u' = member_type ops u i \<and> t = member_off ops u i + t'"
proof (cases "ut_kind ops u = ARRAY")
  case True
  then show ?thesis by (auto simp: first_subobject_spanning_def spanning_element_def spanning_member_def Let_def)
next
  case False
  have fin: "finite {i. spanning_member ops t u i}"
    by (rule finite_subset [of _ "{..<member_count ops u}"]) (auto simp: spanning_member_def)
  show ?thesis
  proof (cases "first_subobject_spanning ops t u")
    case None
    then show ?thesis using first_member [OF assms False, of t] False by (simp add: spanning_element_def)
  next
    case (Some r)
    obtain t' u' i where r: "r = (t', u', i)" by (cases r)
    have i: "spanning_member ops t u i" "\<And>j. spanning_member ops t u j \<Longrightarrow> i \<le> j"
      "u' = member_type ops u i" "t' = t - member_off ops u i"
      using first_member [OF assms False, of t] Some r by auto
    have "Min {i. spanning_member ops t u i} = i" by (rule Min_eqI [OF fin]) (use i in auto)
    moreover have "member_off ops u i \<le> t" using i(1) by (simp add: spanning_member_def)
    ultimately show ?thesis using Some r i False by simp
  qed
qed

text \<open>
  C34. The first subobject that spans an offset is found: in an array the element at the
  offset, with the offset inside it; in a structure or union the first of the members with the greatest
  offset that is not above the target, with the rest of the offset; and nothing exactly when there is no such
  element or member.
\<close>

theorem first_subobject_correct:
  assumes "members_ok ops"
  shows "case first_subobject_spanning ops t u of
      None \<Rightarrow> \<not> spanning_element ops t u \<and> {i. spanning_member ops t u i} = {}
    | Some (t', u', i) \<Rightarrow>
        if ut_kind ops u = ARRAY then spanning_element ops t u \<and> i = 0 \<and> u' = ut_element ops u \<and>
          t' = t mod ut_size ops u'
        else i = Min {i. spanning_member ops t u i} \<and> spanning_member ops t u i \<and>
          u' = member_type ops u i \<and> t = member_off ops u i + t'"
  by (rule first_subobject_spec [OF assms])

section \<open>Searching for a type\<close>

text \<open>
  There is a subobject of type \<open>test\<close> (of any type, if \<open>test\<close> is null) exactly at offset \<open>t\<close> of
  \<open>u\<close>, on a path of subobjects spanning the offset.
\<close>

inductive subobject_at :: "('a ut_ops_scheme) \<Rightarrow> nat \<Rightarrow> nat \<Rightarrow> nat \<Rightarrow> bool" for ops test where
  here: "test = 0 \<or> u = test \<Longrightarrow> subobject_at ops test 0 u"
| element: "spanning_element ops t u \<Longrightarrow>
    subobject_at ops test (t mod ut_size ops (ut_element ops u)) (ut_element ops u) \<Longrightarrow>
    subobject_at ops test t u"
| member: "spanning_member ops t u i \<Longrightarrow>
    subobject_at ops test (t - member_off ops u i) (member_type ops u i) \<Longrightarrow>
    subobject_at ops test t u"

inductive_cases subobject_atE: "subobject_at ops test t u"

text \<open>\<open>d\<close> ranks types by the depth of their nesting.\<close>

definition nested :: "('a ut_ops_scheme) \<Rightarrow> (nat \<Rightarrow> nat) \<Rightarrow> bool" where
  "nested ops d \<longleftrightarrow> (\<forall>u. (ut_kind ops u = ARRAY \<longrightarrow> d (ut_element ops u) < d u) \<and>
     (ut_kind ops u \<noteq> ARRAY \<longrightarrow> (\<forall>(v, n) \<in> set (ut_members ops u). d v < d u)))"

lemma nested_member:
  "nested ops d \<Longrightarrow> spanning_member ops t u i \<Longrightarrow> d (member_type ops u i) < d u"
  unfolding nested_def spanning_member_def by (metis (no_types, lifting) case_prod_beta nth_mem)

definition decides :: "nat \<Rightarrow> subobj_ops \<Rightarrow> nat \<Rightarrow> nat \<Rightarrow> bool" where
  "decides fuel ops test u \<longleftrightarrow> (\<forall>t out. \<exists>b out'.
     find_matching_subobject fuel ops t u test out = Inr (b, out') \<and> (b \<longleftrightarrow> subobject_at ops test t u))"

text \<open>The loop over the members at one offset, from the first of them.\<close>

lemma match_from_members:
  assumes "members_ok ops" "spanning_member ops t u i"
    "\<And>j. spanning_member ops t u j \<Longrightarrow> decides fuel ops test (member_type ops u j)"
  shows "\<exists>b out'. match_from fuel ops (t - member_off ops u i) u (member_type ops u i) i test out = Inr (b, out') \<and>
    (b \<longleftrightarrow> (\<exists>j\<ge>i. spanning_member ops t u j \<and>
        subobject_at ops test (t - member_off ops u j) (member_type ops u j)))"
  using assms(2)
proof (induction "member_count ops u - i" arbitrary: i out rule: less_induct)
  case less
  let ?at = "\<lambda>j. subobject_at ops test (t - member_off ops u j) (member_type ops u j)"
  have "i < member_count ops u" using less.prems by (simp add: spanning_member_def)
  obtain b out1 where b: "find_matching_subobject fuel ops (t - member_off ops u i) (member_type ops u i) test out =
      Inr (b, out1)" "b \<longleftrightarrow> ?at i"
    using assms(3) [OF less.prems] unfolding decides_def by blast
  let ?stop = "member_count ops u \<le> i + 1 \<or> member_off ops u (i + 1) \<noteq> member_off ops u i"
  consider b | "\<not> b" ?stop | "\<not> b" "\<not> ?stop" by blast
  then show ?case
  proof cases
    case 1
    then show ?thesis using b less.prems by (subst match_from.simps) auto
  next
    case 2
    have "j = i" if "i \<le> j" "spanning_member ops t u j" for j
    proof (rule ccontr)
      assume "j \<noteq> i"
      have j: "j < member_count ops u" "member_off ops u j = member_off ops u i"
        using spanning_same_off [OF less.prems] that(2) by blast+
      then have "i + 1 < member_count ops u" "i + 1 \<le> j" using \<open>j \<noteq> i\<close> that(1) by auto
      then have "member_off ops u (i + 1) = member_off ops u i"
        using member_off_mono [OF assms(1), of i "i + 1" u] member_off_mono [OF assms(1), of "i + 1" j u] j by simp
      then show False using 2(2) \<open>i + 1 < member_count ops u\<close> by simp
    qed
    then show ?thesis using 2 b by (subst match_from.simps) auto
  next
    case 3
    have next': "spanning_member ops t u (i + 1)"
      using spanning_same_off [OF less.prems] 3(2) by (metis not_le)
    have off: "member_off ops u (i + 1) = member_off ops u i" using 3(2) by blast
    have "member_count ops u - (i + 1) < member_count ops u - i" using \<open>i < member_count ops u\<close> by simp
    from less.hyps [OF this next', of out1]
    obtain b2 out2 where "match_from fuel ops (t - member_off ops u (i + 1)) u (member_type ops u (i + 1)) (i + 1) test out1 =
        Inr (b2, out2)" "b2 \<longleftrightarrow> (\<exists>j\<ge>i + 1. spanning_member ops t u j \<and> ?at j)"
      by blast
    moreover have "(\<exists>j\<ge>i. spanning_member ops t u j \<and> ?at j) \<longleftrightarrow> (\<exists>j\<ge>i + 1. spanning_member ops t u j \<and> ?at j)"
      using 3(1) b(2) by (metis Suc_eq_plus1 le_SucI nat_le_linear not_less_eq_eq le_antisym)
    ultimately show ?thesis using 3 b(1) off by (subst match_from.simps) simp
  qed
qed

lemma decides_step:
  assumes "members_ok ops" "nested ops d" "\<And>v. d v < d u \<Longrightarrow> decides fuel ops test v"
  shows "decides (Suc fuel) ops test u"
  unfolding decides_def
proof (intro allI)
  fix t out
  show "\<exists>b out'. find_matching_subobject (Suc fuel) ops t u test out = Inr (b, out') \<and>
    (b \<longleftrightarrow> subobject_at ops test t u)"
  proof (cases "t = 0 \<and> (test = 0 \<or> u = test)")
    case True
    then show ?thesis by (subst find_matching_subobject.simps) (auto intro: here)
  next
    case False
    let ?out = "\<lambda>v i t'. out\<lparr>cumulative_offset_searched := (cumulative_offset_searched out + contained_off ops u i) mod 2 ^ 32,
      last_attempted_uniqtype := v, last_uniqtype_offset := t'\<rparr>"
    have at: "subobject_at ops test t u \<longleftrightarrow>
        spanning_element ops t u \<and> subobject_at ops test (t mod ut_size ops (ut_element ops u)) (ut_element ops u) \<or>
        (\<exists>i. spanning_member ops t u i \<and> subobject_at ops test (t - member_off ops u i) (member_type ops u i))"
      using False by (auto elim: subobject_atE intro: element member)
    show ?thesis
    proof (cases "first_subobject_spanning ops t u")
      case None
      then have "\<not> subobject_at ops test t u"
        using first_subobject_spec [OF assms(1), of t u] unfolding at by auto
      then show ?thesis using None False by (subst find_matching_subobject.simps) auto
    next
      case (Some r)
      obtain t' v i where r: "r = (t', v, i)" by (cases r)
      have eq: "find_matching_subobject (Suc fuel) ops t u test out = match_from fuel ops t' u v i test (?out v i t')"
        using Some r False by (subst find_matching_subobject.simps) auto
      show ?thesis
      proof (cases "ut_kind ops u = ARRAY")
        case True
        then have s: "spanning_element ops t u" "v = ut_element ops u" "t' = t mod ut_size ops v" "i = 0"
          using first_subobject_spec [OF assms(1), of t u] Some r by auto
        have "d v < d u" using assms(2) True s(2) by (simp add: nested_def)
        then obtain b out1 where b: "find_matching_subobject fuel ops t' v test (?out v i t') = Inr (b, out1)"
          "b \<longleftrightarrow> subobject_at ops test t' v" using assms(3) unfolding decides_def by blast
        have "member_count ops u = 0" using assms(1) True by (simp add: members_ok_def)
        moreover have "subobject_at ops test t u \<longleftrightarrow> b"
          unfolding at b(2) using s True by (auto simp: spanning_member_def)
        ultimately show ?thesis unfolding eq using b(1) by (subst match_from.simps) auto
      next
        case False
        then have s: "spanning_member ops t u i" "v = member_type ops u i" "t' = t - member_off ops u i"
          "\<And>j. spanning_member ops t u j \<Longrightarrow> i \<le> j"
          using first_member [OF assms(1) False, of t] Some r by auto
        have "subobject_at ops test t u \<longleftrightarrow> (\<exists>j\<ge>i. spanning_member ops t u j \<and>
            subobject_at ops test (t - member_off ops u j) (member_type ops u j))"
          unfolding at using s(4) False by (auto simp: spanning_element_def)
        then show ?thesis
          unfolding eq s(2,3) using match_from_members [OF assms(1) s(1), of fuel test] assms(3)
            nested_member [OF assms(2)] by blast
      qed
    qed
  qed
qed

text \<open>
  C35. The search for a subobject of a given type returns, however the alternatives of unions branch, as
  soon as its fuel exceeds the depth to which types nest, and answers yes exactly when some
  path of subobjects spanning the offset leads to a subobject of that type that starts at it.
\<close>

theorem find_matching_decides:
  assumes "members_ok ops" "nested ops d" "d u < fuel"
  shows "\<exists>b out'. find_matching_subobject fuel ops t u test out = Inr (b, out') \<and>
    (b \<longleftrightarrow> subobject_at ops test t u)"
proof -
  have "decides fuel ops test u"
    using assms(3)
  proof (induction fuel arbitrary: u)
    case (Suc fuel)
    show ?case by (rule decides_step [OF assms(1,2)]) (use Suc in auto)
  qed simp
  then show ?thesis unfolding decides_def by blast
qed

text \<open>
  The walk over the subobjects that span an offset divides by the size of an array's elements before it
  tests that the size is not zero: on an array of zero-sized elements it faults, where the search for
  the first such subobject finds nothing.
\<close>

lemma walk_divides_by_zero:
  assumes "ut_kind ops u = ARRAY" "ut_size ops (ut_element ops u) = 0" "0 < fuel"
  shows "walk_subobjects_spanning fuel ops cb t u s = Inl Div_By_Zero \<and>
    first_subobject_spanning ops t u = None"
  using assms by (simp add: walk_subobjects_spanning_def walk_subobjects_spanning_rec.simps
      first_subobject_spanning_def Let_def)

section \<open>Concrete types\<close>

text \<open>
  Type 1 is a base type of four bytes, 2 an array of three of it, 3 a union of the array and the
  base type followed by a base type at offset 12, and 4 an array of the void type 5.
\<close>

definition ex_types :: subobj_ops where
  "ex_types = \<lparr>ut_kind = (\<lambda>u. if u = 2 \<or> u = 4 then ARRAY else if u = 3 then COMPOSITE else if u = 5 then VOID else BASE),
     ut_size = (\<lambda>u. if u = 1 then 4 else if u = 2 then 12 else if u = 3 then 16 else 0),
     ut_is_pointer = (\<lambda>_. False), ut_pointee = (\<lambda>_. 0),
     ut_element = (\<lambda>u. if u = 4 then 5 else 1), ut_length = (\<lambda>_. 3),
     ut_members = (\<lambda>u. if u = 3 then [(1, 0), (2, 0), (1, 12)] else []),
     ut_has_subobjects = (\<lambda>_. True), ut_subobjects = (\<lambda>_. []), ut_rel0_off = (\<lambda>_. 0)\<rparr>"

definition ex_depth :: "nat \<Rightarrow> nat" where
  "ex_depth u = (if u = 3 then 2 else if u = 2 \<or> u = 4 then 1 else 0)"

lemma ex_members_ok: "members_ok ex_types"
  by (simp add: members_ok_def ex_types_def)

lemma ex_nested: "nested ex_types ex_depth"
  by (simp add: nested_def ex_types_def ex_depth_def)

theorem first_subobject_correct_witness:
  "first_subobject_spanning ex_types 8 3 = Some (8, 1, 0) \<and> spanning_member ex_types 8 3 0 \<and>
   Min {i. spanning_member ex_types 8 3 i} = 0"
proof -
  have "first_subobject_spanning ex_types 8 3 = Some (8, 1, 0)"
    by (simp add: first_subobject_spanning_def ex_types_def bisect.simps Let_def)
  then show ?thesis
    using first_subobject_correct [OF ex_members_ok, of 8 3] by (simp add: ex_types_def)
qed

theorem find_matching_decides_witness:
  "\<exists>b out'. find_matching_subobject 3 ex_types 8 3 1
      \<lparr>last_attempted_uniqtype = 0, last_uniqtype_offset = 0, cumulative_offset_searched = 0,
       cur_containing_uniqtype = 0, cur_contained_pos = None\<rparr> = Inr (b, out') \<and>
    (b \<longleftrightarrow> subobject_at ex_types 1 8 3)"
  by (rule find_matching_decides [OF ex_members_ok ex_nested]) (simp add: ex_depth_def)

text \<open>
  The offset that the search reports leaves out which element of an array it went into: here the
  subobject found lies at offset 8.
\<close>

lemma cumulative_offset_misses_elements:
  "\<exists>out'. find_matching_subobject 3 ex_types 8 3 1
      \<lparr>last_attempted_uniqtype = 0, last_uniqtype_offset = 0, cumulative_offset_searched = 0,
       cur_containing_uniqtype = 0, cur_contained_pos = None\<rparr> = Inr (True, out') \<and>
    cumulative_offset_searched out' = 0"
  by (simp add: find_matching_subobject.simps match_from.simps first_subobject_spanning_def ex_types_def
      bisect.simps contained_off_def Let_def)

end
