(* ===== verification/Query.thy ===== *)
theory Query
  imports Malloc_Index Subobjects Mapping_Seq
begin

text \<open>
  The queries of the public interface (\<open>src/query.c\<close> and the inline \<open>__liballocs_get_alloc_info\<close> of
  \<open>include/liballocs.h\<close>).  They find the leaf allocator of an address in the page index and ask
  it; the query for a base also uses the range cache.

  The operations of an allocator are the fields of \<open>query_env\<close>, as are the descriptors of
  types and the functions that make new ones.  An output that is not written is \<open>None\<close>, and a
  caller that goes on to use its own uninitialised variable for it faults with \<open>Uninit_Read\<close>.  An
  allocator is told whether the caller asks for a site or a type.
\<close>

section \<open>The basic query\<close>

type_synonym get_info_result = "site_and_type \<times> addr option \<times> nat option"

record query_env =
  q_hooks :: "heap_state hooks"
  q_get_info :: "allocator \<Rightarrow> addr \<Rightarrow> nat \<Rightarrow> bool \<Rightarrow> heap_state \<Rightarrow> (get_info_result \<times> heap_state) res"
  q_set_type :: "allocator \<Rightarrow> (nat \<Rightarrow> addr \<Rightarrow> nat \<Rightarrow> heap_state \<Rightarrow> (liballocs_err option \<times> heap_state) res) option"
  q_is_cacheable :: "allocator \<Rightarrow> bool"
  q_uninterpreted_byte :: nat
  q_types :: subobj_ops
  q_make_precise :: "nat \<Rightarrow> (addr \<Rightarrow> addr \<Rightarrow> nat \<Rightarrow> nat) option"
  q_array_type :: "nat \<Rightarrow> nat \<Rightarrow> nat"
  q_union_type :: "nat \<Rightarrow> nat \<Rightarrow> nat"

record alloc_info =
  ai_err :: "liballocs_err option"
  ai_allocator :: "allocator option"
  ai_base :: "addr option"
  ai_size :: "nat option"
  ai_type :: "addr option"
  ai_site :: "addr option"

definition ask_allocator :: "query_env \<Rightarrow> allocator \<Rightarrow> addr \<Rightarrow> nat \<Rightarrow> bool \<Rightarrow> heap_state \<Rightarrow>
    (alloc_info \<times> heap_state) res" where
  "ask_allocator env a obj b want_type_or_site s =
     rbind (q_get_info env a obj b want_type_or_site s) (\<lambda>(((err, site, t), base, sz), s).
       Inr (\<lparr>ai_err = err, ai_allocator = Some a, ai_base = base, ai_size = sz, ai_type = t, ai_site = site\<rparr>, s))"

definition get_alloc_info :: "query_env \<Rightarrow> addr \<Rightarrow> bool \<Rightarrow> heap_state \<Rightarrow> (alloc_info \<times> heap_state) res" where
  "get_alloc_info env obj want_type_or_site s =
     rbind (leaf_allocator_for obj s) (\<lambda>(a, the_bigalloc).
       case a of
         Some a \<Rightarrow> ask_allocator env a obj the_bigalloc want_type_or_site s
       | None \<Rightarrow>
           rbind (notify_unindexed_address (q_hooks env) obj s) (\<lambda>(fixed, s).
             if fixed then
               rbind (leaf_allocator_for obj s) (\<lambda>(a, the_bigalloc).
                 case a of
                   None \<Rightarrow> Inl Abort
                 | Some a \<Rightarrow> ask_allocator env a obj the_bigalloc want_type_or_site s)
             else
               Inr (\<lparr>ai_err = Some Object_Of_Unknown_Storage, ai_allocator = None, ai_base = None, ai_size = None,
                      ai_type = None, ai_site = None\<rparr>,
                    s\<lparr>aborted_unknown_storage := aborted_unknown_storage s + 1\<rparr>)))"

text \<open>The entry of a malloc with a chunk index among the allocators' queries.\<close>

definition malloc_get_info :: "heap_env \<Rightarrow> heap_state hooks \<Rightarrow> allocator \<Rightarrow> addr \<Rightarrow> nat \<Rightarrow> bool \<Rightarrow>
    heap_state \<Rightarrow> (get_info_result \<times> heap_state) res" where
  "malloc_get_info henv hk a obj b want_type_or_site s =
     rbind (generic_malloc_get_info henv hk a obj b want_type_or_site s) (\<lambda>((r, base_size), s).
       Inr ((r, map_option fst base_size, map_option snd base_size), s))"

section \<open>Single results\<close>

text \<open>The value of a local variable that has no initialiser.\<close>

definition read_local :: "'a option \<Rightarrow> 'a res" where
  "read_local v = (case v of None \<Rightarrow> Inl Uninit_Read | Some x \<Rightarrow> Inr x)"

text \<open>
  A null result is 0.  The base of an object is cached with its bounds, at depth 0 and with
  the type of a byte, when its allocator is cacheable.
\<close>

definition get_base_uncached :: "query_env \<Rightarrow> addr \<Rightarrow> heap_state \<Rightarrow> (addr \<times> heap_state) res" where
  "get_base_uncached env obj s =
     rbind (get_alloc_info env obj False s) (\<lambda>(i, s).
       if ai_err i \<noteq> None \<and> ai_err i \<noteq> Some Unrecognised_Alloc_Site then Inr (0, s)
       else rbind (read_local (ai_base i)) (\<lambda>base.
         let sz = (case ai_size i of None \<Rightarrow> 0 | Some sz \<Rightarrow> sz) in
         rbind (if (case ai_allocator i of None \<Rightarrow> False | Some a \<Rightarrow> q_is_cacheable env a)
                then rbind (cache_with_type (ool_cache s) base (base + sz) (q_uninterpreted_byte env) 0 1)
                       (\<lambda>c. Inr (s\<lparr>ool_cache := c\<rparr>))
                else Inr s) (\<lambda>s. Inr (base, s))))"

definition get_base :: "query_env \<Rightarrow> addr \<Rightarrow> heap_state \<Rightarrow> (addr \<times> heap_state) res" where
  "get_base env obj s =
     rbind (memrange_cache_lookup_notype (ool_cache s) obj 0) (\<lambda>(hit, c).
       let s = s\<lparr>ool_cache := c\<rparr> in
       if hit \<noteq> 0 \<and> depth (entries c hit) = 0 then Inr (obj_base (entries c hit), s)
       else get_base_uncached env obj s)"

definition get_alloc_base_with_fill :: "query_env \<Rightarrow> addr \<Rightarrow> heap_state \<Rightarrow>
    ((addr \<times> allocator option \<times> nat option) \<times> heap_state) res" where
  "get_alloc_base_with_fill env obj s =
     rbind (get_alloc_info env obj False s) (\<lambda>(i, s).
       if ai_err i \<noteq> None then Inr ((0, ai_allocator i, None), s)
       else rbind (read_local (ai_base i)) (\<lambda>base.
              Inr ((base, ai_allocator i, Some (pageindex s (PAGENUM obj))), s)))"

definition get_type :: "query_env \<Rightarrow> addr \<Rightarrow> heap_state \<Rightarrow> (nat \<times> heap_state) res" where
  "get_type env obj s =
     rbind (get_alloc_info env obj True s) (\<lambda>(i, s).
       if ai_err i \<noteq> None then Inr (0, s)
       else rbind (read_local (ai_type i)) (\<lambda>t. Inr (t, s)))"

definition get_alloc_type_with_fill :: "query_env \<Rightarrow> addr \<Rightarrow> heap_state \<Rightarrow>
    ((nat \<times> allocator option \<times> nat option) \<times> heap_state) res" where
  "get_alloc_type_with_fill env obj s =
     rbind (get_alloc_info env obj True s) (\<lambda>(i, s).
       if ai_err i \<noteq> None then Inr ((0, ai_allocator i, None), s)
       else rbind (read_local (ai_type i)) (\<lambda>t.
              Inr ((t, ai_allocator i, Some (pageindex s (PAGENUM obj))), s)))"

definition get_outermost_type :: "query_env \<Rightarrow> addr \<Rightarrow> heap_state \<Rightarrow> (nat \<times> heap_state) res" where
  "get_outermost_type env obj s = get_type env obj s"

definition get_alloc_site :: "query_env \<Rightarrow> addr \<Rightarrow> heap_state \<Rightarrow> (addr \<times> heap_state) res" where
  "get_alloc_site env obj s =
     rbind (get_alloc_info env obj True s) (\<lambda>(i, s).
       Inr (case ai_site i of None \<Rightarrow> 0 | Some site \<Rightarrow> site, s))"

definition get_alloc_size :: "query_env \<Rightarrow> addr \<Rightarrow> heap_state \<Rightarrow> (nat \<times> heap_state) res" where
  "get_alloc_size env obj s =
     rbind (get_alloc_info env obj False s) (\<lambda>(i, s).
       if ai_err i \<noteq> None \<and> ai_err i \<noteq> Some Unrecognised_Alloc_Site then Inr (0, s)
       else rbind (read_local (ai_size i)) (\<lambda>sz. Inr (sz, s)))"

definition get_leaf_allocator :: "query_env \<Rightarrow> addr \<Rightarrow> heap_state \<Rightarrow> (allocator option \<times> heap_state) res" where
  "get_leaf_allocator env obj s =
     rbind (get_alloc_info env obj False s) (\<lambda>(i, s).
       if ai_err i \<noteq> None \<and> ai_err i \<noteq> Some Unrecognised_Alloc_Site \<and>
          ai_err i \<noteq> Some Unrecognised_Static_Object then Inr (None, s)
       else Inr (ai_allocator i, s))"

section \<open>Types inside an object\<close>

text \<open>
  The descent of \<open>__liballocs_get_inner_type\<close>: the innermost type at the offset, and the type that
  contains it.
\<close>

fun descend_innermost :: "nat \<Rightarrow> subobj_ops \<Rightarrow> nat \<Rightarrow> nat \<Rightarrow> nat \<Rightarrow> (nat \<times> nat) res" where
  "descend_innermost fuel ops target u containing =
     (case first_subobject_spanning ops target u of
        None \<Rightarrow> Inr (u, containing)
      | Some (target', u', _) \<Rightarrow>
          if fuel = 0 then Inl Out_Of_Fuel else descend_innermost (fuel - 1) ops target' u' u)"

declare descend_innermost.simps [simp del]

definition get_inner_type :: "nat \<Rightarrow> query_env \<Rightarrow> addr \<Rightarrow> nat \<Rightarrow> heap_state \<Rightarrow> (nat \<times> heap_state) res" where
  "get_inner_type fuel env obj skip_at_bottom s =
     rbind (get_alloc_info env obj True s) (\<lambda>(i, s).
       if ai_err i \<noteq> None then Inr (0, s)
       else
         rbind (read_local (ai_base i)) (\<lambda>alloc_start.
         let target = nat ((int obj - int alloc_start) mod 2 ^ 32) in
         rbind (case ai_type i of
                  None \<Rightarrow> Inl Null_Deref
                | Some u \<Rightarrow>
                    if u = 0 then Inl Null_Deref
                    else (case q_make_precise env u of
                            None \<Rightarrow> Inr u
                          | Some f \<Rightarrow> rbind (read_local (ai_size i)) (\<lambda>sz. Inr (f obj alloc_start sz)))) (\<lambda>u.
         if u = 0 then Inl Null_Deref
         else
           rbind (descend_innermost fuel (q_types env) target u 0) (\<lambda>(u, containing).
             Inr (if skip_at_bottom = 0 then u else if skip_at_bottom = 1 then containing else 0, s)))))"

definition set_alloc_type :: "query_env \<Rightarrow> addr \<Rightarrow> nat \<Rightarrow> heap_state \<Rightarrow> heap_state res" where
  "set_alloc_type env obj t s =
     rbind (leaf_allocator_for obj s) (\<lambda>(a, maybe_the_allocation).
       case a of
         None \<Rightarrow> Inr s
       | Some a \<Rightarrow>
           (case q_set_type env a of
              None \<Rightarrow> Inr s
            | Some f \<Rightarrow> rbind (f maybe_the_allocation obj t s) (\<lambda>(_, s). Inr s)))"

text \<open>The result is the code's return value; a division by the size of a sizeless type faults.\<close>

definition add_type_to_block :: "query_env \<Rightarrow> addr \<Rightarrow> nat \<Rightarrow> heap_state \<Rightarrow> (nat \<times> heap_state) res" where
  "add_type_to_block env block t s =
     rbind (leaf_allocator_for block s) (\<lambda>(a, b).
       case a of
         None \<Rightarrow> Inr (1, s)
       | Some a \<Rightarrow>
           rbind (q_get_info env a block b True s) (\<lambda>(((_, _, old_type), _, sz), s).
             case old_type of
               None \<Rightarrow> Inr (2, s)
             | Some u \<Rightarrow>
                 if u = 0 then Inr (2, s)
                 else rbind (read_local sz) (\<lambda>sz.
                   if ut_size (q_types env) t = 0 then Inl Div_By_Zero
                   else
                     let u = (case q_make_precise env u of None \<Rightarrow> u | Some f \<Rightarrow> f block block sz);
                         new_type = q_array_type env t (sz div ut_size (q_types env) t)
                     in if new_type = 0 then Inr (3, s)
                        else (case q_set_type env a of
                                None \<Rightarrow> Inl Null_Deref
                              | Some f \<Rightarrow>
                                  rbind (f (if allocated_by (big_allocations s b) = Some a then b else 0) block
                                           (q_union_type env u new_type) s) (\<lambda>(_, s).
                                  rbind (get_type env block s) (\<lambda>(_, s). Inr (0, s)))))))"

section \<open>Mappings and allocator-specific data\<close>

text \<open>
  \<open>seq_at\<close> is the memory that holds mapping sequences.  The result is the big allocation and the
  index of the entry.
\<close>

definition get_memory_mapping :: "(addr \<Rightarrow> mapping_sequence) \<Rightarrow> addr \<Rightarrow> 'a pi_state_scheme \<Rightarrow>
    (nat \<times> nat) option res" where
  "get_memory_mapping seq_at obj s =
     rbind (lookup_bigalloc_top_level obj s) (\<lambda>the_bigalloc.
       if the_bigalloc = 0 then Inr None
       else
         let seq = allocator_private (big_allocations s the_bigalloc) in
         if seq = 0 then Inr None
         else Inr (map_option (\<lambda>i. (the_bigalloc, i)) (find_entry obj (seq_at seq))))"

definition get_specific_by_allocator :: "'a pi_state_scheme hooks \<Rightarrow> addr \<Rightarrow> allocator \<Rightarrow>
    'a pi_state_scheme \<Rightarrow> (nat \<times> 'a pi_state_scheme) res" where
  "get_specific_by_allocator hk obj a s =
     rbind (lookup_bigalloc_from_root hk obj a s) (\<lambda>(b, s).
       Inr (if b \<noteq> 0 then allocator_private (big_allocations s b) else 0, s))"

end
