(* ===== verification/Query_Correct.thy ===== *)
theory Query_Correct
  imports Query Malloc_Index_Correct Subobjects_Correct
begin

text \<open>
  What the queries answer: a base is found through the page index and the heap's chunk index and then
  comes from the range cache; an address of unknown storage gives null results; the
  descent to the innermost type ends.
\<close>

section \<open>The cache in front of the query for a base\<close>

definition any_range_hit :: "addr \<Rightarrow> addr \<times> addr \<times> nat \<times> nat \<times> int \<Rightarrow> bool" where
  "any_range_hit obj = (\<lambda>(b, l, t, p, d). b \<le> obj \<and> obj < l \<and> (obj = b \<or> p \<noteq> 0 \<and> p dvd obj - b))"

lemma lookup_notype_range:
  "lookup_range (any_range_hit obj) c = rbind (memrange_cache_lookup_notype c obj 0) (\<lambda>(i, c').
     Inr (if i = 0 then None else Some (range_of (entries c' i)), c'))"
proof -
  have "entry_hit_notype e obj 0 = any_range_hit obj (range_of e)" for e
    by (auto simp: entry_hit_notype_def any_range_hit_def range_of_def dvd_eq_mod_eq_0)
  then show ?thesis by (simp add: lookup_range_def memrange_cache_lookup_notype_def)
qed

lemma notype_lookup:
  assumes "cache_ok c"
  obtains i c' where "memrange_cache_lookup_notype c obj 0 = Inr (i, c')" "cache_ok c'"
    "(if i = 0 then None else Some (range_of (entries c' i))) = List.find (any_range_hit obj) (cache_ranges c)"
proof -
  obtain c' where c': "lookup_range (any_range_hit obj) c =
      Inr (List.find (any_range_hit obj) (cache_ranges c), c')" "cache_ok c'"
    using cache_lookup_ok [OF assms] by blast
  then show ?thesis
    using that unfolding lookup_notype_range rbind_eq_Inr by (auto simp del: find_None_iff)
qed

lemma get_base_hit:
  assumes "cache_ok (ool_cache s)" "List.find (any_range_hit obj) (cache_ranges (ool_cache s)) = Some (b, l, t, p, 0)"
  shows "\<exists>c. get_base env obj s = Inr (b, s\<lparr>ool_cache := c\<rparr>)"
proof -
  obtain i c' where i: "memrange_cache_lookup_notype (ool_cache s) obj 0 = Inr (i, c')"
    "(if i = 0 then None else Some (range_of (entries c' i))) = Some (b, l, t, p, 0)"
    using notype_lookup [OF assms(1), of obj] assms(2) by metis
  then have "i \<noteq> 0" "obj_base (entries c' i) = b" "depth (entries c' i) = 0"
    by (auto simp: range_of_def split: if_splits)
  then show ?thesis using i(1) by (auto simp: get_base_def Let_def)
qed

lemma get_base_miss:
  assumes "cache_ok (ool_cache s)" "List.find (any_range_hit obj) (cache_ranges (ool_cache s)) = None"
  shows "\<exists>c. cache_ok c \<and> get_base env obj s = get_base_uncached env obj (s\<lparr>ool_cache := c\<rparr>)"
proof -
  obtain i c' where i: "memrange_cache_lookup_notype (ool_cache s) obj 0 = Inr (i, c')" "cache_ok c'"
    "(if i = 0 then None else Some (range_of (entries c' i))) = None"
    using notype_lookup [OF assms(1), of obj] assms(2) by metis
  then have "i = 0" by (simp split: if_splits)
  then show ?thesis using i(1,2) by (auto simp: get_base_def Let_def)
qed

section \<open>The base of a heap chunk\<close>

definition queried_chunk :: "heap_env \<Rightarrow> query_env \<Rightarrow> heap_state hooks \<Rightarrow> allocator \<Rightarrow> nat \<Rightarrow> addr \<Rightarrow> addr \<Rightarrow>
    heap_state \<Rightarrow> bool" where
  "queried_chunk henv env hk a arena c mem s \<longleftrightarrow>
     pi_inv s \<and> deepest_at s mem arena \<and>
     {k. used s k \<and> contains_addr s k mem \<and> suballocator (big_allocations s k) = Some a} = {arena} \<and>
     allocated_by (big_allocations s arena) \<noteq> Some a \<and> q_get_info env a = malloc_get_info henv hk a \<and>
     (let ip = suballocator_private (big_allocations s arena); info = arena_infos s ip in
        ip \<noteq> 0 \<and> arena_ok henv info \<and> c \<in> chunks info \<and> covered info mem \<and>
        16 \<le> sizefn henv c \<and> sizefn henv c \<le> 131072 \<and> c \<le> mem \<and> mem < c + (sizefn henv c - 8))"

lemma queried_chunk_cache: "queried_chunk henv env hk a arena c mem s \<Longrightarrow>
    queried_chunk henv env hk a arena c mem (s\<lparr>ool_cache := cc\<rparr>)"
  using same_shape_deepest [OF heap_same_shape(3)]
  by (auto simp: queried_chunk_def Let_def contains_addr_def BIGALLOC_IN_USE_def)

lemma chunk_alloc_info:
  assumes "bitmap_laws henv" "queried_chunk henv env hk a arena c mem s"
  shows "get_alloc_info env mem False s =
    Inr (\<lparr>ai_err = None, ai_allocator = Some a, ai_base = Some c, ai_size = Some (sizefn henv c - 16),
           ai_type = None, ai_site = None\<rparr>, s\<lparr>hit_heap_case := hit_heap_case s + 1\<rparr>)"
proof -
  note q = assms(2) [unfolded queried_chunk_def Let_def]
  have sub: "suballocator (big_allocations s arena) = Some a" using q by auto
  have "arena_info_for_userptr henv hk a mem (s\<lparr>hit_heap_case := n\<rparr>) =
      Inr (suballocator_private (big_allocations s arena), s\<lparr>hit_heap_case := n\<rparr>)" for n
  proof -
    have sh: "same_shape s (s\<lparr>hit_heap_case := n\<rparr>)" by (simp add: same_shape_def)
    have "{k. used (s\<lparr>hit_heap_case := n\<rparr>) k \<and> contains_addr (s\<lparr>hit_heap_case := n\<rparr>) k mem \<and>
        suballocator (big_allocations (s\<lparr>hit_heap_case := n\<rparr>) k) = Some a} = {arena}"
      using q by (simp add: contains_addr_def BIGALLOC_IN_USE_def)
    from arena_info_unique [OF same_shape_inv [OF sh] this] show ?thesis using q by simp
  qed
  then have "generic_malloc_get_info henv hk a mem arena False s =
      Inr (((None, None, None), Some (c, sizefn henv c - 16)), s\<lparr>hit_heap_case := hit_heap_case s + 1\<rparr>)"
    using q by (intro get_info_size_short [OF assms(1), where ip = "suballocator_private (big_allocations s arena)"]) auto
  moreover have "leaf_allocator_for mem s = Inr (Some a, arena)"
    using leaf_allocator_ok [of s mem arena] q sub by simp
  ultimately show ?thesis
    using q by (simp add: get_alloc_info_def ask_allocator_def malloc_get_info_def)
qed

lemma chunk_base_uncached:
  assumes "bitmap_laws henv" "queried_chunk henv env hk a arena c mem s" "q_is_cacheable env a"
    "cache_ok (ool_cache s)"
  shows "\<exists>c1. cache_ok c1 \<and> cache_ranges c1 = (c, c + (sizefn henv c - 16), q_uninterpreted_byte env, 1, 0) #
      take (size_plus_one (ool_cache s) - 1 - 1) (cache_ranges (ool_cache s)) \<and>
    get_base_uncached env mem s = Inr (c, s\<lparr>hit_heap_case := hit_heap_case s + 1, ool_cache := c1\<rparr>)"
  using cache_insert_ok [OF assms(4), of "(c, c + (sizefn henv c - 16), q_uninterpreted_byte env, 1, 0)"]
    chunk_alloc_info [OF assms(1,2)] assms(3)
  by (auto simp: get_base_uncached_def read_local_def cache_range_def Let_def)

text \<open>
  C36. The base of an address in an indexed heap chunk that no cached range holds is the chunk's
  beginning, found with one query to the heap.  The answer is cached: the base of any address of the
  chunk, up to the size the heap reports, is then given from the cache whatever the allocators would
  answer, and only the cache changes.
\<close>

theorem heap_base_cached:
  assumes "bitmap_laws henv" "queried_chunk henv env hk a arena c mem s" "q_is_cacheable env a"
    "cache_ok (ool_cache s)" "List.find (any_range_hit mem) (cache_ranges (ool_cache s)) = None"
    "c \<le> mem'" "mem' < c + (sizefn henv c - 16)"
  shows "\<exists>s1 c1 c2. get_base env mem s = Inr (c, s1) \<and>
    s1 = s\<lparr>hit_heap_case := hit_heap_case s + 1, ool_cache := c1\<rparr> \<and>
    get_base env' mem' s1 = Inr (c, s1\<lparr>ool_cache := c2\<rparr>)"
proof -
  obtain c0 where c0: "cache_ok c0" "get_base env mem s = get_base_uncached env mem (s\<lparr>ool_cache := c0\<rparr>)"
    using get_base_miss [OF assms(4,5)] by blast
  obtain c1 where c1: "cache_ok c1" "\<exists>rs. cache_ranges c1 = (c, c + (sizefn henv c - 16), q_uninterpreted_byte env, 1, 0) # rs"
    "get_base env mem s = Inr (c, s\<lparr>hit_heap_case := hit_heap_case s + 1, ool_cache := c1\<rparr>)"
    using chunk_base_uncached [OF assms(1) queried_chunk_cache [OF assms(2)] assms(3), of c0] c0 by auto
  have "List.find (any_range_hit mem') (cache_ranges c1) = Some (c, c + (sizefn henv c - 16), q_uninterpreted_byte env, 1, 0)"
    using c1(2) assms(6,7) by (auto simp: any_range_hit_def)
  then show ?thesis
    using get_base_hit [of "s\<lparr>hit_heap_case := hit_heap_case s + 1, ool_cache := c1\<rparr>" mem'] c1(1,3) by fastforce
qed

section \<open>Addresses of unknown storage\<close>

lemma unindexed_alloc_info:
  assumes "pageindex s (PAGENUM obj) = 0" "notify_unindexed_address (q_hooks env) obj s = Inr (False, s')"
  shows "get_alloc_info env obj w s =
    Inr (\<lparr>ai_err = Some Object_Of_Unknown_Storage, ai_allocator = None, ai_base = None, ai_size = None,
           ai_type = None, ai_site = None\<rparr>, s'\<lparr>aborted_unknown_storage := aborted_unknown_storage s' + 1\<rparr>)"
proof -
  have "leaf_allocator_for obj s = Inr (None, 0)"
    using assms(1) by (simp add: leaf_allocator_for_def get_bigalloc_containing_def leaf_loop.simps)
  then show ?thesis using assms(2) by (simp add: get_alloc_info_def)
qed

text \<open>
  C37. An address on an unindexed page that neither the stack nor the mmap allocator recognises
  is counted once as of unknown storage, and each query gives its null result; an uninitialised variable is
  never read.
\<close>

theorem unknown_storage_null:
  assumes "pageindex s (PAGENUM obj) = 0" "h_stack_notify_unindexed (q_hooks env) obj s = Inr (False, s1)"
    "h_mmap_notify_unindexed (q_hooks env) obj s1 = Inr (False, s2)"
    "s' = s2\<lparr>aborted_unknown_storage := aborted_unknown_storage s2 + 1\<rparr>"
  shows "get_base_uncached env obj s = Inr (0, s') \<and> get_alloc_base_with_fill env obj s = Inr ((0, None, None), s') \<and>
    get_type env obj s = Inr (0, s') \<and> get_alloc_type_with_fill env obj s = Inr ((0, None, None), s') \<and>
    get_inner_type fuel env obj k s = Inr (0, s') \<and> get_alloc_site env obj s = Inr (0, s') \<and>
    get_alloc_size env obj s = Inr (0, s') \<and> get_leaf_allocator env obj s = Inr (None, s')"
proof -
  have "notify_unindexed_address (q_hooks env) obj s = Inr (False, s2)"
    using assms(2,3) by (simp add: notify_unindexed_address_def)
  note i = unindexed_alloc_info [OF assms(1) this]
  show ?thesis
    by (simp add: i assms(4) get_base_uncached_def get_alloc_base_with_fill_def get_type_def
        get_alloc_type_with_fill_def get_inner_type_def get_alloc_site_def get_alloc_size_def
        get_leaf_allocator_def)
qed

section \<open>The innermost type\<close>

text \<open>\<open>inner_at ops t u t' u'\<close>: first subobjects lead from offset \<open>t\<close> of \<open>u\<close> to offset \<open>t'\<close> of \<open>u'\<close>.\<close>

inductive inner_at :: "('a ut_ops_scheme) \<Rightarrow> nat \<Rightarrow> nat \<Rightarrow> nat \<Rightarrow> nat \<Rightarrow> bool" for ops where
  inner_here: "inner_at ops t u t u"
| inner_down: "first_subobject_spanning ops t u = Some (t1, u1, i) \<Longrightarrow> inner_at ops t1 u1 t' u' \<Longrightarrow>
    inner_at ops t u t' u'"

lemma first_subobject_depth:
  assumes "members_ok ops" "nested ops d" "first_subobject_spanning ops t u = Some (t', u', i)"
  shows "d u' < d u"
proof (cases "ut_kind ops u = ARRAY")
  case True
  then have "u' = ut_element ops u"
    using assms(3) by (auto simp: first_subobject_spanning_def Let_def split: if_splits)
  then show ?thesis using assms(2) True by (simp add: nested_def)
next
  case False
  then have "u' = member_type ops u i" "i < member_count ops u"
    using first_member [OF assms(1) False, of t] assms(3) by (auto simp: spanning_member_def)
  then have "(u', member_off ops u i) \<in> set (ut_members ops u)" by simp
  then show ?thesis using assms(2) False by (fastforce simp: nested_def)
qed

text \<open>The last step to \<open>u'\<close> goes from offset \<open>t1\<close> of \<open>con'\<close>; with no step \<open>con'\<close> is \<open>con\<close>.\<close>

definition inner_from :: "('a ut_ops_scheme) \<Rightarrow> nat \<Rightarrow> nat \<Rightarrow> nat \<Rightarrow> nat \<Rightarrow> nat \<Rightarrow> nat \<Rightarrow> bool" where
  "inner_from ops t u con t' u' con' \<longleftrightarrow> t' = t \<and> u' = u \<and> con' = con \<or>
     (\<exists>t1 i. inner_at ops t u t1 con' \<and> first_subobject_spanning ops t1 con' = Some (t', u', i))"

lemma inner_from_down:
  assumes "first_subobject_spanning ops t u = Some (t1, u1, i)" "inner_from ops t1 u1 u t' u' con'"
  shows "inner_from ops t u con t' u' con'"
  using assms inner_down [OF assms(1)] inner_here unfolding inner_from_def by metis

lemma descend_ok:
  assumes "members_ok ops" "nested ops d" "d u \<le> fuel"
  shows "\<exists>t' u' con'. descend_innermost fuel ops t u con = Inr (u', con') \<and> inner_at ops t u t' u' \<and>
    inner_from ops t u con t' u' con' \<and> first_subobject_spanning ops t' u' = None"
  using assms(3)
proof (induction fuel arbitrary: t u con)
  case 0
  have "first_subobject_spanning ops t u = None"
    using first_subobject_depth [OF assms(1,2), of t u] 0 by (cases "first_subobject_spanning ops t u") auto
  then show ?case by (subst descend_innermost.simps) (auto simp: inner_from_def intro: inner_here)
next
  case (Suc n)
  show ?case
  proof (cases "first_subobject_spanning ops t u")
    case None
    then show ?thesis by (subst descend_innermost.simps) (auto simp: inner_from_def intro: inner_here)
  next
    case (Some r)
    obtain t1 u1 i where r: "first_subobject_spanning ops t u = Some (t1, u1, i)" using Some by (cases r) auto
    have "d u1 \<le> n" using first_subobject_depth [OF assms(1,2) r] Suc.prems by simp
    from Suc.IH [OF this, of t1 u] obtain t' u' con' where "descend_innermost n ops t1 u1 u = Inr (u', con')"
      "inner_at ops t1 u1 t' u'" "inner_from ops t1 u1 u t' u' con'" "first_subobject_spanning ops t' u' = None" by blast
    moreover have "descend_innermost (Suc n) ops t u con = descend_innermost n ops t1 u1 u"
      by (subst descend_innermost.simps) (simp add: r)
    ultimately show ?thesis using inner_down [OF r] inner_from_down [OF r] by metis
  qed
qed

text \<open>The type the descent starts from: that of the allocation, made precise where the type says how.\<close>

definition precise_type :: "query_env \<Rightarrow> alloc_info \<Rightarrow> addr \<Rightarrow> addr \<Rightarrow> nat \<Rightarrow> nat \<Rightarrow> bool" where
  "precise_type env i obj b u u0 \<longleftrightarrow> (case q_make_precise env u of
      None \<Rightarrow> u0 = u
    | Some f \<Rightarrow> (case ai_size i of None \<Rightarrow> False | Some sz \<Rightarrow> u0 = f obj b sz))"

lemma get_inner_type_descends:
  assumes "get_alloc_info env obj True s = Inr (i, s')" "ai_err i = None" "ai_base i = Some b" "ai_type i = Some u"
    "u \<noteq> 0" "precise_type env i obj b u u0" "u0 \<noteq> 0"
  shows "get_inner_type fuel env obj k s =
    rbind (descend_innermost fuel (q_types env) (nat ((int obj - int b) mod 2 ^ 32)) u0 0) (\<lambda>(u, containing).
      Inr (if k = 0 then u else if k = 1 then containing else 0, s'))"
  using assms by (simp add: get_inner_type_def read_local_def precise_type_def split: option.splits)

text \<open>
  C38. When the query of an address for its allocation succeeds, gives a type (made precise where the type
  has a function for that) and a base less than 4 GiB below the address, and types are nested no
  deeper than the fuel, the query for the innermost type ends: it follows first subobjects from the
  object's type at the address's offset, up to one that has none at what remains of the offset, and
  returns that one; told to skip one level it returns the type that contains it, null if no step was
  made, and told to skip more, null.
\<close>

theorem inner_type_innermost:
  assumes "get_alloc_info env obj True s = Inr (i, s')" "ai_err i = None" "ai_base i = Some b" "ai_type i = Some u"
    "u \<noteq> 0" "precise_type env i obj b u u0" "u0 \<noteq> 0" "b \<le> obj" "obj < b + 2 ^ 32"
    "members_ok (q_types env)" "nested (q_types env) d" "d u0 \<le> fuel"
  shows "\<exists>t' u' con. get_inner_type fuel env obj k s = Inr (if k = 0 then u' else if k = 1 then con else 0, s') \<and>
    inner_at (q_types env) (obj - b) u0 t' u' \<and> first_subobject_spanning (q_types env) t' u' = None \<and>
    inner_from (q_types env) (obj - b) u0 0 t' u' con"
proof -
  have o: "nat ((int obj - int b) mod 2 ^ 32) = obj - b" using assms(8,9) by simp
  obtain t' u' con where d: "descend_innermost fuel (q_types env) (obj - b) u0 0 = Inr (u', con)"
    "inner_at (q_types env) (obj - b) u0 t' u'" "inner_from (q_types env) (obj - b) u0 0 t' u' con"
    "first_subobject_spanning (q_types env) t' u' = None"
    using descend_ok [OF assms(10-12)] by blast
  have "get_inner_type fuel env obj k s = Inr (if k = 0 then u' else if k = 1 then con else 0, s')"
    using get_inner_type_descends [OF assms(1-7), of fuel k] by (simp only: o d(1) rbind.simps prod.case)
  then show ?thesis using d(2-4) by blast
qed

text \<open>The offset is kept in 32 bits: 4 GiB into an object its beginning is described.\<close>

lemma inner_type_offset_wraps:
  assumes "get_alloc_info env (b + 2 ^ 32) True s = Inr (i, s')" "ai_err i = None" "ai_base i = Some b"
    "ai_type i = Some u" "u \<noteq> 0" "precise_type env i (b + 2 ^ 32) b u u0" "u0 \<noteq> 0"
  shows "get_inner_type fuel env (b + 2 ^ 32) 0 s =
    rbind (descend_innermost fuel (q_types env) 0 u0 0) (\<lambda>(u, _). Inr (u, s'))"
  using get_inner_type_descends [OF assms] by simp

section \<open>Examples\<close>

text \<open>Queries to the example heap, and to an allocator that gives the type of the example structure.\<close>

definition ex_query_env :: query_env where
  "ex_query_env = \<lparr>q_hooks = no_hooks, q_get_info = malloc_get_info ex_heap_env no_hooks,
     q_set_type = (\<lambda>_. None), q_is_cacheable = (\<lambda>a. a = A_default_lib_malloc), q_uninterpreted_byte = 7,
     q_types = ex_types, q_make_precise = (\<lambda>_. None), q_array_type = (\<lambda>_ _. 0), q_union_type = (\<lambda>_ _. 0)\<rparr>"

definition ex_typed_env :: query_env where
  "ex_typed_env = ex_query_env\<lparr>q_get_info := \<lambda>a obj b w s.
     Inr (((None, Some 0, Some 3), Some 65696, Some 16), s)\<rparr>"

lemma ex_heap_deepest: "65536 \<le> x \<Longrightarrow> x < 69632 \<Longrightarrow> deepest_at ex_heap x 2"
  by (rule same_shape_deepest [OF ex_heap_shape])
    (auto intro!: deepestI [OF ex_tree] simp: ex_used ex_fields contains_addr_def split: if_splits)

lemma ex_queried_chunk:
  "queried_chunk ex_heap_env ex_query_env no_hooks A_default_lib_malloc 2 65696 65700 ex_heap"
proof -
  have "{k. used ex_heap k \<and> contains_addr ex_heap k 65700 \<and>
      suballocator (big_allocations ex_heap k) = Some A_default_lib_malloc} = {2}"
    unfolding ex_heap_used
    by (auto simp: ex_heap_def ex_slots_def ex_slot_def contains_addr_def empty_bigalloc_def split: if_splits)
  moreover have "allocated_by (big_allocations ex_heap 2) = Some A_mmap"
    "suballocator_private (big_allocations ex_heap 2) = 900"
    by (simp_all add: ex_heap_def ex_slots_def ex_slot_def)
  moreover have "covered ex_info 65700" "sizefn ex_heap_env 65696 = 64"
    by (simp_all add: covered_def ex_info_def ex_heap_env_def)
  ultimately show ?thesis
    unfolding queried_chunk_def Let_def
    by (simp add: ex_heap_inv ex_heap_deepest ex_heap_sel ex_arena_ok ex_chunks ex_query_env_def)
qed

theorem heap_base_cached_witness:
  "\<forall>env'. \<exists>s1 c2. get_base ex_query_env 65700 ex_heap = Inr (65696, s1) \<and> hit_heap_case s1 = 1 \<and>
     get_base env' 65740 s1 = Inr (65696, s1\<lparr>ool_cache := c2\<rparr>)"
proof
  fix env'
  have c: "ool_cache ex_heap = ool_cache_init" "hit_heap_case ex_heap = 0" by (simp_all add: ex_heap_def)
  have "\<exists>s1 c1 c2. get_base ex_query_env 65700 ex_heap = Inr (65696, s1) \<and>
      s1 = ex_heap\<lparr>hit_heap_case := hit_heap_case ex_heap + 1, ool_cache := c1\<rparr> \<and>
      get_base env' 65740 s1 = Inr (65696, s1\<lparr>ool_cache := c2\<rparr>)"
    by (rule heap_base_cached [OF ex_laws ex_queried_chunk])
      (simp_all add: c cache_init_ok, simp_all add: ex_query_env_def ex_heap_env_def)
  then show "\<exists>s1 c2. get_base ex_query_env 65700 ex_heap = Inr (65696, s1) \<and> hit_heap_case s1 = 1 \<and>
      get_base env' 65740 s1 = Inr (65696, s1\<lparr>ool_cache := c2\<rparr>)"
    using c(2) by force
qed

theorem unknown_storage_null_witness:
  "get_type ex_query_env 50000 ex_heap = Inr (0, ex_heap\<lparr>aborted_unknown_storage := 1\<rparr>) \<and>
   get_leaf_allocator ex_query_env 50000 ex_heap = Inr (None, ex_heap\<lparr>aborted_unknown_storage := 1\<rparr>)"
proof -
  have "pageindex ex_heap (PAGENUM 50000) = 0" "aborted_unknown_storage ex_heap = 0"
    by (simp_all add: ex_heap_def ex_index_def PAGENUM_def)
  then show ?thesis
    using unknown_storage_null [of ex_heap 50000 ex_query_env ex_heap ex_heap
        "ex_heap\<lparr>aborted_unknown_storage := 1\<rparr>"]
    by (simp add: ex_query_env_def no_hooks_def)
qed

theorem inner_type_innermost_witness:
  "\<exists>t' u'. get_inner_type 2 ex_typed_env 65704 0 ex_heap = Inr (u', ex_heap) \<and> inner_at ex_types 8 3 t' u' \<and>
     first_subobject_spanning ex_types t' u' = None"
proof -
  have "leaf_allocator_for 65704 ex_heap = Inr (Some A_default_lib_malloc, 2)"
    using leaf_allocator_ok [OF ex_heap_inv ex_heap_deepest] ex_heap_sel(2) by simp
  then have "get_alloc_info ex_typed_env 65704 True ex_heap =
      Inr (\<lparr>ai_err = None, ai_allocator = Some A_default_lib_malloc, ai_base = Some 65696, ai_size = Some 16,
             ai_type = Some 3, ai_site = Some 0\<rparr>, ex_heap)"
    by (simp add: get_alloc_info_def ask_allocator_def ex_typed_env_def)
  from inner_type_innermost [OF this, of 65696 3 3 ex_depth 2 0] show ?thesis
    using ex_members_ok ex_nested
    by (auto simp: ex_typed_env_def ex_query_env_def ex_depth_def precise_type_def)
qed

end
