(* ===== verification/Small_Index.thy ===== *)
theory Small_Index
  imports Query
begin

text \<open>
  The index of small objects (\<open>src/allocators/generic_small.c\<close>).  A suballocated chunk has a rectangular
  table of entries: a bucket for each stretch of \<open>2 ^ log_pitch\<close> bytes, and in each bucket one entry for each
  object that starts there, in successive layers.  An object that reaches into the next bucket
  also has a continuation entry there.

  A pointer to an entry is its index in \<open>metadata_recs\<close>; a bucket is the index of its entry in the first
  layer.  Layers are walked until a null entry, with the number of entries as fuel: each step
  moves by a whole layer, so the fuel lasts unless a layer has no entries.
\<close>

section \<open>Entries\<close>

text \<open>
  The three bit fields that all members of the union share: \<open>discr\<close> holds the allocation site in its
  low 47 bits or, in a continuation, the object's size in its low 22 bits.
\<close>

record entry =
  discr :: "48 word"
  bucket_offset :: "8 word"
  thisbucket_size :: "8 word"

definition ENTRY_IS_CONTINUATION :: "nat \<Rightarrow> entry \<Rightarrow> bool" where
  "ENTRY_IS_CONTINUATION MINIMUM_USER_ADDRESS e \<longleftrightarrow>
     discr e \<noteq> 0 \<and> unat (discr e) < MINIMUM_USER_ADDRESS"

definition ENTRY_IS_NULL :: "entry \<Rightarrow> bool" where
  "ENTRY_IS_NULL e \<longleftrightarrow> discr e = 0"

definition ENTRY_GET_STORED_OFFSET :: "entry \<Rightarrow> nat" where
  "ENTRY_GET_STORED_OFFSET e = unat (bucket_offset e)"

definition ENTRY_GET_THISBUCKET_SIZE :: "entry \<Rightarrow> nat" where
  "ENTRY_GET_THISBUCKET_SIZE e = unat (thisbucket_size e)"

definition regular_initial :: "addr \<Rightarrow> nat \<Rightarrow> nat \<Rightarrow> entry" where
  "regular_initial alloc_site offset sz =
     \<lparr>discr = of_nat (alloc_site mod 2 ^ 47), bucket_offset = of_nat offset, thisbucket_size = of_nat sz\<rparr>"

definition continuation :: "nat \<Rightarrow> nat \<Rightarrow> entry" where
  "continuation sz thisbucket =
     \<lparr>discr = of_nat (sz mod 2 ^ 22), bucket_offset = 0, thisbucket_size = of_nat thisbucket\<rparr>"

definition entry_alloc_site :: "entry \<Rightarrow> addr" where
  "entry_alloc_site e = unat (discr e) mod 2 ^ 47"

definition continuation_size :: "entry \<Rightarrow> nat" where
  "continuation_size e = unat (discr e) mod 2 ^ 22"

section \<open>The table\<close>

record chunk_rec =
  metadata_recs :: "entry list"
  starts_bitmap :: addr
  power_of_two_size :: nat
  log_pitch :: nat
  one_layer_nbytes :: nat
  biggest_object :: nat

definition memrect_nbucket_of :: "addr \<Rightarrow> addr \<Rightarrow> nat \<Rightarrow> nat" where
  "memrect_nbucket_of a table_coverage_start_addr log_bucket_pitch =
     unsigned_sub a table_coverage_start_addr div 2 ^ log_bucket_pitch"

definition memrect_bucket_offset_of_addr :: "addr \<Rightarrow> addr \<Rightarrow> nat \<Rightarrow> nat" where
  "memrect_bucket_offset_of_addr a table_coverage_start_addr log_bucket_pitch =
     unsigned_sub a table_coverage_start_addr mod 2 ^ log_bucket_pitch"

definition memrect_entries_per_layer :: "nat \<Rightarrow> nat \<Rightarrow> nat" where
  "memrect_entries_per_layer sz log_bucket_pitch = sz div 2 ^ log_bucket_pitch mod 2 ^ 32"

definition memrect_bucket_range_base :: "nat \<Rightarrow> addr \<Rightarrow> nat \<Rightarrow> addr" where
  "memrect_bucket_range_base index_of_bucket table_coverage_start_addr log_bucket_pitch =
     table_coverage_start_addr + index_of_bucket * 2 ^ log_bucket_pitch"

definition ENTRIES_PER_LAYER :: "chunk_rec \<Rightarrow> nat" where
  "ENTRIES_PER_LAYER r = memrect_entries_per_layer (power_of_two_size r) (log_pitch r)"

definition BUCKET_RANGE_BASE :: "nat \<Rightarrow> chunk_rec \<Rightarrow> addr \<Rightarrow> addr" where
  "BUCKET_RANGE_BASE p_bucket r coverage_start = memrect_bucket_range_base p_bucket coverage_start (log_pitch r)"

definition BUCKET_RANGE_END :: "nat \<Rightarrow> chunk_rec \<Rightarrow> addr \<Rightarrow> addr" where
  "BUCKET_RANGE_END p_bucket r coverage_start = BUCKET_RANGE_BASE p_bucket r coverage_start + 2 ^ log_pitch r"

definition BUCKET_PTR_FROM_ENTRY_PTR :: "nat \<Rightarrow> chunk_rec \<Rightarrow> nat res" where
  "BUCKET_PTR_FROM_ENTRY_PTR p_ent r =
     (if ENTRIES_PER_LAYER r = 0 then Inl Div_By_Zero else Inr (p_ent mod ENTRIES_PER_LAYER r))"

definition rec_at :: "chunk_rec \<Rightarrow> nat \<Rightarrow> entry res" where
  "rec_at r i = (if i < length (metadata_recs r) then Inr (metadata_recs r ! i) else Inl Out_Of_Bounds)"

definition set_rec :: "nat \<Rightarrow> entry \<Rightarrow> chunk_rec \<Rightarrow> chunk_rec res" where
  "set_rec i e r =
     (if i < length (metadata_recs r) then Inr (r\<lparr>metadata_recs := (metadata_recs r)[i := e]\<rparr>)
      else Inl Out_Of_Bounds)"

abbreviation walk_fuel :: "chunk_rec \<Rightarrow> nat" where
  "walk_fuel r \<equiv> length (metadata_recs r)"

section \<open>Indexing an object\<close>

fun find_free_layer :: "nat \<Rightarrow> chunk_rec \<Rightarrow> nat \<Rightarrow> nat res" where
  "find_free_layer fuel r p_ent =
     rbind (rec_at r p_ent) (\<lambda>e.
       if ENTRY_IS_NULL e then Inr p_ent
       else if fuel = 0 then Inl Out_Of_Fuel
       else find_free_layer (fuel - 1) r (p_ent + ENTRIES_PER_LAYER r))"

declare find_free_layer.simps [simp del]

text \<open>The continuation entry of an object that reaches past the end of its bucket.\<close>

definition index_continuation :: "nat \<Rightarrow> nat \<Rightarrow> nat \<Rightarrow> chunk_rec \<Rightarrow> chunk_rec res" where
  "index_continuation p_bucket size_bytes thisbucket r =
     rbind (find_free_layer (walk_fuel r) r (p_bucket + 1)) (\<lambda>p_continuation_ent.
       let size_after_first_bucket = (size_bytes + 2 ^ 32 - thisbucket) mod 2 ^ 32;
           size_in_continuation_bucket =
             (if size_after_first_bucket > 2 ^ log_pitch r then 0 else size_after_first_bucket)
       in set_rec p_continuation_ent (continuation size_bytes size_in_continuation_bucket) r)"

definition index_small_alloc_internal :: "addr \<Rightarrow> addr \<Rightarrow> nat \<Rightarrow> addr \<Rightarrow> chunk_rec \<Rightarrow> chunk_rec res" where
  "index_small_alloc_internal current_site ptr size_bytes container_begin r =
     (let end_addr = ptr + size_bytes;
          offset = memrect_bucket_offset_of_addr ptr container_begin (log_pitch r) mod 2 ^ 16;
          p_bucket = memrect_nbucket_of ptr container_begin (log_pitch r)
      in rbind (find_free_layer (walk_fuel r) r p_bucket) (\<lambda>p_ent.
           let thisbucket =
                 (if memrect_nbucket_of end_addr container_begin (log_pitch r) = p_bucket then size_bytes
                  else 2 ^ log_pitch r - offset) mod 2 ^ 16
           in rbind (set_rec p_ent (regular_initial current_site offset thisbucket) r) (\<lambda>r.
              rbind (if BUCKET_RANGE_END p_bucket r container_begin < end_addr
                     then index_continuation p_bucket size_bytes thisbucket r else Inr r) (\<lambda>r.
                Inr (if biggest_object r < size_bytes then r\<lparr>biggest_object := size_bytes\<rparr> else r)))))"

section \<open>Looking up an address\<close>

text \<open>
  The start entry with the biggest offset, first among equals.
\<close>

fun last_start :: "nat \<Rightarrow> nat \<Rightarrow> chunk_rec \<Rightarrow> nat \<Rightarrow> nat option \<Rightarrow> nat option res" where
  "last_start fuel mua r i_layer biggest =
     rbind (rec_at r i_layer) (\<lambda>e.
       if ENTRY_IS_NULL e then Inr biggest
       else if fuel = 0 then Inl Out_Of_Fuel
       else last_start (fuel - 1) mua r (i_layer + ENTRIES_PER_LAYER r)
         (if ENTRY_IS_CONTINUATION mua e then biggest
          else case biggest of
            None \<Rightarrow> Some i_layer
          | Some j \<Rightarrow>
              if ENTRY_GET_STORED_OFFSET e > ENTRY_GET_STORED_OFFSET (metadata_recs r ! j)
              then Some i_layer else Some j))"

declare last_start.simps [simp del]

text \<open>The object's start, its size and the index of its entry.\<close>

definition get_start_from_continuation :: "nat \<Rightarrow> entry \<Rightarrow> nat \<Rightarrow> chunk_rec \<Rightarrow> addr \<Rightarrow> (addr \<times> nat \<times> nat) res" where
  "get_start_from_continuation mua ent p_bucket r container_begin =
     (if p_bucket = 0 then Inl Out_Of_Bounds
      else rbind (last_start (walk_fuel r) mua r (p_bucket - 1) None) (\<lambda>biggest_bucket_offset_pos.
        case biggest_bucket_offset_pos of
          None \<Rightarrow> Inl Null_Deref
        | Some object_ent \<Rightarrow>
            Inr (BUCKET_RANGE_BASE (p_bucket - 1) r container_begin +
                   ENTRY_GET_STORED_OFFSET (metadata_recs r ! object_ent),
                 continuation_size ent, object_ent)))"

text \<open>
  A hit is the index of the object's entry, its start, and its size where that is written; the
  size is not written for a hit on a continuation.
\<close>

datatype bucket_result = Hit nat addr "nat option" | Give_Up | No_Hit

fun lookup_bucket :: "nat \<Rightarrow> nat \<Rightarrow> addr \<Rightarrow> chunk_rec \<Rightarrow> addr \<Rightarrow> bool \<Rightarrow> nat \<Rightarrow> nat \<Rightarrow> bucket_result res" where
  "lookup_bucket fuel mua ptr r container_begin must_see_continuation p_bucket p_ent =
     rbind (rec_at r p_ent) (\<lambda>e.
       if ENTRY_IS_NULL e then Inr No_Hit
       else
         let next_layer = (if fuel = 0 then Inl Out_Of_Fuel
           else lookup_bucket (fuel - 1) mua ptr r container_begin must_see_continuation p_bucket
                  (p_ent + ENTRIES_PER_LAYER r))
         in if ENTRY_IS_CONTINUATION mua e then
              rbind (get_start_from_continuation mua e p_bucket r container_begin)
                (\<lambda>(object_start, object_size, object_ent).
                  if object_start + object_size > ptr then Inr (Hit object_ent object_start None)
                  else if must_see_continuation then Inr Give_Up
                  else next_layer)
            else
              let object_start_addr = BUCKET_RANGE_BASE p_bucket r container_begin + ENTRY_GET_STORED_OFFSET e;
                  object_end_addr = object_start_addr + ENTRY_GET_THISBUCKET_SIZE e
              in if object_start_addr \<le> ptr \<and> object_end_addr > ptr
                 then Inr (Hit p_ent object_start_addr (Some (ENTRY_GET_THISBUCKET_SIZE e)))
                 else next_layer)"

declare lookup_bucket.simps [simp del]

fun lookup_buckets :: "nat \<Rightarrow> addr \<Rightarrow> chunk_rec \<Rightarrow> addr \<Rightarrow> bool \<Rightarrow> nat \<Rightarrow> (nat \<times> addr \<times> nat option) option res" where
  "lookup_buckets mua ptr r container_begin must_see_continuation p_bucket =
     rbind (lookup_bucket (walk_fuel r) mua ptr r container_begin must_see_continuation p_bucket p_bucket)
       (\<lambda>res. case res of
          Hit ent start sz \<Rightarrow> Inr (Some (ent, start, sz))
        | Give_Up \<Rightarrow> Inr None
        | No_Hit \<Rightarrow>
            if p_bucket \<noteq> 0 \<and> BUCKET_RANGE_END (p_bucket - 1) r container_begin > unsigned_sub ptr (biggest_object r)
            then lookup_buckets mua ptr r container_begin True (p_bucket - 1) else Inr None)"

declare lookup_buckets.simps [simp del]

definition lookup_small_alloc :: "nat \<Rightarrow> addr \<Rightarrow> chunk_rec \<Rightarrow> addr \<Rightarrow> (nat \<times> addr \<times> nat option) option res" where
  "lookup_small_alloc mua ptr r container_begin =
     lookup_buckets mua ptr r container_begin False
       (memrect_nbucket_of ptr container_begin (log_pitch r) mod 2 ^ 32)"

section \<open>Removing an object\<close>

fun remove_one_entry :: "nat \<Rightarrow> nat \<Rightarrow> chunk_rec \<Rightarrow> chunk_rec res" where
  "remove_one_entry fuel replaced_ent r =
     rbind (rec_at r (replaced_ent + ENTRIES_PER_LAYER r)) (\<lambda>e.
     rbind (set_rec replaced_ent e r) (\<lambda>r.
       if ENTRY_IS_NULL e then Inr r
       else if fuel = 0 then Inl Out_Of_Fuel
       else remove_one_entry (fuel - 1) (replaced_ent + ENTRIES_PER_LAYER r) r))"

fun is_biggest_offset :: "nat \<Rightarrow> nat \<Rightarrow> chunk_rec \<Rightarrow> nat \<Rightarrow> bool res" where
  "is_biggest_offset fuel our_bucket_offset r i_layer =
     rbind (rec_at r i_layer) (\<lambda>e.
       if ENTRY_IS_NULL e then Inr True
       else if fuel = 0 then Inl Out_Of_Fuel
       else if our_bucket_offset \<ge> ENTRY_GET_STORED_OFFSET e
         then is_biggest_offset (fuel - 1) our_bucket_offset r (i_layer + ENTRIES_PER_LAYER r)
       else Inr False)"

fun remove_continuation :: "nat \<Rightarrow> nat \<Rightarrow> chunk_rec \<Rightarrow> nat \<Rightarrow> chunk_rec res" where
  "remove_continuation fuel mua r i_layer =
     rbind (rec_at r i_layer) (\<lambda>e.
       if ENTRY_IS_NULL e then Inr r
       else if fuel = 0 then Inl Out_Of_Fuel
       else if ENTRY_IS_CONTINUATION mua e then remove_one_entry (walk_fuel r) i_layer r
       else remove_continuation (fuel - 1) mua r (i_layer + ENTRIES_PER_LAYER r))"

declare remove_one_entry.simps [simp del] is_biggest_offset.simps [simp del] remove_continuation.simps [simp del]

definition unindex_small_alloc_internal_with_ent :: "nat \<Rightarrow> nat \<Rightarrow> chunk_rec \<Rightarrow> chunk_rec res" where
  "unindex_small_alloc_internal_with_ent mua p_ent r =
     rbind (BUCKET_PTR_FROM_ENTRY_PTR p_ent r) (\<lambda>p_bucket.
     rbind (rec_at r p_ent) (\<lambda>e.
     rbind (is_biggest_offset (walk_fuel r) (ENTRY_GET_STORED_OFFSET e) r p_bucket) (\<lambda>we_are_biggest_offset.
     rbind (remove_one_entry (walk_fuel r) p_ent r) (\<lambda>r.
       if we_are_biggest_offset then remove_continuation (walk_fuel r) mua r (p_bucket + 1) else Inr r))))"

text \<open>A lookup that fails gives a null entry, which is then read.\<close>

definition unindex_small_alloc_internal :: "nat \<Rightarrow> addr \<Rightarrow> chunk_rec \<Rightarrow> addr \<Rightarrow> chunk_rec res" where
  "unindex_small_alloc_internal mua ptr r container_begin =
     rbind (lookup_small_alloc mua ptr r container_begin) (\<lambda>found.
       case found of
         None \<Rightarrow> Inl Null_Deref
       | Some (p_ent, _) \<Rightarrow> unindex_small_alloc_internal_with_ent mua p_ent r)"

text \<open>
  The loops of \<open>unindex_all_overlapping\<close>.  A step of the inner one moves to the next layer or removes
  an entry, so twice the number of entries is enough fuel; the outer one moves up by the
  width of a bucket.
\<close>

fun unindex_layers :: "nat \<Rightarrow> nat \<Rightarrow> addr \<Rightarrow> addr \<Rightarrow> addr \<Rightarrow> nat \<Rightarrow> nat \<Rightarrow> chunk_rec \<Rightarrow> chunk_rec res" where
  "unindex_layers fuel mua unindex_start unindex_end container_begin p_search_bucket i_layer r =
     rbind (rec_at r i_layer) (\<lambda>e.
       if ENTRY_IS_NULL e then Inr r
       else if fuel = 0 then Inl Out_Of_Fuel
       else if ENTRY_IS_CONTINUATION mua e then
         unindex_layers (fuel - 1) mua unindex_start unindex_end container_begin p_search_bucket
           (i_layer + ENTRIES_PER_LAYER r) r
       else
         let this_object_start = BUCKET_RANGE_BASE p_search_bucket r container_begin + ENTRY_GET_STORED_OFFSET e;
             this_object_end_thisbucket = this_object_start + ENTRY_GET_THISBUCKET_SIZE e
         in if this_object_start < unindex_end \<and> this_object_end_thisbucket > unindex_start then
              rbind (unindex_small_alloc_internal_with_ent mua i_layer r) (\<lambda>r.
                unindex_layers (fuel - 1) mua unindex_start unindex_end container_begin p_search_bucket i_layer r)
            else
              unindex_layers (fuel - 1) mua unindex_start unindex_end container_begin p_search_bucket
                (i_layer + ENTRIES_PER_LAYER r) r)"

fun unindex_buckets :: "nat \<Rightarrow> nat \<Rightarrow> addr \<Rightarrow> addr \<Rightarrow> addr \<Rightarrow> nat \<Rightarrow> chunk_rec \<Rightarrow> chunk_rec res" where
  "unindex_buckets fuel mua unindex_start unindex_end container_begin p_search_bucket r =
     (if BUCKET_RANGE_BASE p_search_bucket r container_begin < unindex_end then
        if fuel = 0 then Inl Out_Of_Fuel
        else rbind (unindex_layers (2 * walk_fuel r) mua unindex_start unindex_end container_begin
                      p_search_bucket p_search_bucket r) (\<lambda>r.
               unindex_buckets (fuel - 1) mua unindex_start unindex_end container_begin (p_search_bucket + 1) r)
      else Inr r)"

declare unindex_layers.simps [simp del] unindex_buckets.simps [simp del]

definition unindex_all_overlapping :: "nat \<Rightarrow> addr \<Rightarrow> addr \<Rightarrow> addr \<Rightarrow> chunk_rec \<Rightarrow> chunk_rec res" where
  "unindex_all_overlapping mua unindex_start unindex_end container_begin r =
     rbind (lookup_small_alloc mua unindex_start r container_begin) (\<lambda>found.
     rbind (case found of
              None \<Rightarrow> Inr r
            | Some (p_old_ent, _) \<Rightarrow> unindex_small_alloc_internal_with_ent mua p_old_ent r) (\<lambda>r.
       unindex_buckets unindex_end mua unindex_start unindex_end container_begin
         (memrect_nbucket_of unindex_start container_begin (log_pitch r)) r))"

section \<open>The allocator\<close>

text \<open>
  The operations of other allocators, the private malloc, \<open>mmap\<close> (\<open>None\<close> where it fails) and
  librunt's integer functions and constants are parameters.
\<close>

record small_state = heap_state +
  chunk_recs :: "addr \<Rightarrow> chunk_rec"

record small_env =
  s_private_malloc :: "small_state \<Rightarrow> addr"
  s_mmap :: "nat \<Rightarrow> addr option"
  s_next_power_of_two_ge :: "nat \<Rightarrow> nat"
  s_integer_log2 :: "nat \<Rightarrow> nat"
  s_minimum_user_address :: nat
  s_addr_bitsize :: nat
  s_get_info :: "allocator \<Rightarrow> addr \<Rightarrow> small_state \<Rightarrow>
    ((liballocs_err option \<times> addr option \<times> nat option) \<times> small_state) res"
  s_ensure_big :: "allocator \<Rightarrow> (addr \<Rightarrow> nat \<Rightarrow> small_state \<Rightarrow> (nat \<times> small_state) res) option"
  s_sites :: sites_env
  s_realloc_addrs :: "nat \<Rightarrow> addr list option"

definition MAX_PITCH :: nat where
  "MAX_PITCH = 256"

definition zero_entry :: entry where
  "zero_entry = \<lparr>discr = 0, bucket_offset = 0, thisbucket_size = 0\<rparr>"

definition make_suballocated_chunk :: "small_env \<Rightarrow> nat \<Rightarrow> nat \<Rightarrow> chunk_rec" where
  "make_suballocated_chunk env chunk_size guessed_average_size =
     (let p2 = s_next_power_of_two_ge env chunk_size;
          bitmap = (case s_mmap env (8 * (chunk_size div 64)) of None \<Rightarrow> 2 ^ 64 - 1 | Some a \<Rightarrow> a);
          guessed = min guessed_average_size MAX_PITCH;
          lp = s_integer_log2 env (s_next_power_of_two_ge env guessed);
          layer = 8 * (p2 div 2 ^ lp);
          (layer, lp) = (if layer < 4096 then (4096, s_integer_log2 env (8 * p2 div 2 ^ 12 mod 2 ^ 32))
                         else (layer, lp))
      in \<lparr>metadata_recs = (case s_mmap env (8 * p2) of None \<Rightarrow> [] | Some _ \<Rightarrow> replicate p2 zero_entry),
          starts_bitmap = bitmap, power_of_two_size = p2, log_pitch = lp, one_layer_nbytes = layer,
          biggest_object = 0\<rparr>)"

definition with_chunk :: "addr \<Rightarrow> (chunk_rec \<Rightarrow> chunk_rec res) \<Rightarrow> small_state \<Rightarrow> small_state res" where
  "with_chunk p f s =
     (if p = 0 then Inl Null_Deref
      else rbind (f (chunk_recs s p)) (\<lambda>r. Inr (s\<lparr>chunk_recs := (chunk_recs s)(p := r)\<rparr>)))"

text \<open>The container to index in: its own chunk's objects are removed, or it is promoted to a big allocation.\<close>

definition prepare_container :: "small_env \<Rightarrow> addr \<Rightarrow> nat \<Rightarrow> allocator \<Rightarrow> nat \<Rightarrow> small_state \<Rightarrow> (nat \<times> small_state) res" where
  "prepare_container env ptr size_bytes a container s =
     (let c = big_allocations s container in
      if a = A_generic_small then
        rbind (with_chunk (suballocator_private c)
                 (unindex_all_overlapping (s_minimum_user_address env) ptr (ptr + size_bytes) (ba_begin c)) s)
          (\<lambda>s. Inr (container, s))
      else if suballocator c \<noteq> Some A_generic_small then
        rbind (s_get_info env a ptr s) (\<lambda>((err, containing_alloc_base, sz), s).
          if err \<noteq> None \<and> err \<noteq> Some Unrecognised_Alloc_Site then Inl Abort
          else rbind (read_local containing_alloc_base) (\<lambda>base.
            case s_ensure_big env a of
              None \<Rightarrow> Inl Null_Deref
            | Some f \<Rightarrow> f base (case sz of None \<Rightarrow> 2 ^ 64 - 1 | Some sz \<Rightarrow> sz) s))
      else Inr (container, s))"

definition index_small_alloc :: "small_env \<Rightarrow> addr \<Rightarrow> nat \<Rightarrow> small_state \<Rightarrow> (int \<times> small_state) res" where
  "index_small_alloc env ptr size_bytes s =
     rbind (leaf_allocator_for ptr s) (\<lambda>(a, b).
       case a of
         None \<Rightarrow> Inl Abort
       | Some a \<Rightarrow>
           let container = (if allocated_by (big_allocations s b) = Some A_generic_small
                            then parent (big_allocations s b) else b)
           in if container = 0 then Inl Abort
              else rbind (prepare_container env ptr size_bytes a container s) (\<lambda>(container, s).
                if container = 0 then Inl Null_Deref
                else
                  let c = big_allocations s container in
                  rbind (case suballocator c of
                           None \<Rightarrow>
                             let p = s_private_malloc env s in
                             if p = 0 then Inl Null_Deref
                             else Inr (upd container (\<lambda>c. c\<lparr>suballocator := Some A_generic_small,
                                                            suballocator_private := p\<rparr>)
                               (s\<lparr>chunk_recs := (chunk_recs s)(p :=
                                    make_suballocated_chunk env (ba_end c - ba_begin c) size_bytes)\<rparr>))
                         | Some sub \<Rightarrow> if sub \<noteq> A_generic_small then Inl Abort else Inr s) (\<lambda>s.
                  rbind (with_chunk (suballocator_private (big_allocations s container))
                           (index_small_alloc_internal (current_allocsite s) ptr size_bytes (ba_begin c)) s) (\<lambda>s.
                    Inr (2, s)))))"

fun small_container :: "nat \<Rightarrow> small_state \<Rightarrow> nat \<Rightarrow> nat res" where
  "small_container fuel s b =
     (if b = 0 then Inl Abort
      else if suballocator (big_allocations s b) = Some A_generic_small then Inr b
      else if fuel = 0 then Inl Out_Of_Fuel
      else small_container (fuel - 1) s (parent (big_allocations s b)))"

declare small_container.simps [simp del]

definition unindex_small_alloc :: "small_env \<Rightarrow> small_state hooks \<Rightarrow> addr \<Rightarrow> small_state \<Rightarrow> small_state res" where
  "unindex_small_alloc env hk ptr s =
     rbind (find_deepest_bigalloc hk ptr s) (\<lambda>(b, s).
     rbind (small_container NBIGALLOCS s b) (\<lambda>b.
       if suballocator_private (big_allocations s b) = 0 then Inl Abort
       else with_chunk (suballocator_private (big_allocations s b))
              (\<lambda>r. unindex_small_alloc_internal (s_minimum_user_address env) ptr r
                     (ba_begin (big_allocations s b))) s))"

text \<open>
  The query.  The branch for entries with a type holds only an assertion.  The base and the size are those
  that the lookup writes.
\<close>

definition small_get_info :: "small_env \<Rightarrow> small_state hooks \<Rightarrow> addr \<Rightarrow> nat \<Rightarrow> bool \<Rightarrow> small_state \<Rightarrow>
    (get_info_result \<times> small_state) res" where
  "small_get_info env hk obj b want_type s =
     (if b = 0 then Inl Null_Deref
      else rbind (if allocated_by (big_allocations s b) = Some A_generic_small
                  then Inr (parent (big_allocations s b), s) else find_deepest_bigalloc hk obj s) (\<lambda>(container, s).
        let c = big_allocations s container in
        if container = 0 \<or> suballocator_private c = 0 then Inl Null_Deref
        else
          let r = chunk_recs s (suballocator_private c) in
          rbind (lookup_small_alloc (s_minimum_user_address env) obj r (ba_begin c)) (\<lambda>found.
            case found of
              None \<Rightarrow> Inr (((Some Unindexed_Heap_Object, None, None), None, None),
                          s\<lparr>aborted_unindexed_heap := aborted_unindexed_heap s + 1\<rparr>)
            | Some (p_ent, base, sz) \<Rightarrow>
                let e = metadata_recs r ! p_ent in
                rbind (if unat (discr e) < 2 ^ (s_addr_bitsize env - 1) then
                         let alloc_site = entry_alloc_site e in
                         if want_type then
                           rbind (find_allocsite_entry_at (s_sites env) hk alloc_site s) (\<lambda>(entry, s).
                             let t = (case entry of None \<Rightarrow> 0 | Some e \<Rightarrow> entry_uniqtype (site_entries s e)) in
                             rbind (if t = 0 \<and> alloc_site \<noteq> 0 \<and>
                                       addrlist_contains (unrecognised_heap_alloc_sites s) alloc_site = 0
                                    then rbind (addrlist_add (s_realloc_addrs env) (unrecognised_heap_alloc_sites s)
                                                  alloc_site)
                                           (\<lambda>l. Inr (s\<lparr>unrecognised_heap_alloc_sites := l\<rparr>))
                                    else Inr s) (\<lambda>s. Inr (Some alloc_site, Some t, s)))
                         else Inr (Some alloc_site, None, s)
                       else Inr (None, None, s)) (\<lambda>(site, t, s).
                  if want_type \<and> (t = None \<or> t = Some 0) then
                    Inr (((Some Unrecognised_Alloc_Site, site, t), Some base, sz),
                         s\<lparr>aborted_unrecognised_allocsite := aborted_unrecognised_allocsite s + 1\<rparr>)
                  else Inr (((None, site, t), Some base, sz), s)))))"

end
