(* ===== verification/Small_Index_Correct.thy ===== *)
theory Small_Index_Correct
  imports Small_Index
begin

text \<open>
  The table of small objects represents a set of disjoint objects: a lookup inside one finds it, and
  indexing adds one.
\<close>

section \<open>Representation\<close>

abbreviation pitch :: "chunk_rec \<Rightarrow> nat" where
  "pitch r \<equiv> 2 ^ log_pitch r"

abbreviation nb :: "chunk_rec \<Rightarrow> nat" where
  "nb r \<equiv> ENTRIES_PER_LAYER r"

definition ent :: "chunk_rec \<Rightarrow> nat \<Rightarrow> nat \<Rightarrow> entry" where
  "ent r b k = metadata_recs r ! (b + k * nb r)"

definition start_entry :: "nat \<Rightarrow> entry \<Rightarrow> bool" where
  "start_entry mua e \<longleftrightarrow> \<not> ENTRY_IS_NULL e \<and> \<not> ENTRY_IS_CONTINUATION mua e"

abbreviation off :: "entry \<Rightarrow> nat" where
  "off e \<equiv> ENTRY_GET_STORED_OFFSET e"

definition rect_geom :: "chunk_rec \<Rightarrow> addr \<Rightarrow> bool" where
  "rect_geom r base \<longleftrightarrow> 0 < nb r \<and> length (metadata_recs r) = nb r * pitch r \<and> log_pitch r < 8 \<and>
     base + nb r * pitch r < 2 ^ 64 \<and> biggest_object r \<le> base"

text \<open>\<open>m b\<close> is the number of entries in bucket \<open>b\<close>; the last layer is free, so that walks end.\<close>

definition layers_ok :: "chunk_rec \<Rightarrow> (nat \<Rightarrow> nat) \<Rightarrow> bool" where
  "layers_ok r m \<longleftrightarrow> (\<forall>b<nb r. m b < pitch r \<and> (\<forall>k<pitch r. ENTRY_IS_NULL (ent r b k) \<longleftrightarrow> m b \<le> k))"

definition bk :: "chunk_rec \<Rightarrow> addr \<Rightarrow> addr \<Rightarrow> nat" where
  "bk r base a = (a - base) div pitch r"

definition objs_ok :: "nat \<Rightarrow> chunk_rec \<Rightarrow> addr \<Rightarrow> (addr \<rightharpoonup> nat) \<Rightarrow> bool" where
  "objs_ok mua r base objs \<longleftrightarrow>
     (\<forall>s sz. objs s = Some sz \<longrightarrow> base \<le> s \<and> 0 < sz \<and> s + sz \<le> base + nb r * pitch r \<and>
        sz \<le> biggest_object r \<and> sz < 2 ^ 22 \<and> sz < mua) \<and>
     (\<forall>s sz s' sz'. objs s = Some sz \<and> objs s' = Some sz' \<and> s < s' \<longrightarrow> s + sz \<le> s')"

definition starts_ok :: "nat \<Rightarrow> chunk_rec \<Rightarrow> addr \<Rightarrow> (addr \<rightharpoonup> nat) \<Rightarrow> (nat \<Rightarrow> nat) \<Rightarrow> bool" where
  "starts_ok mua r base objs m \<longleftrightarrow> (\<forall>b<nb r. \<forall>k<m b. start_entry mua (ent r b k) \<longrightarrow>
     off (ent r b k) < pitch r \<and> (\<exists>sz. objs (base + b * pitch r + off (ent r b k)) = Some sz \<and>
       ENTRY_GET_THISBUCKET_SIZE (ent r b k) = min sz (pitch r - off (ent r b k))))"

definition conts_ok :: "nat \<Rightarrow> chunk_rec \<Rightarrow> addr \<Rightarrow> (addr \<rightharpoonup> nat) \<Rightarrow> (nat \<Rightarrow> nat) \<Rightarrow> bool" where
  "conts_ok mua r base objs m \<longleftrightarrow> (\<forall>b<nb r. \<forall>k<m b. ENTRY_IS_CONTINUATION mua (ent r b k) \<longrightarrow>
     (\<exists>s sz. objs s = Some sz \<and> bk r base s + 1 = b \<and> base + b * pitch r < s + sz \<and>
        continuation_size (ent r b k) = sz))"

definition complete :: "nat \<Rightarrow> chunk_rec \<Rightarrow> addr \<Rightarrow> (addr \<rightharpoonup> nat) \<Rightarrow> (nat \<Rightarrow> nat) \<Rightarrow> bool" where
  "complete mua r base objs m \<longleftrightarrow> (\<forall>s sz. objs s = Some sz \<longrightarrow>
     (\<exists>k<m (bk r base s). start_entry mua (ent r (bk r base s) k) \<and>
        off (ent r (bk r base s) k) = (s - base) mod pitch r) \<and>
     (base + (bk r base s + 1) * pitch r < s + sz \<longrightarrow>
        (\<exists>k<m (bk r base s + 1). ENTRY_IS_CONTINUATION mua (ent r (bk r base s + 1) k))))"

definition rect_ok :: "nat \<Rightarrow> chunk_rec \<Rightarrow> addr \<Rightarrow> (addr \<rightharpoonup> nat) \<Rightarrow> (nat \<Rightarrow> nat) \<Rightarrow> bool" where
  "rect_ok mua r base objs m \<longleftrightarrow> rect_geom r base \<and> layers_ok r m \<and> objs_ok mua r base objs \<and>
     starts_ok mua r base objs m \<and> conts_ok mua r base objs m \<and> complete mua r base objs m"

lemma rect_okD:
  assumes "rect_ok mua r base objs m"
  shows "rect_geom r base" "layers_ok r m" "objs_ok mua r base objs" "starts_ok mua r base objs m"
    "conts_ok mua r base objs m" "complete mua r base objs m"
  using assms by (simp_all add: rect_ok_def)

lemma geomD:
  assumes "rect_geom r base"
  shows "0 < nb r" "length (metadata_recs r) = nb r * pitch r" "log_pitch r < 8"
    "base + nb r * pitch r < 2 ^ 64" "biggest_object r \<le> base"
  using assms by (simp_all add: rect_geom_def)

lemma nb_32: "nb r < 2 ^ 32"
  by (simp add: ENTRIES_PER_LAYER_def memrect_entries_per_layer_def)

lemma pitch_le: "rect_geom r base \<Longrightarrow> pitch r \<le> 128"
  using power_increasing [of "log_pitch r" 7 "2 :: nat"] by (simp add: rect_geom_def)

lemma idx_less:
  assumes "b < n" "k < (p :: nat)"
  shows "b + k * n < n * p"
proof -
  have "b + k * n < (k + 1) * n" using assms(1) by simp
  also have "\<dots> \<le> p * n" using assms(2) by (intro mult_le_mono1) simp
  finally show ?thesis by (simp add: mult.commute)
qed

lemma idx_inj:
  assumes "b < n" "b' < (n :: nat)"
  shows "b + k * n = b' + k' * n \<longleftrightarrow> b = b' \<and> k = k'"
proof
  assume e: "b + k * n = b' + k' * n"
  have "(b + k * n) mod n = (b' + k' * n) mod n" using e by simp
  then have "b = b'" using assms by simp
  moreover have "(b + k * n) div n = (b' + k' * n) div n" using e by simp
  then have "k = k'" using assms by simp
  ultimately show "b = b' \<and> k = k'" ..
qed simp

lemma layersD:
  assumes "layers_ok r m" "b < nb r"
  shows "m b < pitch r" "k < pitch r \<Longrightarrow> ENTRY_IS_NULL (ent r b k) \<longleftrightarrow> m b \<le> k"
  using assms by (auto simp: layers_ok_def)

lemma rec_at_ent:
  assumes "rect_geom r base" "b < nb r" "k < pitch r"
  shows "rec_at r (b + k * nb r) = Inr (ent r b k)"
  using idx_less [OF assms(2,3)] geomD(2) [OF assms(1)] by (simp add: rec_at_def ent_def)

lemma walk_enough:
  assumes "rect_geom r base" "layers_ok r m" "b < nb r"
  shows "m b \<le> walk_fuel r"
proof -
  have "m b \<le> 1 * pitch r" using layersD(1) [OF assms(2,3)] by simp
  also have "\<dots> \<le> nb r * pitch r" using geomD(1) [OF assms(1)] by (intro mult_le_mono1) simp
  finally show ?thesis using geomD(2) [OF assms(1)] by simp
qed

lemma nbucket_eq:
  assumes "base \<le> a" "a < 2 ^ 64"
  shows "memrect_nbucket_of a base (log_pitch r) = bk r base a"
    "memrect_bucket_offset_of_addr a base (log_pitch r) = (a - base) mod pitch r"
proof -
  have "unsigned_sub a base = a - base"
    using assms by (simp add: unsigned_sub_def mod_if)
  then show "memrect_nbucket_of a base (log_pitch r) = bk r base a"
    "memrect_bucket_offset_of_addr a base (log_pitch r) = (a - base) mod pitch r"
    by (simp_all add: memrect_nbucket_of_def memrect_bucket_offset_of_addr_def bk_def)
qed

lemma bk_bounds:
  assumes "base \<le> a"
  shows "base + bk r base a * pitch r \<le> a" "a < base + (bk r base a + 1) * pitch r"
    "a = base + bk r base a * pitch r + (a - base) mod pitch r"
proof -
  have e: "a - base = bk r base a * pitch r + (a - base) mod pitch r" unfolding bk_def by (rule div_mult_mod_eq [symmetric])
  then show "a = base + bk r base a * pitch r + (a - base) mod pitch r" using assms by linarith
  then show "base + bk r base a * pitch r \<le> a" by linarith
  have "(a - base) mod pitch r < pitch r" by simp
  then show "a < base + (bk r base a + 1) * pitch r" using e assms by (simp only: add_mult_distrib mult_1)
qed

lemma bk_less:
  assumes "a < base + n * pitch r" "base \<le> a"
  shows "bk r base a < n"
  using assms by (simp add: bk_def div_less_iff_less_mult less_diff_conv2 add.commute)

lemma bk_mono: "a \<le> a' \<Longrightarrow> bk r base a \<le> bk r base a'"
  by (simp add: bk_def div_le_mono)

section \<open>Walks over a bucket\<close>

lemma find_free_layer_ok:
  assumes "rect_geom r base" "layers_ok r m" "b < nb r" "k \<le> m b" "m b - k \<le> fuel"
  shows "find_free_layer fuel r (b + k * nb r) = Inr (b + m b * nb r)"
  using assms(4,5)
proof (induction fuel arbitrary: k)
  case 0
  then show ?case
    using rec_at_ent [OF assms(1,3)] layersD [OF assms(2,3)] by (subst find_free_layer.simps) simp
next
  case (Suc n)
  have e: "rec_at r (b + k * nb r) = Inr (ent r b k)" "ENTRY_IS_NULL (ent r b k) \<longleftrightarrow> m b \<le> k"
    using rec_at_ent [OF assms(1,3)] layersD [OF assms(2,3)] Suc.prems by simp_all
  show ?case
  proof (cases "k = m b")
    case True
    then show ?thesis using e by (subst find_free_layer.simps) simp
  next
    case False
    then have "find_free_layer n r (b + Suc k * nb r) = Inr (b + m b * nb r)"
      using Suc.prems by (intro Suc.IH) simp_all
    then show ?thesis using e False Suc.prems by (subst find_free_layer.simps) (simp add: add.commute add.left_commute)
  qed
qed

definition best_start :: "nat \<Rightarrow> chunk_rec \<Rightarrow> nat \<Rightarrow> nat \<Rightarrow> nat option \<Rightarrow> bool" where
  "best_start mua r b k best \<longleftrightarrow> (case best of
     None \<Rightarrow> \<forall>k'<k. \<not> start_entry mua (ent r b k')
   | Some j \<Rightarrow> \<exists>k0<k. j = b + k0 * nb r \<and> start_entry mua (ent r b k0) \<and>
       (\<forall>k'<k. start_entry mua (ent r b k') \<longrightarrow> off (ent r b k') \<le> off (ent r b k0)))"

lemma best_start_step:
  assumes "best_start mua r b k best" "\<not> ENTRY_IS_NULL (ent r b k)"
  shows "best_start mua r b (Suc k)
    (if ENTRY_IS_CONTINUATION mua (ent r b k) then best
     else case best of
       None \<Rightarrow> Some (b + k * nb r)
     | Some j \<Rightarrow> if off (ent r b k) > off (metadata_recs r ! j) then Some (b + k * nb r) else Some j)"
proof (cases best)
  case None
  then show ?thesis using assms by (auto simp: best_start_def start_entry_def less_Suc_eq)
next
  case (Some j)
  then obtain k0 where k0: "k0 < k" "j = b + k0 * nb r" "start_entry mua (ent r b k0)"
    "\<And>k'. k' < k \<Longrightarrow> start_entry mua (ent r b k') \<Longrightarrow> off (ent r b k') \<le> off (ent r b k0)"
    using assms(1) by (auto simp: best_start_def)
  have j: "metadata_recs r ! j = ent r b k0" by (simp add: k0(2) ent_def)
  show ?thesis
  proof (cases "\<not> ENTRY_IS_CONTINUATION mua (ent r b k) \<and> off (ent r b k) > off (ent r b k0)")
    case True
    then have "\<exists>k1<Suc k. b + k * nb r = b + k1 * nb r \<and> start_entry mua (ent r b k1) \<and>
        (\<forall>k'<Suc k. start_entry mua (ent r b k') \<longrightarrow> off (ent r b k') \<le> off (ent r b k1))"
      using assms(2) k0(4) by (intro exI [of _ k]) (fastforce simp: start_entry_def less_Suc_eq)
    then show ?thesis using True Some j by (simp add: best_start_def)
  next
    case False
    then have "\<exists>k1<Suc k. j = b + k1 * nb r \<and> start_entry mua (ent r b k1) \<and>
        (\<forall>k'<Suc k. start_entry mua (ent r b k') \<longrightarrow> off (ent r b k') \<le> off (ent r b k1))"
      using k0 by (intro exI [of _ k0]) (auto simp: start_entry_def less_Suc_eq)
    then show ?thesis using False Some j by (auto simp: best_start_def)
  qed
qed

lemma last_start_ok:
  assumes "rect_geom r base" "layers_ok r m" "b < nb r" "k \<le> m b" "m b - k \<le> fuel" "best_start mua r b k best"
  shows "\<exists>best'. last_start fuel mua r (b + k * nb r) best = Inr best' \<and> best_start mua r b (m b) best'"
  using assms(4-6)
proof (induction fuel arbitrary: k best)
  case 0
  then show ?case
    using rec_at_ent [OF assms(1,3)] layersD [OF assms(2,3)] by (subst last_start.simps) auto
next
  case (Suc n)
  have e: "rec_at r (b + k * nb r) = Inr (ent r b k)" "ENTRY_IS_NULL (ent r b k) \<longleftrightarrow> m b \<le> k"
    using rec_at_ent [OF assms(1,3)] layersD [OF assms(2,3)] Suc.prems(1) by simp_all
  show ?case
  proof (cases "k = m b")
    case True
    then show ?thesis using e Suc.prems(3) by (subst last_start.simps) simp
  next
    case False
    then have nn: "\<not> ENTRY_IS_NULL (ent r b k)" using e(2) Suc.prems(1) by simp
    have k: "Suc k \<le> m b" "m b - Suc k \<le> n" using Suc.prems(1,2) False by linarith+
    obtain best' where "last_start n mua r (b + Suc k * nb r)
        (if ENTRY_IS_CONTINUATION mua (ent r b k) then best
         else case best of
           None \<Rightarrow> Some (b + k * nb r)
         | Some j \<Rightarrow> if off (ent r b k) > off (metadata_recs r ! j) then Some (b + k * nb r) else Some j) = Inr best'"
      "best_start mua r b (m b) best'"
      using Suc.IH [OF k best_start_step [OF Suc.prems(3) nn]] by blast
    then show ?thesis
      using e(1) nn by (subst last_start.simps) (simp add: add.commute add.left_commute)
  qed
qed

section \<open>Lookups\<close>

definition index_of_obj :: "nat \<Rightarrow> chunk_rec \<Rightarrow> addr \<Rightarrow> nat \<Rightarrow> addr \<Rightarrow> bool" where
  "index_of_obj mua r base j s \<longleftrightarrow> (\<exists>k<pitch r. j = bk r base s + k * nb r \<and>
     start_entry mua (ent r (bk r base s) k) \<and> off (ent r (bk r base s) k) = (s - base) mod pitch r)"

lemma objD:
  assumes "objs_ok mua r base objs" "objs s = Some sz"
  shows "base \<le> s" "0 < sz" "s + sz \<le> base + nb r * pitch r" "sz \<le> biggest_object r" "sz < 2 ^ 22" "sz < mua"
    "bk r base s < nb r"
proof -
  show o: "base \<le> s" "0 < sz" "s + sz \<le> base + nb r * pitch r" "sz \<le> biggest_object r" "sz < 2 ^ 22" "sz < mua"
    using assms by (auto simp: objs_ok_def)
  then show "bk r base s < nb r" by (intro bk_less) linarith+
qed

lemma obj_disjoint:
  assumes "objs_ok mua r base objs" "objs s = Some sz" "objs s' = Some sz'" "s < s'"
  shows "s + sz \<le> s'"
  using assms unfolding objs_ok_def by blast

lemma obj_unique:
  assumes "objs_ok mua r base objs" "objs s = Some sz" "objs s' = Some sz'"
    "s \<le> a" "a < s + sz" "s' \<le> a" "a < s' + sz'"
  shows "s = s'"
  using obj_disjoint [OF assms(1-3)] obj_disjoint [OF assms(1,3,2)] assms(4-7) by (cases s s' rule: linorder_cases) auto

lemma start_addr:
  assumes "x < pitch r"
  shows "bk r base (base + b * pitch r + x) = b" "(base + b * pitch r + x - base) mod pitch r = x"
  using assms by (simp_all add: bk_def add.assoc)

lemma start_of_entry:
  assumes "rect_ok mua r base objs m" "b < nb r" "k < m b" "start_entry mua (ent r b k)"
  shows "\<exists>sz. objs (base + b * pitch r + off (ent r b k)) = Some sz \<and>
    ENTRY_GET_THISBUCKET_SIZE (ent r b k) = min sz (pitch r - off (ent r b k))"
    "index_of_obj mua r base (b + k * nb r) (base + b * pitch r + off (ent r b k))"
    "off (ent r b k) < pitch r"
proof -
  note o = rect_okD(4) [OF assms(1), unfolded starts_ok_def, rule_format, OF assms(2-4)]
  show "\<exists>sz. objs (base + b * pitch r + off (ent r b k)) = Some sz \<and>
    ENTRY_GET_THISBUCKET_SIZE (ent r b k) = min sz (pitch r - off (ent r b k))" "off (ent r b k) < pitch r"
    using o by simp_all
  show "index_of_obj mua r base (b + k * nb r) (base + b * pitch r + off (ent r b k))"
    using start_addr [of "off (ent r b k)" r base b] o assms(3,4) layersD(1) [OF rect_okD(2) [OF assms(1)] assms(2)]
    unfolding index_of_obj_def by (intro exI [of _ k]) simp
qed

text \<open>A continuation leads to the object that reaches into the bucket.\<close>

lemma continuation_start:
  assumes "rect_ok mua r base objs m" "b < nb r" "k < m b" "ENTRY_IS_CONTINUATION mua (ent r b k)"
  shows "\<exists>s sz j. objs s = Some sz \<and> bk r base s + 1 = b \<and> base + b * pitch r < s + sz \<and>
    get_start_from_continuation mua (ent r b k) b r base = Inr (s, sz, j) \<and> index_of_obj mua r base j s"
proof -
  note w = rect_okD [OF assms(1)]
  obtain s sz where s: "objs s = Some sz" "bk r base s + 1 = b" "base + b * pitch r < s + sz"
    "continuation_size (ent r b k) = sz"
    using w(5) assms(2-4) unfolding conts_ok_def by blast
  have b1: "bk r base s < nb r" "bk r base s = b - 1" "b \<noteq> 0" using s(2) assms(2) by auto
  obtain best where best: "last_start (walk_fuel r) mua r (b - 1) None = Inr best"
    "best_start mua r (b - 1) (m (b - 1)) best"
    using last_start_ok [OF w(1,2), of "b - 1" 0 "walk_fuel r" mua None] walk_enough [OF w(1,2), of "b - 1"] b1
    by (auto simp: best_start_def)
  obtain ks where ks: "ks < m (b - 1)" "start_entry mua (ent r (b - 1) ks)"
    "off (ent r (b - 1) ks) = (s - base) mod pitch r"
    using w(6) s(1) unfolding complete_def b1(2) [symmetric] by blast
  obtain j0 where "best = Some j0" using best(2) ks(1,2) by (cases best) (auto simp: best_start_def)
  then obtain j k0 where j: "best = Some j" "k0 < m (b - 1)" "j = (b - 1) + k0 * nb r" "start_entry mua (ent r (b - 1) k0)"
    "off (ent r (b - 1) ks) \<le> off (ent r (b - 1) k0)"
    using best(2) ks(1,2) unfolding best_start_def by (simp only: option.case) blast
  define s' where "s' = base + (b - 1) * pitch r + off (ent r (b - 1) k0)"
  obtain sz' where s': "objs s' = Some sz'" "index_of_obj mua r base j s'" "off (ent r (b - 1) k0) < pitch r"
    using start_of_entry [OF assms(1) _ j(2,4)] b1 j(3) unfolding s'_def by auto
  have "s \<le> s'" using bk_bounds(3) [OF objD(1) [OF w(3) s(1)], of r] b1(2) ks(3) j(5) unfolding s'_def by simp
  have "base + b * pitch r = base + (b - 1) * pitch r + pitch r" using b1(3) by (cases b) simp_all
  then have "s' < s + sz" using s(3) s'(3) unfolding s'_def by linarith
  then have "s' = s" using obj_disjoint [OF w(3) s(1) s'(1)] \<open>s \<le> s'\<close> by (cases "s < s'") auto
  then show ?thesis
    using s s'(2) best(1) j(1,3) b1(3)
    by (intro exI [of _ s] exI [of _ sz] exI [of _ j])
      (simp add: get_start_from_continuation_def s'_def BUCKET_RANGE_BASE_def memrect_bucket_range_base_def ent_def)
qed

text \<open>What a walk over a bucket has established when it comes back.\<close>

definition bucket_answer :: "nat \<Rightarrow> chunk_rec \<Rightarrow> addr \<Rightarrow> (addr \<rightharpoonup> nat) \<Rightarrow> (nat \<Rightarrow> nat) \<Rightarrow> addr \<Rightarrow> bool \<Rightarrow>
    nat \<Rightarrow> nat \<Rightarrow> bucket_result \<Rightarrow> bool" where
  "bucket_answer mua r base objs m ptr must b k res \<longleftrightarrow> (case res of
     Hit j s _ \<Rightarrow> \<exists>sz. objs s = Some sz \<and> s \<le> ptr \<and> ptr < s + sz \<and> index_of_obj mua r base j s
   | Give_Up \<Rightarrow> must \<and> (\<exists>s sz. objs s = Some sz \<and> bk r base s + 1 = b \<and> base + b * pitch r < s + sz \<and> s + sz \<le> ptr)
   | No_Hit \<Rightarrow>
       (\<forall>k'. k \<le> k' \<and> k' < m b \<and> start_entry mua (ent r b k') \<longrightarrow>
          \<not> (base + b * pitch r + off (ent r b k') \<le> ptr \<and>
             ptr < base + b * pitch r + off (ent r b k') + ENTRY_GET_THISBUCKET_SIZE (ent r b k'))) \<and>
       (\<forall>k'. k \<le> k' \<and> k' < m b \<and> ENTRY_IS_CONTINUATION mua (ent r b k') \<longrightarrow>
          (\<exists>s sz. objs s = Some sz \<and> bk r base s + 1 = b \<and> base + b * pitch r < s + sz \<and> s + sz \<le> ptr)))"

lemma bucket_answer_step:
  assumes "bucket_answer mua r base objs m ptr must b (Suc k) res"
    "start_entry mua (ent r b k) \<Longrightarrow> \<not> (base + b * pitch r + off (ent r b k) \<le> ptr \<and>
       ptr < base + b * pitch r + off (ent r b k) + ENTRY_GET_THISBUCKET_SIZE (ent r b k))"
    "ENTRY_IS_CONTINUATION mua (ent r b k) \<Longrightarrow>
       \<exists>s sz. objs s = Some sz \<and> bk r base s + 1 = b \<and> base + b * pitch r < s + sz \<and> s + sz \<le> ptr"
  shows "bucket_answer mua r base objs m ptr must b k res"
proof (cases res)
  case No_Hit
  have "k' = k \<or> Suc k \<le> k'" if "k \<le> k'" for k' using that by linarith
  then show ?thesis using assms unfolding No_Hit bucket_answer_def bucket_result.case by metis
qed (use assms(1) in \<open>simp_all add: bucket_answer_def\<close>)

lemma lookup_bucket_ok:
  assumes "rect_ok mua r base objs m" "b < nb r" "base + b * pitch r \<le> ptr" "k \<le> m b" "m b - k \<le> fuel"
  shows "\<exists>res. lookup_bucket fuel mua ptr r base must b (b + k * nb r) = Inr res \<and>
    bucket_answer mua r base objs m ptr must b k res"
  using assms(4,5)
proof (induction fuel arbitrary: k)
  case 0
  then show ?case
    using rec_at_ent [OF rect_okD(1) [OF assms(1)] assms(2)] layersD [OF rect_okD(2) [OF assms(1)] assms(2)]
    by (subst lookup_bucket.simps) (auto simp: bucket_answer_def)
next
  case (Suc n)
  note w = rect_okD [OF assms(1)]
  have e: "rec_at r (b + k * nb r) = Inr (ent r b k)" "ENTRY_IS_NULL (ent r b k) \<longleftrightarrow> m b \<le> k"
    using rec_at_ent [OF w(1) assms(2)] layersD [OF w(2) assms(2)] Suc.prems(1) by simp_all
  show ?case
  proof (cases "k = m b")
    case True
    then show ?thesis using e by (subst lookup_bucket.simps) (auto simp: bucket_answer_def)
  next
    case False
    then have k: "k < m b" "Suc k \<le> m b" "m b - Suc k \<le> n" "\<not> ENTRY_IS_NULL (ent r b k)"
      using Suc.prems e(2) by linarith+
    from Suc.IH [OF k(2,3)] obtain res where
      res: "lookup_bucket n mua ptr r base must b (b + k * nb r + nb r) = Inr res"
        "bucket_answer mua r base objs m ptr must b (Suc k) res"
      by (auto simp: add.commute add.left_commute)
    show ?thesis
    proof (cases "ENTRY_IS_CONTINUATION mua (ent r b k)")
      case True
      obtain s sz j where s: "objs s = Some sz" "bk r base s + 1 = b" "base + b * pitch r < s + sz"
        "get_start_from_continuation mua (ent r b k) b r base = Inr (s, sz, j)" "index_of_obj mua r base j s"
        using continuation_start [OF assms(1,2) k(1) True] by blast
      have "s < base + b * pitch r" using bk_bounds(2) [OF objD(1) [OF w(3) s(1)], of r] by (simp only: s(2))
      then have "s \<le> ptr" using assms(3) by simp
      show ?thesis
      proof (cases "ptr < s + sz")
        case True
        then show ?thesis
          using e(1) k(4) \<open>ENTRY_IS_CONTINUATION mua (ent r b k)\<close> s \<open>s \<le> ptr\<close>
          by (subst lookup_bucket.simps) (auto simp: bucket_answer_def)
      next
        case no: False
        have "bucket_answer mua r base objs m ptr must b k res" if "\<not> must"
          by (rule bucket_answer_step [OF res(2)])
            (use s(1-3) no \<open>ENTRY_IS_CONTINUATION mua (ent r b k)\<close> in \<open>auto simp: start_entry_def not_less\<close>)
        moreover have "bucket_answer mua r base objs m ptr must b k Give_Up" if must
          using s(1-3) no [unfolded not_less] that unfolding bucket_answer_def bucket_result.case by blast
        ultimately show ?thesis
          using e(1) k(4) True s(4) no res(1) by (subst lookup_bucket.simps) auto
      qed
    next
      case False
      then have st: "start_entry mua (ent r b k)" using k(4) by (simp add: start_entry_def)
      note o = start_of_entry [OF assms(1,2) k(1) st]
      let ?s = "base + b * pitch r + off (ent r b k)" and ?t = "ENTRY_GET_THISBUCKET_SIZE (ent r b k)"
      have base: "BUCKET_RANGE_BASE b r base = base + b * pitch r"
        by (simp add: BUCKET_RANGE_BASE_def memrect_bucket_range_base_def)
      show ?thesis
      proof (cases "?s \<le> ptr \<and> ptr < ?s + ?t")
        case True
        then have "bucket_answer mua r base objs m ptr must b k (Hit (b + k * nb r) ?s (Some ?t))"
          using o by (auto simp: bucket_answer_def)
        then show ?thesis
          using e(1) k(4) False True by (subst lookup_bucket.simps) (simp add: base Let_def)
      next
        case no: False
        have "bucket_answer mua r base objs m ptr must b k res"
          by (rule bucket_answer_step [OF res(2)]) (use no False in auto)
        then show ?thesis
          using e(1) k(4) False no res(1) by (subst lookup_bucket.simps) (auto simp: base Let_def)
      qed
    qed
  qed
qed

lemma bucket_base:
  "BUCKET_RANGE_BASE b r base = base + b * pitch r" "BUCKET_RANGE_END b r base = base + (b + 1) * pitch r"
  by (simp_all add: BUCKET_RANGE_END_def BUCKET_RANGE_BASE_def memrect_bucket_range_base_def)

lemma lookup_buckets_ok:
  assumes "rect_ok mua r base objs m" "objs s = Some sz" "s \<le> mem" "mem < s + sz"
    "bk r base s \<le> p" "bk r base s < bk r base mem \<longrightarrow> bk r base s < p" "p \<le> bk r base mem"
    "must \<longrightarrow> p < bk r base mem"
  shows "\<exists>j z. lookup_buckets mua mem r base must p = Inr (Some (j, s, z)) \<and> index_of_obj mua r base j s"
  using assms(5-8)
proof (induction p arbitrary: must rule: less_induct)
  case (less p)
  note w = rect_okD [OF assms(1)]
  note o = objD [OF w(3) assms(2)]
  have base: "base \<le> mem" "mem < base + nb r * pitch r" using o(1,3) assms(3,4) by linarith+
  have p: "p < nb r" using bk_less [OF base(2,1)] less.prems(3) by simp
  have pm: "base + p * pitch r \<le> mem"
    using mult_le_mono1 [OF less.prems(3), of "pitch r"] bk_bounds(1) [OF base(1), of r] by linarith
  have reach: "s' = s" if "bk r base s < p" "objs s' = Some sz'" "bk r base s' + 1 = p" "base + p * pitch r < s' + sz'"
    for s' sz'
  proof -
    have "s < base + (bk r base s + 1) * pitch r" "s' < base + (bk r base s' + 1) * pitch r"
      using bk_bounds(2) [OF o(1), of r] bk_bounds(2) [OF objD(1) [OF w(3) that(2)], of r] by blast+
    moreover have "(bk r base s + 1) * pitch r \<le> p * pitch r" using that(1) by (intro mult_le_mono1) simp
    ultimately have "s \<le> base + p * pitch r" "s' \<le> base + p * pitch r" unfolding that(3) by linarith+
    then show ?thesis
      using obj_unique [OF w(3) that(2) assms(2), of "base + p * pitch r"] that(4) pm assms(4) by linarith
  qed
  obtain res where res: "lookup_bucket (walk_fuel r) mua mem r base must p p = Inr res"
    "bucket_answer mua r base objs m mem must p 0 res"
    using lookup_bucket_ok [OF assms(1) p pm, of 0 "walk_fuel r" must] walk_enough [OF w(1,2) p] by auto
  show ?case
  proof (cases res)
    case (Hit j s' z)
    then obtain sz' where "objs s' = Some sz'" "s' \<le> mem" "mem < s' + sz'" "index_of_obj mua r base j s'"
      using res(2) by (auto simp: bucket_answer_def)
    moreover from this have "s' = s" using obj_unique [OF w(3) _ assms(2) _ _ assms(3,4)] by blast
    ultimately show ?thesis using res(1) Hit by (subst lookup_buckets.simps) simp
  next
    case Give_Up
    then obtain s' sz' where s': must "objs s' = Some sz'" "bk r base s' + 1 = p" "base + p * pitch r < s' + sz'"
      "s' + sz' \<le> mem"
      using res(2) by (auto simp: bucket_answer_def)
    then have "bk r base s < p" using less.prems by linarith
    then show ?thesis using reach [OF _ s'(2-4)] s'(2,5) assms(2,4) by simp
  next
    case No_Hit
    note no = res(2) [unfolded No_Hit bucket_answer_def bucket_result.case]
    obtain k where k: "k < m (bk r base s)" "start_entry mua (ent r (bk r base s) k)"
      "off (ent r (bk r base s) k) = (s - base) mod pitch r"
      using w(6) assms(2) unfolding complete_def by blast
    have "bk r base s \<noteq> p"
    proof
      assume e: "bk r base s = p"
      then have "bk r base mem = p" using less.prems by linarith
      then have "mem < base + (p + 1) * pitch r" using bk_bounds(2) [OF base(1), of r] by simp
      moreover have s: "base + p * pitch r + off (ent r p k) = s" using bk_bounds(3) [OF o(1), of r] k(3) e by simp
      moreover obtain z where "objs s = Some z" "ENTRY_GET_THISBUCKET_SIZE (ent r p k) = min z (pitch r - off (ent r p k))"
        using start_of_entry(1) [OF assms(1) p, of k] k e s by auto
      ultimately show False
        using no k(1,2) e assms(2-4) by (auto simp: min_def split: if_splits)
    qed
    then have lt: "bk r base s < p" using less.prems(1) by simp
    have "p \<noteq> bk r base s + 1"
    proof
      assume e: "p = bk r base s + 1"
      then have "base + (bk r base s + 1) * pitch r < s + sz" using pm assms(4) by simp
      then obtain k' where "k' < m p" "ENTRY_IS_CONTINUATION mua (ent r p k')"
        using w(6) assms(2) e unfolding complete_def by blast
      then obtain s' sz' where s': "objs s' = Some sz'" "bk r base s' + 1 = p" "base + p * pitch r < s' + sz'" "s' + sz' \<le> mem"
        using no by blast
      then show False using reach [OF lt s'(1-3)] assms(2,4) by simp
    qed
    then have next_p: "bk r base s < p - 1" "p - 1 < p" "p \<noteq> 0" "p - 1 + 1 = p" using lt by linarith+
    have "s < base + p * pitch r"
      using bk_bounds(2) [OF o(1), of r] mult_le_mono1 [of "bk r base s + 1" p "pitch r"] lt by linarith
    moreover have "unsigned_sub mem (biggest_object r) = mem - biggest_object r"
      using geomD(4,5) [OF w(1)] base by (simp add: unsigned_sub_def mod_if)
    ultimately have "unsigned_sub mem (biggest_object r) < BUCKET_RANGE_END (p - 1) r base"
      unfolding bucket_base next_p(4) using o(4) assms(4) geomD(5) [OF w(1)] base(1) by linarith
    moreover obtain j z where "lookup_buckets mua mem r base True (p - 1) = Inr (Some (j, s, z))" "index_of_obj mua r base j s"
      using less.IH [OF next_p(2), of True] next_p less.prems(3) by (metis less_imp_le_nat less_le_trans)
    ultimately show ?thesis using res(1) No_Hit next_p(3) by (subst lookup_buckets.simps) simp
  qed
qed

lemma lookup_small_ok:
  assumes "rect_ok mua r base objs m" "objs s = Some sz" "s \<le> mem" "mem < s + sz"
  shows "\<exists>j z. lookup_small_alloc mua mem r base = Inr (Some (j, s, z)) \<and> index_of_obj mua r base j s"
proof -
  note w = rect_okD [OF assms(1)]
  note o = objD [OF w(3) assms(2)]
  have base: "base \<le> mem" "mem < base + nb r * pitch r" "mem < 2 ^ 64"
    using o(1,3) assms(3,4) geomD(4) [OF w(1)] by linarith+
  have "bk r base mem < 2 ^ 32" using bk_less [OF base(2,1)] nb_32 [of r] by linarith
  then show ?thesis
    using lookup_buckets_ok [OF assms, of "bk r base mem" False] bk_mono [OF assms(3), of r base]
    by (simp add: lookup_small_alloc_def nbucket_eq [OF base(1,3)])
qed

section \<open>Indexing\<close>

text \<open>One more entry in a bucket.\<close>

lemma put_layer:
  assumes "rect_geom r base" "layers_ok r m" "b < nb r" "m b + 1 < pitch r" "\<not> ENTRY_IS_NULL e"
  defines "r1 \<equiv> r\<lparr>metadata_recs := (metadata_recs r)[b + m b * nb r := e]\<rparr>"
  shows "set_rec (b + m b * nb r) e r = Inr r1" "rect_geom r1 base" "layers_ok r1 (m(b := m b + 1))"
    "b' < nb r \<Longrightarrow> k < pitch r \<Longrightarrow> ent r1 b' k = (if b' = b \<and> k = m b then e else ent r b' k)"
    "nb r1 = nb r" "log_pitch r1 = log_pitch r" "biggest_object r1 = biggest_object r"
proof -
  have i: "b + m b * nb r < length (metadata_recs r)"
    using idx_less [OF assms(3), of "m b" "pitch r"] assms(4) geomD(2) [OF assms(1)] by simp
  then show "set_rec (b + m b * nb r) e r = Inr r1" by (simp add: set_rec_def r1_def)
  show n: "nb r1 = nb r" "log_pitch r1 = log_pitch r" "biggest_object r1 = biggest_object r"
    by (simp_all add: r1_def ENTRIES_PER_LAYER_def)
  show "rect_geom r1 base" using assms(1) by (simp add: rect_geom_def n) (simp add: r1_def)
  show e: "ent r1 b' k = (if b' = b \<and> k = m b then e else ent r b' k)" if "b' < nb r" "k < pitch r" for b' k
    using idx_inj [OF that(1) assms(3), of k "m b"] i unfolding ent_def n(1) by (auto simp: r1_def nth_list_update)
  show "layers_ok r1 (m(b := m b + 1))"
    unfolding layers_ok_def n
  proof (intro allI impI conjI)
    fix b' assume b': "b' < nb r"
    note l = layersD [OF assms(2) b']
    show "(m(b := m b + 1)) b' < pitch r" using l(1) assms(4) by simp
    fix k assume k: "k < pitch r"
    show "ENTRY_IS_NULL (ent r1 b' k) \<longleftrightarrow> (m(b := m b + 1)) b' \<le> k"
      using l(2) [OF k] e [OF b' k] assms(5) by auto
  qed
qed

text \<open>
  A table that has, besides the entries of another one, a start entry in bucket \<open>b\<close> and, where the
  object spills, a continuation in the next.
\<close>

definition adds_object :: "chunk_rec \<Rightarrow> (nat \<Rightarrow> nat) \<Rightarrow> chunk_rec \<Rightarrow> (nat \<Rightarrow> nat) \<Rightarrow> nat \<Rightarrow> entry \<Rightarrow> bool \<Rightarrow>
    entry \<Rightarrow> bool" where
  "adds_object r m r' m' b0 e1 spill e2 \<longleftrightarrow> nb r' = nb r \<and> log_pitch r' = log_pitch r \<and>
     (\<forall>b k. b < nb r \<and> k < m b \<longrightarrow> k < m' b \<and> ent r' b k = ent r b k) \<and>
     (\<forall>b k. b < nb r \<and> k < m' b \<longrightarrow>
        k < m b \<or> b = b0 \<and> ent r' b k = e1 \<or> spill \<and> b = b0 + 1 \<and> ent r' b k = e2) \<and>
     (\<exists>k<m' b0. ent r' b0 k = e1) \<and> (spill \<longrightarrow> (\<exists>k<m' (b0 + 1). ent r' (b0 + 1) k = e2))"

definition object_entries :: "nat \<Rightarrow> chunk_rec \<Rightarrow> addr \<Rightarrow> addr \<Rightarrow> nat \<Rightarrow> entry \<Rightarrow> entry \<Rightarrow> bool" where
  "object_entries mua r base ptr sz e1 e2 \<longleftrightarrow> start_entry mua e1 \<and> off e1 = (ptr - base) mod pitch r \<and>
     ENTRY_GET_THISBUCKET_SIZE e1 = min sz (pitch r - off e1) \<and>
     ENTRY_IS_CONTINUATION mua e2 \<and> continuation_size e2 = sz"

lemma addsD:
  assumes "adds_object r m r' m' b0 e1 spill e2"
  shows "nb r' = nb r" "log_pitch r' = log_pitch r"
    "b < nb r \<Longrightarrow> k < m b \<Longrightarrow> k < m' b \<and> ent r' b k = ent r b k"
    "b < nb r \<Longrightarrow> k < m' b \<Longrightarrow> k < m b \<or> b = b0 \<and> ent r' b k = e1 \<or> spill \<and> b = b0 + 1 \<and> ent r' b k = e2"
    "\<exists>k<m' b0. ent r' b0 k = e1" "spill \<Longrightarrow> \<exists>k<m' (b0 + 1). ent r' (b0 + 1) k = e2" "bk r' base a = bk r base a"
  using assms by (simp_all add: adds_object_def bk_def)

lemma adds_objectI:
  assumes "nb r' = nb r" "log_pitch r' = log_pitch r" "layers_ok r' m'" "b0 < nb r" "spill \<Longrightarrow> b0 + 1 < nb r"
    "\<And>b. m' b = (if b = b0 \<or> spill \<and> b = b0 + 1 then m b + 1 else m b)"
    "\<And>b k. b < nb r \<Longrightarrow> k < pitch r \<Longrightarrow> ent r' b k =
       (if b = b0 \<and> k = m b then e1 else if spill \<and> b = b0 + 1 \<and> k = m b then e2 else ent r b k)"
  shows "adds_object r m r' m' b0 e1 spill e2"
proof -
  have e: "ent r' b k = (if b = b0 \<and> k = m b then e1 else if spill \<and> b = b0 + 1 \<and> k = m b then e2 else ent r b k)"
    if "b < nb r" "k < m' b" for b k
  proof -
    have "m' b < pitch r" using layersD(1) [OF assms(3), of b] that(1) by (simp only: assms(1,2))
    then show ?thesis using that by (intro assms(7)) linarith+
  qed
  have "k < m' b \<and> ent r' b k = ent r b k" if "b < nb r" "k < m b" for b k
    using e [OF that(1), of k] that(2) assms(6) [of b] by (simp split: if_splits)
  moreover have "k < m b \<or> b = b0 \<and> ent r' b k = e1 \<or> spill \<and> b = b0 + 1 \<and> ent r' b k = e2"
    if "b < nb r" "k < m' b" for b k
    using e [OF that] that(2) assms(6) [of b] by (auto simp: less_Suc_eq split: if_splits)
  moreover have "\<exists>k<m' b0. ent r' b0 k = e1" using e [OF assms(4), of "m b0"] assms(6) [of b0] by auto
  moreover have "\<exists>k<m' (b0 + 1). ent r' (b0 + 1) k = e2" if spill
    using e [OF assms(5) [OF that], of "m (b0 + 1)"] assms(6) [of "b0 + 1"] that by auto
  ultimately show ?thesis using assms(1,2) unfolding adds_object_def by blast
qed

lemma starts_ok_add:
  assumes "rect_ok mua r base objs m" "adds_object r m r' m' (bk r base ptr) e1 spill e2"
    "object_entries mua r base ptr sz e1 e2" "objs ptr = None" "base \<le> ptr"
  shows "starts_ok mua r' base (objs(ptr \<mapsto> sz)) m'"
  unfolding starts_ok_def addsD(1,2) [OF assms(2)]
proof (intro allI impI)
  fix b k assume bk: "b < nb r" "k < m' b" "start_entry mua (ent r' b k)"
  note e = assms(3) [unfolded object_entries_def]
  have keep: "(objs(ptr \<mapsto> sz)) s = Some z" if "objs s = Some z" for s z using that assms(4) by auto
  have "\<not> start_entry mua e2" using e by (simp add: start_entry_def)
  then consider "k < m b" "ent r' b k = ent r b k" "start_entry mua (ent r b k)" | "b = bk r base ptr" "ent r' b k = e1"
    using addsD(4) [OF assms(2) bk(1,2)] addsD(3) [OF assms(2) bk(1)] bk(3) by metis
  then show "off (ent r' b k) < pitch r \<and> (\<exists>z. (objs(ptr \<mapsto> sz)) (base + b * pitch r + off (ent r' b k)) = Some z \<and>
      ENTRY_GET_THISBUCKET_SIZE (ent r' b k) = min z (pitch r - off (ent r' b k)))"
  proof cases
    case 1
    then show ?thesis using start_of_entry(1,3) [OF assms(1) bk(1) 1(1,3)] keep unfolding 1(2) by blast
  next
    case 2
    then show ?thesis using bk_bounds(3) [OF assms(5), of r] e by simp
  qed
qed

lemma conts_ok_add:
  assumes "rect_ok mua r base objs m" "adds_object r m r' m' (bk r base ptr) e1 spill e2"
    "object_entries mua r base ptr sz e1 e2" "objs ptr = None"
    "spill \<longleftrightarrow> base + (bk r base ptr + 1) * pitch r < ptr + sz"
  shows "conts_ok mua r' base (objs(ptr \<mapsto> sz)) m'"
  unfolding conts_ok_def addsD(1,2,7) [OF assms(2)]
proof (intro allI impI)
  fix b k assume bk: "b < nb r" "k < m' b" "ENTRY_IS_CONTINUATION mua (ent r' b k)"
  note e = assms(3) [unfolded object_entries_def]
  have keep: "(objs(ptr \<mapsto> sz)) s = Some z" if "objs s = Some z" for s z using that assms(4) by auto
  have "\<not> ENTRY_IS_CONTINUATION mua e1" using e by (simp add: start_entry_def)
  then consider "k < m b" "ent r' b k = ent r b k" "ENTRY_IS_CONTINUATION mua (ent r b k)"
    | spill "b = bk r base ptr + 1" "ent r' b k = e2"
    using addsD(4) [OF assms(2) bk(1,2)] addsD(3) [OF assms(2) bk(1)] bk(3) by metis
  then show "\<exists>s z. (objs(ptr \<mapsto> sz)) s = Some z \<and> bk r base s + 1 = b \<and> base + b * pitch r < s + z \<and>
      continuation_size (ent r' b k) = z"
  proof cases
    case 1
    then show ?thesis using rect_okD(5) [OF assms(1)] bk(1) keep unfolding conts_ok_def by metis
  next
    case 2
    then show ?thesis using assms(5) e by (intro exI [of _ ptr] exI [of _ sz]) simp
  qed
qed

lemma complete_add:
  assumes "rect_ok mua r base objs m" "adds_object r m r' m' (bk r base ptr) e1 spill e2"
    "object_entries mua r base ptr sz e1 e2"
    "spill \<longleftrightarrow> base + (bk r base ptr + 1) * pitch r < ptr + sz"
  shows "complete mua r' base (objs(ptr \<mapsto> sz)) m'"
  unfolding complete_def addsD(1,2,7) [OF assms(2)]
proof (intro allI impI)
  fix s z assume s: "(objs(ptr \<mapsto> sz)) s = Some z"
  note w = rect_okD [OF assms(1)]
  show "(\<exists>k<m' (bk r base s). start_entry mua (ent r' (bk r base s) k) \<and>
      off (ent r' (bk r base s) k) = (s - base) mod pitch r) \<and>
    (base + (bk r base s + 1) * pitch r < s + z \<longrightarrow>
      (\<exists>k<m' (bk r base s + 1). ENTRY_IS_CONTINUATION mua (ent r' (bk r base s + 1) k)))"
  proof (cases "s = ptr")
    case True
    then show ?thesis
      using s addsD(5,6) [OF assms(2)] assms(3,4) unfolding object_entries_def
      by (metis fun_upd_same option.inject)
  next
    case False
    then have o: "objs s = Some z" using s by simp
    have "bk r base s + 1 < nb r" if "base + (bk r base s + 1) * pitch r < s + z"
    proof -
      have "(bk r base s + 1) * pitch r < nb r * pitch r" using that objD(3) [OF w(3) o] by linarith
      then show ?thesis by (simp only: mult_less_cancel2)
    qed
    then show ?thesis
      using w(6) o addsD(3) [OF assms(2)] objD(7) [OF w(3) o] unfolding complete_def by metis
  qed
qed

text \<open>The entries the code writes.\<close>

lemma entries_written:
  fixes ptr :: addr
  assumes "rect_geom r base" "0 < mua" "mua \<le> site" "site < 2 ^ 47" "0 < sz" "sz < 2 ^ 22" "sz < mua"
  defines "x \<equiv> (ptr - base) mod pitch r"
  shows "object_entries mua r base ptr sz (regular_initial site x (min sz (pitch r - x))) (continuation sz t)"
    "entry_alloc_site (regular_initial site x (min sz (pitch r - x))) = site"
proof -
  have p: "pitch r \<le> 128" "x < pitch r" using pitch_le [OF assms(1)] by (simp_all add: x_def)
  have d: "unat (of_nat site :: 48 word) = site" "unat (of_nat sz :: 48 word) = sz"
    using assms(4,6) by (simp_all add: unsigned_of_nat take_bit_nat_eq_self)
  have "of_nat site \<noteq> (0 :: 48 word)" "of_nat sz \<noteq> (0 :: 48 word)"
    using d assms(2,3,5) by (metis unat_0 not_le less_irrefl)+
  moreover have "unat (of_nat x :: 8 word) = x" "unat (of_nat (min sz (pitch r - x)) :: 8 word) = min sz (pitch r - x)"
    using p by (simp_all add: unsigned_of_nat take_bit_nat_eq_self)
  ultimately show "object_entries mua r base ptr sz (regular_initial site x (min sz (pitch r - x))) (continuation sz t)"
    "entry_alloc_site (regular_initial site x (min sz (pitch r - x))) = site"
    using assms(3,4,6,7) d
    by (simp_all add: object_entries_def regular_initial_def continuation_def start_entry_def ENTRY_IS_NULL_def
        ENTRY_IS_CONTINUATION_def ENTRY_GET_STORED_OFFSET_def ENTRY_GET_THISBUCKET_SIZE_def continuation_size_def
        entry_alloc_site_def x_def)
qed

lemma thisbucket_eq:
  assumes "rect_geom r base" "base \<le> ptr" "ptr + sz < 2 ^ 64"
  defines "x \<equiv> (ptr - base) mod pitch r"
  shows "(if memrect_nbucket_of (ptr + sz) base (log_pitch r) = bk r base ptr then sz
      else 2 ^ log_pitch r - x) mod 2 ^ 16 = min sz (pitch r - x)" "x mod 2 ^ 16 = x"
proof -
  have p: "pitch r \<le> 128" "x < pitch r" using pitch_le [OF assms(1)] by (simp_all add: x_def)
  then show x: "x mod 2 ^ 16 = x" by simp
  have e: "ptr = base + bk r base ptr * pitch r + x" using bk_bounds(3) [OF assms(2), of r] by (simp add: x_def)
  have n: "memrect_nbucket_of (ptr + sz) base (log_pitch r) = bk r base (ptr + sz)"
    using assms(2,3) by (intro nbucket_eq) simp_all
  have "sz < pitch r - x" if "bk r base (ptr + sz) = bk r base ptr"
  proof -
    have "ptr + sz < base + (bk r base ptr + 1) * pitch r"
      using bk_bounds(2) [of base "ptr + sz" r] assms(2) that by simp
    then show ?thesis using e unfolding add_mult_distrib mult_1 by linarith
  qed
  moreover have "pitch r - x \<le> sz" if "bk r base (ptr + sz) \<noteq> bk r base ptr"
  proof -
    have "bk r base ptr + 1 \<le> bk r base (ptr + sz)" using bk_mono [of ptr "ptr + sz" r base] that by simp
    then have "(bk r base ptr + 1) * pitch r \<le> bk r base (ptr + sz) * pitch r" by (rule mult_le_mono1)
    then have "base + (bk r base ptr + 1) * pitch r \<le> ptr + sz"
      using bk_bounds(1) [of base "ptr + sz" r] assms(2) by linarith
    then show ?thesis using e unfolding add_mult_distrib mult_1 by linarith
  qed
  ultimately show "(if memrect_nbucket_of (ptr + sz) base (log_pitch r) = bk r base ptr then sz
      else 2 ^ log_pitch r - x) mod 2 ^ 16 = min sz (pitch r - x)"
    unfolding n using p by (auto simp: min_def)
qed

definition bump_biggest :: "nat \<Rightarrow> chunk_rec \<Rightarrow> chunk_rec" where
  "bump_biggest sz r = (if biggest_object r < sz then r\<lparr>biggest_object := sz\<rparr> else r)"

lemma bump_biggest:
  "nb (bump_biggest sz r) = nb r" "log_pitch (bump_biggest sz r) = log_pitch r"
  "ent (bump_biggest sz r) b k = ent r b k" "layers_ok (bump_biggest sz r) m = layers_ok r m"
  "rect_geom r base \<Longrightarrow> sz \<le> base \<Longrightarrow> rect_geom (bump_biggest sz r) base"
  "biggest_object (bump_biggest sz r) = max (biggest_object r) sz"
proof -
  show n: "nb (bump_biggest sz r) = nb r" "log_pitch (bump_biggest sz r) = log_pitch r"
    "ent (bump_biggest sz r) b k = ent r b k" for b k
    by (simp_all add: bump_biggest_def ENTRIES_PER_LAYER_def ent_def)
  show "layers_ok (bump_biggest sz r) m = layers_ok r m" by (simp add: layers_ok_def n)
  show "biggest_object (bump_biggest sz r) = max (biggest_object r) sz" by (simp add: bump_biggest_def)
  then show "rect_geom r base \<Longrightarrow> sz \<le> base \<Longrightarrow> rect_geom (bump_biggest sz r) base"
    unfolding rect_geom_def n by (simp add: bump_biggest_def)
qed

lemma objs_ok_add:
  assumes "objs_ok mua r base objs" "nb r' = nb r" "log_pitch r' = log_pitch r"
    "biggest_object r' = max (biggest_object r) sz" "base \<le> ptr" "0 < sz" "ptr + sz \<le> base + nb r * pitch r"
    "sz < 2 ^ 22" "sz < mua" "\<And>s z. objs s = Some z \<Longrightarrow> s + z \<le> ptr \<or> ptr + sz \<le> s"
  shows "objs_ok mua r' base (objs(ptr \<mapsto> sz))" "objs ptr = None"
proof -
  have o: "base \<le> s \<and> 0 < z \<and> s + z \<le> base + nb r * pitch r \<and> z \<le> biggest_object r \<and> z < 2 ^ 22 \<and> z < mua"
    if "objs s = Some z" for s z using objD(1-6) [OF assms(1) that] by blast
  show "objs ptr = None"
    using assms(6) assms(10) [of ptr] o [of ptr] by (cases "objs ptr") fastforce+
  show "objs_ok mua r' base (objs(ptr \<mapsto> sz))"
    unfolding objs_ok_def assms(2-4)
  proof (intro conjI allI impI; (elim conjE)?)
    fix s z s' z' assume "(objs(ptr \<mapsto> sz)) s = Some z" "(objs(ptr \<mapsto> sz)) s' = Some z'" "s < s'"
    then show "s + z \<le> s'"
      using assms(10) [of s z] assms(10) [of s' z'] o [of s z] o [of s' z'] obj_disjoint [OF assms(1), of s z s' z']
      by (auto split: if_splits)
  qed (use o assms(5-9) in \<open>fastforce split: if_splits\<close>)+
qed

text \<open>The two writes.\<close>

lemma index_writes:
  assumes "rect_ok mua r base objs m" "base \<le> ptr" "0 < sz" "ptr + sz \<le> base + nb r * pitch r" "sz \<le> base"
    "\<And>b. b < nb r \<Longrightarrow> b = bk r base ptr \<or> b = bk r base ptr + 1 \<Longrightarrow> m b + 1 < pitch r"
    "\<And>t. object_entries mua r base ptr sz e1 (continuation sz t)"
    "e1 = regular_initial site ((ptr - base) mod pitch r) (min sz (pitch r - (ptr - base) mod pitch r))"
    "spill \<longleftrightarrow> base + (bk r base ptr + 1) * pitch r < ptr + sz"
  shows "\<exists>r' m' t. index_small_alloc_internal site ptr sz base r = Inr r' \<and> rect_geom r' base \<and> layers_ok r' m' \<and>
    biggest_object r' = max (biggest_object r) sz \<and>
    adds_object r m r' m' (bk r base ptr) e1 spill (continuation sz t)"
proof -
  note w = rect_okD [OF assms(1)]
  let ?b = "bk r base ptr"
  have b: "?b < nb r" using assms(2-4) by (intro bk_less) linarith+
  have lt: "ptr < 2 ^ 64" "ptr + sz < 2 ^ 64" using assms(4) geomD(4) [OF w(1)] by linarith+
  have e1: "\<not> ENTRY_IS_NULL e1" using assms(7) by (simp add: object_entries_def start_entry_def)
  define r1 where "r1 = r\<lparr>metadata_recs := (metadata_recs r)[?b + m ?b * nb r := e1]\<rparr>"
  define m1 where "m1 = m(?b := m ?b + 1)"
  note p1 = put_layer [OF w(1,2) b assms(6) [OF b disjI1 [OF refl]] e1, folded r1_def m1_def]
  note tb = thisbucket_eq [OF w(1) assms(2) lt(2)]
  have ff: "find_free_layer (walk_fuel r) r ?b = Inr (?b + m ?b * nb r)"
    using find_free_layer_ok [OF w(1,2) b, of 0 "walk_fuel r"] walk_enough [OF w(1,2) b] by simp
  have run: "index_small_alloc_internal site ptr sz base r =
      rbind (if spill then index_continuation ?b sz (min sz (pitch r - (ptr - base) mod pitch r)) r1 else Inr r1)
        (\<lambda>r. Inr (bump_biggest sz r))"
    unfolding index_small_alloc_internal_def Let_def nbucket_eq [OF assms(2) lt(1)] tb(2) ff rbind.simps tb(1)
      assms(8) [symmetric] p1(1) bucket_base(2) p1(6) assms(9) [symmetric] bump_biggest_def ..
  show ?thesis
  proof (cases spill)
    case False
    then have "adds_object r m (bump_biggest sz r1) m1 ?b e1 spill e2" for e2
      using p1(3-6) b by (intro adds_objectI) (auto simp: bump_biggest m1_def)
    moreover have "rect_geom (bump_biggest sz r1) base" "layers_ok (bump_biggest sz r1) m1"
      "biggest_object (bump_biggest sz r1) = max (biggest_object r) sz"
      using bump_biggest(5) [OF p1(2) assms(5)] p1(3,7) by (simp_all only: bump_biggest(4,6))
    moreover have "index_small_alloc_internal site ptr sz base r = Inr (bump_biggest sz r1)" using run False by simp
    ultimately show ?thesis by blast
  next
    case True
    define e2 where "e2 = continuation sz (let s = (sz + 2 ^ 32 - min sz (pitch r - (ptr - base) mod pitch r)) mod 2 ^ 32 in
      if s > pitch r then 0 else s)"
    have b1: "?b + 1 < nb r1" "m1 (?b + 1) = m (?b + 1)"
    proof -
      have "(?b + 1) * pitch r < nb r * pitch r" using True assms(4,9) by linarith
      then show "?b + 1 < nb r1" using p1(5) by (simp only: mult_less_cancel2)
    qed (simp add: m1_def)
    have e2: "\<not> ENTRY_IS_NULL e2"
      using assms(7) by (simp add: e2_def object_entries_def ENTRY_IS_CONTINUATION_def ENTRY_IS_NULL_def)
    have room: "m1 (?b + 1) + 1 < pitch r1" using assms(6) [of "?b + 1"] b1 p1(5,6) by simp
    define r2 where "r2 = r1\<lparr>metadata_recs := (metadata_recs r1)[?b + 1 + m1 (?b + 1) * nb r1 := e2]\<rparr>"
    define m2 where "m2 = m1(?b + 1 := m1 (?b + 1) + 1)"
    note p2 = put_layer [OF p1(2,3) b1(1) room e2, folded r2_def m2_def]
    have "find_free_layer (walk_fuel r1) r1 (?b + 1) = Inr (?b + 1 + m1 (?b + 1) * nb r1)"
      using find_free_layer_ok [OF p1(2,3) b1(1), of 0 "walk_fuel r1"] walk_enough [OF p1(2,3) b1(1)] by simp
    then have "index_continuation ?b sz (min sz (pitch r - (ptr - base) mod pitch r)) r1 = Inr r2"
      using p2(1) by (simp add: index_continuation_def Let_def e2_def p1(6))
    then have "index_small_alloc_internal site ptr sz base r = Inr (bump_biggest sz r2)"
      using run True by simp
    moreover have "adds_object r m (bump_biggest sz r2) m2 ?b e1 spill e2"
      using p1(4-6) p2(3-6) b b1 True by (intro adds_objectI) (auto simp: bump_biggest m2_def m1_def)
    moreover have "rect_geom (bump_biggest sz r2) base" "layers_ok (bump_biggest sz r2) m2"
      "biggest_object (bump_biggest sz r2) = max (biggest_object r) sz"
      using bump_biggest(5) [OF p2(2) assms(5)] p2(3,7) p1(7) by (simp_all only: bump_biggest(4,6))
    ultimately show ?thesis unfolding e2_def by blast
  qed
qed

lemma index_small_ok:
  assumes "rect_ok mua r base objs m" "0 < mua" "mua \<le> site" "site < 2 ^ 47" "0 < sz" "sz < 2 ^ 22" "sz < mua"
    "sz \<le> base" "base \<le> ptr" "ptr + sz \<le> base + nb r * pitch r"
    "\<And>s z. objs s = Some z \<Longrightarrow> s + z \<le> ptr \<or> ptr + sz \<le> s"
    "\<And>b. b < nb r \<Longrightarrow> b = bk r base ptr \<or> b = bk r base ptr + 1 \<Longrightarrow> m b + 1 < pitch r"
  shows "\<exists>r' m'. index_small_alloc_internal site ptr sz base r = Inr r' \<and>
    rect_ok mua r' base (objs(ptr \<mapsto> sz)) m' \<and>
    (\<forall>j. index_of_obj mua r' base j ptr \<longrightarrow> entry_alloc_site (metadata_recs r' ! j) = site)"
proof -
  note w = rect_okD [OF assms(1)]
  define e1 where "e1 = regular_initial site ((ptr - base) mod pitch r) (min sz (pitch r - (ptr - base) mod pitch r))"
  define spill where "spill \<longleftrightarrow> base + (bk r base ptr + 1) * pitch r < ptr + sz"
  have e: "object_entries mua r base ptr sz e1 (continuation sz t)" "entry_alloc_site e1 = site" for t
    unfolding e1_def using entries_written [OF w(1) assms(2-7)] by blast+
  obtain r' m' t where r': "index_small_alloc_internal site ptr sz base r = Inr r'" "rect_geom r' base" "layers_ok r' m'"
    "biggest_object r' = max (biggest_object r) sz" "adds_object r m r' m' (bk r base ptr) e1 spill (continuation sz t)"
    using index_writes [OF assms(1,9,5,10,8,12) e(1) e1_def spill_def] by blast
  note a = addsD [OF r'(5)]
  note o = objs_ok_add [OF w(3) a(1,2) r'(4) assms(9,5,10,6,7,11)]
  have ok: "rect_ok mua r' base (objs(ptr \<mapsto> sz)) m'"
    unfolding rect_ok_def
    using r'(2,3) o(1) starts_ok_add [OF assms(1) r'(5) e(1) o(2) assms(9)]
      conts_ok_add [OF assms(1) r'(5) e(1) o(2) spill_def] complete_add [OF assms(1) r'(5) e(1) spill_def] by blast
  have "entry_alloc_site (metadata_recs r' ! j) = site" if j: "index_of_obj mua r' base j ptr" for j
  proof -
    have b: "bk r base ptr < nb r" using assms(5,9,10) by (intro bk_less) linarith+
    obtain k where k: "k < pitch r" "j = bk r base ptr + k * nb r" "start_entry mua (ent r' (bk r base ptr) k)"
      "off (ent r' (bk r base ptr) k) = (ptr - base) mod pitch r"
      using j unfolding index_of_obj_def a(1,2,7) by blast
    have "k < m' (bk r base ptr)"
      using layersD(2) [OF r'(3), of "bk r base ptr" k] k(1,3) b a(1,2) by (simp add: start_entry_def)
    moreover have "\<not> k < m (bk r base ptr)"
    proof
      assume km: "k < m (bk r base ptr)"
      then have "ent r' (bk r base ptr) k = ent r (bk r base ptr) k" using a(3) [OF b] by blast
      then have "\<exists>z. objs (base + bk r base ptr * pitch r + (ptr - base) mod pitch r) = Some z"
        using start_of_entry(1) [OF assms(1) b km] k(3,4) by auto
      then show False using bk_bounds(3) [OF assms(9), of r] o(2) by simp
    qed
    ultimately have "ent r' (bk r base ptr) k = e1" using a(4) [OF b, of k] by auto
    then show ?thesis using e(2) k(2) by (simp add: ent_def a(1))
  qed
  then show ?thesis using r'(1) ok by blast
qed

text \<open>A table with no entries.\<close>

lemma zero_entry_null: "ENTRY_IS_NULL zero_entry"
  by (simp add: ENTRY_IS_NULL_def zero_entry_def)

lemma fresh_rect_ok:
  assumes "rect_geom r base" "metadata_recs r = replicate (nb r * pitch r) zero_entry"
  shows "rect_ok mua r base Map.empty (\<lambda>_. 0)"
proof -
  have "ent r b k = zero_entry" if "b < nb r" "k < pitch r" for b k
    using idx_less [OF that] unfolding ent_def assms(2) by (rule nth_replicate)
  then have "layers_ok r (\<lambda>_. 0)" by (simp add: layers_ok_def zero_entry_null)
  then show ?thesis
    using assms(1) by (simp add: rect_ok_def objs_ok_def starts_ok_def conts_ok_def complete_def)
qed

text \<open>
  There are as many layers as bytes in a bucket, and a walk ends only at a null entry: when each byte of
  a bucket is an object of its own, the walk leaves the table.
\<close>

lemma full_bucket_overruns:
  assumes "rect_geom r base" "b < nb r" "\<And>k. k < pitch r \<Longrightarrow> \<not> ENTRY_IS_NULL (ent r b k)"
    "k \<le> pitch r" "pitch r - k \<le> fuel"
  shows "find_free_layer fuel r (b + k * nb r) = Inl Out_Of_Bounds"
  using assms(4,5)
proof (induction fuel arbitrary: k)
  case 0
  then have "nb r * pitch r \<le> b + k * nb r" by simp
  then show ?case using geomD(2) [OF assms(1)] by (subst find_free_layer.simps) (simp add: rec_at_def)
next
  case (Suc n)
  show ?case
  proof (cases "k = pitch r")
    case True
    then have "nb r * pitch r \<le> b + k * nb r" by simp
    then show ?thesis using geomD(2) [OF assms(1)] by (subst find_free_layer.simps) (simp add: rec_at_def)
  next
    case False
    then have k: "k < pitch r" "Suc k \<le> pitch r" "pitch r - Suc k \<le> n" using Suc.prems by linarith+
    then show ?thesis
      using rec_at_ent [OF assms(1,2) k(1)] assms(3) [OF k(1)] Suc.IH [OF k(2,3)]
      by (subst find_free_layer.simps) (simp add: add.commute add.left_commute)
  qed
qed

section \<open>Properties\<close>

text \<open>
  C39. Indexing a small object that overlaps no other succeeds while there is room in its bucket and the next,
  for pitches below 256 bytes: the table then represents one object more, and a lookup of any
  address in any of its objects, old or new, finds the entry and the start of that object; for
  the new one the entry holds the allocation site.
\<close>

theorem small_index_then_lookup:
  assumes "rect_ok mua r base objs m" "0 < mua" "mua \<le> site" "site < 2 ^ 47" "0 < sz" "sz < 2 ^ 22" "sz < mua"
    "sz \<le> base" "base \<le> ptr" "ptr + sz \<le> base + nb r * pitch r"
    "\<And>s z. objs s = Some z \<Longrightarrow> s + z \<le> ptr \<or> ptr + sz \<le> s"
    "\<And>b. b < nb r \<Longrightarrow> b = bk r base ptr \<or> b = bk r base ptr + 1 \<Longrightarrow> m b + 1 < pitch r"
    "(objs(ptr \<mapsto> sz)) s = Some z" "s \<le> mem" "mem < s + z"
  shows "\<exists>r' m' j w. index_small_alloc_internal site ptr sz base r = Inr r' \<and>
    rect_ok mua r' base (objs(ptr \<mapsto> sz)) m' \<and>
    lookup_small_alloc mua mem r' base = Inr (Some (j, s, w)) \<and> index_of_obj mua r' base j s \<and>
    (s = ptr \<longrightarrow> entry_alloc_site (metadata_recs r' ! j) = site)"
proof -
  obtain r' m' where r': "index_small_alloc_internal site ptr sz base r = Inr r'"
    "rect_ok mua r' base (objs(ptr \<mapsto> sz)) m'"
    "\<And>j. index_of_obj mua r' base j ptr \<Longrightarrow> entry_alloc_site (metadata_recs r' ! j) = site"
    using index_small_ok [OF assms(1-12)] by blast
  then show ?thesis using lookup_small_ok [OF r'(2) assms(13-15)] by blast
qed

lemma lookup_empty_buckets:
  assumes "\<And>j. j \<le> k \<Longrightarrow> rec_at r j = Inr zero_entry"
  shows "lookup_buckets mua ptr r base msc k = Inr None"
  using assms
proof (induction k arbitrary: msc)
  case 0
  then show ?case by (simp add: lookup_buckets.simps lookup_bucket.simps zero_entry_null)
next
  case (Suc k)
  have "lookup_buckets mua ptr r base True k = Inr None" by (rule Suc.IH) (simp add: Suc.prems)
  moreover have "lookup_bucket (walk_fuel r) mua ptr r base msc (Suc k) (Suc k) = Inr No_Hit"
    by (simp add: lookup_bucket.simps Suc.prems zero_entry_null)
  ultimately show ?case by (subst lookup_buckets.simps) simp
qed

lemma full_pitch_entry:
  assumes "0 < mua" "mua \<le> site" "site < 2 ^ 47"
  defines "e \<equiv> regular_initial site 0 256"
  shows "\<not> ENTRY_IS_NULL e" "\<not> ENTRY_IS_CONTINUATION mua e" "ENTRY_GET_THISBUCKET_SIZE e = 0"
    "ENTRY_GET_STORED_OFFSET e = 0"
proof -
  have site: "unat (of_nat site :: 48 word) = site" using assms(3) by (simp add: unsigned_of_nat take_bit_nat_eq_self)
  then have "of_nat site \<noteq> (0 :: 48 word)" using assms(1,2) by (metis unat_0 not_le)
  then show "\<not> ENTRY_IS_NULL e" "\<not> ENTRY_IS_CONTINUATION mua e" "ENTRY_GET_THISBUCKET_SIZE e = 0"
    "ENTRY_GET_STORED_OFFSET e = 0"
    using site assms(2,3) by (simp_all add: e_def regular_initial_def ENTRY_IS_NULL_def ENTRY_IS_CONTINUATION_def
        ENTRY_GET_THISBUCKET_SIZE_def ENTRY_GET_STORED_OFFSET_def)
qed

text \<open>
  C40. With the biggest pitch, 256, an object of at least 256 bytes that starts at the beginning of any bucket
  but the last is lost: the
  size of its first part does not fit in eight bits and is stored as 0, so that indexing it in an empty
  table succeeds and a lookup of its own start finds no object.
\<close>

theorem full_pitch_object_lost:
  assumes "log_pitch r = 8" "k + 1 < nb r" "metadata_recs r = replicate (nb r * 256) zero_entry"
    "256 \<le> sz" "sz < 2 ^ 22" "ptr = base + k * 256" "ptr + sz < 2 ^ 64" "0 < mua" "mua \<le> site" "site < 2 ^ 47"
  shows "\<exists>r'. index_small_alloc_internal site ptr sz base r = Inr r' \<and> lookup_small_alloc mua ptr r' base = Inr None"
proof -
  define e where "e = regular_initial site 0 256"
  define r1 where "r1 = r\<lparr>metadata_recs := (metadata_recs r)[k := e]\<rparr>"
  define e2 where "e2 = continuation sz (let s = (sz + 2 ^ 32 - 256) mod 2 ^ 32 in if s > 256 then 0 else s)"
  define r2 where "r2 = (if 256 < sz then r1\<lparr>metadata_recs := (metadata_recs r1)[k + 1 := e2]\<rparr> else r1)"
  have n: "nb r1 = nb r" "nb r2 = nb r" "log_pitch r1 = 8" "log_pitch r2 = 8" "nb (bump_biggest sz r2) = nb r"
    using assms(1) by (simp_all add: r1_def r2_def ENTRIES_PER_LAYER_def bump_biggest_def)
  have z: "unsigned_sub ptr base = k * 256" "unsigned_sub (ptr + sz) base = k * 256 + sz"
    using assms(6,7) by (simp_all add: unsigned_sub_def add.assoc [symmetric])
  have s: "sz div 256 \<noteq> 0" "256 mod 2 ^ 16 = (256 :: nat)" using assms(4) by (simp_all add: div_eq_0_iff)
  have "rec_at r k = Inr zero_entry" "rec_at r1 (k + 1) = Inr zero_entry"
    using assms(2,3) by (auto simp: rec_at_def r1_def)
  then have ff: "find_free_layer f r k = Inr k" "find_free_layer f r1 (k + 1) = Inr (k + 1)" for f
    by (simp_all add: find_free_layer.simps zero_entry_null)
  have set0: "set_rec k e r = Inr r1" using assms(2,3) by (simp add: set_rec_def r1_def)
  have "set_rec (k + 1) e2 r1 = Inr r2" if "256 < sz" using assms(2,3) that by (simp add: set_rec_def r2_def r1_def)
  then have cont: "(if base + (k + 1) * 2 ^ 8 < ptr + sz then index_continuation k sz 256 r1 else Inr r1) = Inr r2"
    using ff(2) n(3) assms(6) by (simp add: index_continuation_def e2_def r2_def Let_def)
  have tb: "(if memrect_nbucket_of (ptr + sz) base 8 = k then sz else 2 ^ 8 - 0) mod 2 ^ 16 = 256"
    using s(1) by (simp add: memrect_nbucket_of_def z)
  have start: "memrect_nbucket_of ptr base 8 = k" "memrect_bucket_offset_of_addr ptr base 8 mod 2 ^ 16 = 0"
    by (simp_all add: memrect_nbucket_of_def memrect_bucket_offset_of_addr_def z)
  let ?r = "bump_biggest sz r2"
  have run: "index_small_alloc_internal site ptr sz base r = Inr ?r"
    unfolding index_small_alloc_internal_def Let_def assms(1) start ff(1) rbind.simps tb e_def [symmetric] set0
      bucket_base(2) n(3) cont bump_biggest_def ..
  have recs: "metadata_recs ?r = (if 256 < sz then (replicate (nb r * 256) zero_entry)[k := e, k + 1 := e2]
      else (replicate (nb r * 256) zero_entry)[k := e])"
    by (simp add: bump_biggest_def r2_def r1_def assms(3))
  have at: "rec_at ?r k = Inr e" "rec_at ?r (k + nb r) = Inr zero_entry" "walk_fuel ?r \<noteq> 0"
    "j < k \<Longrightarrow> rec_at ?r j = Inr zero_entry" for j
    unfolding rec_at_def recs using assms(2) by (simp_all add: nth_list_update)
  have "lookup_bucket (walk_fuel ?r) mua ptr ?r base False k k = Inr No_Hit"
    using at full_pitch_entry [OF assms(8-10), folded e_def] n(4,5) assms(6)
    by (subst lookup_bucket.simps)
      (simp add: Let_def lookup_bucket.simps zero_entry_null bucket_base bump_biggest_def)
  moreover have "lookup_buckets mua ptr ?r base True (k - 1) = Inr None" if "k \<noteq> 0"
    by (rule lookup_empty_buckets) (use at(4) that in auto)
  ultimately have "lookup_buckets mua ptr ?r base False k = Inr None" by (subst lookup_buckets.simps) simp
  moreover have "log_pitch ?r = 8" using n(4) by (simp add: bump_biggest_def)
  moreover have "k mod 2 ^ 32 = k"
    using assms(2) by (simp add: ENTRIES_PER_LAYER_def memrect_entries_per_layer_def)
  ultimately have "lookup_small_alloc mua ptr ?r base = Inr None"
    by (simp add: lookup_small_alloc_def start)
  then show ?thesis using run by blast
qed

section \<open>Examples\<close>

definition ex_rect :: "nat \<Rightarrow> nat \<Rightarrow> chunk_rec" where
  "ex_rect sz lp = \<lparr>metadata_recs = replicate sz zero_entry, starts_bitmap = 0, power_of_two_size = sz, log_pitch = lp,
     one_layer_nbytes = 4096, biggest_object = 0\<rparr>"

theorem small_index_then_lookup_witness:
  "\<exists>r' j w. index_small_alloc_internal 4198400 65546 20 65536 (ex_rect 64 4) = Inr r' \<and>
     lookup_small_alloc 4194304 65560 r' 65536 = Inr (Some (j, 65546, w)) \<and>
     entry_alloc_site (metadata_recs r' ! j) = 4198400"
proof -
  have g: "nb (ex_rect 64 4) = 4" "log_pitch (ex_rect 64 4) = 4"
    by (simp_all add: ex_rect_def ENTRIES_PER_LAYER_def memrect_entries_per_layer_def)
  then have "rect_geom (ex_rect 64 4) 65536" by (simp add: rect_geom_def) (simp add: ex_rect_def)
  moreover have "metadata_recs (ex_rect 64 4) = replicate (nb (ex_rect 64 4) * pitch (ex_rect 64 4)) zero_entry"
    unfolding g by (simp add: ex_rect_def)
  ultimately have "rect_ok 4194304 (ex_rect 64 4) 65536 Map.empty (\<lambda>_. 0)" by (rule fresh_rect_ok)
  from small_index_then_lookup [OF this, of 4198400 20 65546 65546 20 65560] show ?thesis by (auto simp: g)
qed

theorem full_pitch_object_lost_witness:
  "\<exists>r'. index_small_alloc_internal 4198400 66048 300 65536 (ex_rect 1024 8) = Inr r' \<and>
     lookup_small_alloc 4194304 66048 r' 65536 = Inr None"
proof -
  have g: "nb (ex_rect 1024 8) = 4" by (simp add: ex_rect_def ENTRIES_PER_LAYER_def memrect_entries_per_layer_def)
  show ?thesis by (rule full_pitch_object_lost [of _ 2]) (simp_all add: g, simp_all add: ex_rect_def)
qed

end
