(* ===== verification/Spec2Isabelle.thy ===== *)
theory Spec2Isabelle
  imports Pageindex_Witness Range_Cache Memtable Bfs_Correct Walk_Correct Mmap_Correct
    Allocsites_Correct Malloc_Index_Correct Subobjects_Correct Query_Correct Small_Index_Correct
begin

text \<open>
  \<^bold>\<open>liballocs\<close> keeps, for every address of a running process, the hierarchy of
  allocations the address lies in: memory mappings, the program break and the stack at
  the top, the heaps and files nested in them, and below these the objects handed out by each heap.
  Queries go from an address to the allocation that holds it, its allocator, its
  bounds and its type.

  \<^bold>\<open>The parts and how they interact.\<close>  The page index (\<open>src/pageindex.c\<close>) is the table of
  \<open>big allocations\<close> and a map from pages to them; all other parts create, move and delete their
  entries through its operations.  The mmap allocator (\<open>src/allocators/mmap.c\<close>) turns
  mapping system calls into top-level big allocations, each with a \<open>mapping sequence\<close> that
  records the attributes of its contiguous mappings; the brk, stack and auxv allocators
  (\<open>src/allocators/brk.c\<close>, \<open>stack.c\<close>, \<open>auxv.c\<close>) carve their areas out of these, and the page
  index calls them back when it is asked about an address it does not know.  The range
  heap chunk index (\<open>include/generic_malloc_index.h\<close>) records in a bitmap per arena where the
  chunks of a malloc begin and keeps in the end of each chunk an insert (\<open>include/malloc-meta.h\<close>)
  with its allocation site, later its type; the table of allocation sites
  (\<open>src/allocsites.c\<close>) gives the type of a site and an identifier for it.  The small object index
  (\<open>src/allocators/generic_small.c\<close>) records objects carved out of a chunk in a table of
  buckets and layers.  Given the type of an
  object, the functions of \<open>include/liballocs.h\<close> search the subobjects at an offset.  The queries
  (\<open>src/query.c\<close>) tie these together: they find the leaf allocator of an address in the page index,
  ask it, and cache the bounds it gives.  The range
  cache (\<open>include/liballocs_cil_inlines.h\<close>, \<open>src/cache.c\<close>) remembers recent answers, memory
  tables (\<open>include/memtable.h\<close>) are the sparse arrays indices are built on, the object graph
  walk (\<open>src/uniqtype-bfs.c\<close>) follows pointers from object to object, and the allocation tree walk
  (\<open>src/walk.c\<close>) goes down from an allocation to what is nested in it.

  \<^bold>\<open>Conventions.\<close>  The model is that of a build with \<open>NDEBUG\<close>: assertions are not part of the
  operations, and the sanity checks are predicates of their own.  Addresses are natural numbers, except
  where the arithmetic is about words (\<open>Memtable\<close>, \<open>Malloc_Meta\<close>).  A pointer to a big allocation is its slot
  number, 0 the null pointer; other pointers are the addresses of the objects in a map that
  is part of the state.  A faulting operation returns \<open>Inl\<close> of \<open>Abort\<close>, \<open>Null_Deref\<close>,
  \<open>Out_Of_Bounds\<close>, \<open>Div_By_Zero\<close>, \<open>Uninit_Read\<close> or \<open>Out_Of_Fuel\<close>.  Walks along links carry fuel: the size \<open>NBIGALLOCS\<close> of the
  table for walks over big allocations, which the lemmas show to be enough in every consistent
  state, as no list or path visits a slot twice; the number of bytes for the loop of
  \<open>do_munmap\<close>, whose position moves up in all iterations but one; the nesting depth of the type
  for the searches of subobjects and the walk of the allocation tree; the number of entries for walks over the layers of a bucket.  The loops of the object
  graph walk are partial functions, and it is proved that they return.  The big lock and the
  threads it orders are not modelled: an operation runs alone.

  \<^bold>\<open>The theories.\<close>
  \<^item> \<open>LA_Prelude\<close>: faults and their sequencing, page arithmetic, sibling links as lists.
    \<open>Linked_Lists\<close>: doubly linked segments in memory.
  \<^item> \<open>Pageindex\<close>: the globals and all operations on the tree of big allocations and the page map
    (\<open>pageindex.c\<close>, \<open>pageindex.h\<close>), in the order of the code.
  \<^item> \<open>Pageindex_Inv\<close>: the invariant \<open>pi_inv\<close> (the allocations form a forest nested by address, the
    links describe it, the page map names at each page the innermost allocation spanning it)
    and what follows from it.  \<open>Pageindex_Lookup\<close> and \<open>Pageindex_Links\<close>: the lookups
    return the innermost, outermost or neighbouring allocation they promise.
    \<open>Pageindex_New\<close>, \<open>Pageindex_Del\<close>, \<open>Pageindex_Subtree\<close>, \<open>Pageindex_Bounds\<close>, \<open>Pageindex_Range\<close>:
    creation, deletion, changes of bounds and deletion of a range succeed, keep the invariant and change
    nothing else; and the searches that do not find what they should.
    \<open>Pageindex_Laws\<close>: the page index as an interface of nested allocations.
    \<open>Pageindex_Sanity\<close>: the code's sanity checks hold in every consistent state.
    \<open>Pageindex_Example\<close> and \<open>Pageindex_Witness\<close>: a concrete state and the properties there.
  \<^item> \<open>Range_Cache\<close>: the table with its recency list, refined to a list in order of use; replacement of
    the least recently used entry, lookup, invalidation.
  \<^item> \<open>Memtable\<close>: the address arithmetic of memory tables on 64-bit words.
  \<^item> \<open>Mapping_Seq\<close>: mapping sequences, as fixed arrays with a count.  \<open>Mapping_Seq_Correct\<close>: the
    array operations as list operations; a new mapping takes over exactly its addresses, a deleted span
    exactly loses them, and contiguity is kept, except when a mapping reaches past the end.
  \<^item> \<open>Brk_Stack\<close>: the state the allocators share, the brk and stack allocators and the handlers
    the page index calls.  \<open>Mmap\<close>: the handling of mmap, munmap and mremap, the
    reconciliation with \<open>/proc/<pid>/maps\<close>, the scan of the program headers, the auxv allocator.
    \<open>Mmap_Correct\<close>: mapping and unmapping undo each other, under the program's own handlers; the mapping under the
    program break follows it, and overflows its array exactly when full.
  \<^item> \<open>Uniqtypes\<close>: what is read of type descriptors.  \<open>Bfs\<close>: the object graph walk.
    Its maps are the search trees of \<open>tsearch\<close>, ordered by the truncated difference of addresses.
    \<open>Bfs_Correct\<close>: the walk ends and visits each reachable object once, if the addresses differ in their
    low 32 bits and lie within 2 GiB there, however the trees are rebalanced; objects whose
    addresses agree in those bits are taken for each other.
  \<^item> \<open>Walk\<close>: one level of the allocation tree, the depth-first walk and its callbacks.
    \<open>Walk_Correct\<close>: under a typed object it is a preorder walk of the tree of subobjects and reports the
    outermost references; the walk over the children of an allocation leaves some out.
  \<^item> \<open>Malloc_Meta\<close>: the bit fields of an insert as a 64-bit word; the two kinds of insert give back
    what was stored, and are told apart only for some descriptors.
  \<^item> \<open>Allocsites\<close>: the spine of the allocation site vectors and the searches in it.
    \<open>Allocsites_Correct\<close>: registering a file keeps the spine in order, and site and identifier
    determine each other.
  \<^item> \<open>Malloc_Index\<close>: insertion, deletion, resizing, lookup and the queries of the heap chunk index.
    \<open>Malloc_Index_Correct\<close>: the bounded search of the bitmap agrees with the plain one; an inserted
    chunk is found, a deleted one is not, unless it was promoted; the marker of an
    unrecognised site is misread.
  \<^item> \<open>Subobjects\<close>: the bisection over members and the recursive searches.  \<open>Subobjects_Correct\<close>:
    the bisection finds the first member at the greatest offset, the matching search ends and
    decides whether a subobject of the type lies at the offset, and the walk faults on
    arrays of a sizeless type.
  \<^item> \<open>Query\<close>: the public queries, over the operations of the allocators.  \<open>Query_Correct\<close>: the base of
    an address in an indexed chunk is found through the page index and the chunk index, and again from
    the cache; unknown addresses give null results; the search for the innermost type ends.
  \<^item> \<open>Small_Index\<close>: the table of small objects and the allocator's operations on it.
    \<open>Small_Index_Correct\<close>: the table represents a set of disjoint objects; indexing adds one, and
    a lookup in any of them finds it, for pitches below 256; at 256 an object that fills its bucket is lost.

  \<^bold>\<open>Parameters.\<close>  Code outside the repository is an argument of the definitions that use it:
  librunt (loaded objects, the layout of the initial stack, lines of \<open>/proc/<pid>/maps\<close>), libuniqtype
  (type descriptors), the bitmap library, \<open>bsearch_leq\<close>, a malloc's usable size function, the private malloc, the rotations by which \<open>tsearch\<close> rebalances a
  tree, the allocators' own walks and the interpreters of references, \<open>sbrk\<close>, \<open>mmap\<close> and \<open>integer_log2\<close>.  What a property relies on
  is among its hypotheses.

  \<^bold>\<open>Not modelled.\<close>  Deferred mappings and the initialisation of the page index from a signal
  handler; the order of the start-up calls; packed sequences; static
  files, segments, sections and symbols, stack frames and alloca, which read ELF files, unwind
  stacks or depend on compiler-generated code; type construction
  (\<open>uniqtype-util.c\<close>, \<open>rt-uniqtypes.c\<close>); the dynamic linker \<open>allocsld\<close>, the system call traps
  and the preloaded wrappers, which patch code or make system calls; and the build-time
  tools, which are C++ and Python programs over DWARF.
\<close>

end
